(* ===== verification/Prelude.thy ===== *)
theory Prelude
  imports Main "HOL-Library.List_Lexorder" "HOL-Library.Char_ord" "HOL-Library.AList"
    "HOL-Library.Multiset"
begin

text \<open>
  Shared notions of the development: error values, the standard library's
  \<open>errors.Is\<close> and \<open>errors.Join\<close>, stable sorting with a three-way comparison
  (\<open>slices.SortStableFunc\<close>) with the interface \<open>cmp_order\<close> that the comparison
  functions of the client storage implement, and lemmas on lists and association lists.
\<close>

named_theorems err_simps \<open>equations on error values\<close>

section \<open>Error values\<close>

text \<open>
  The context a call of \<open>fmt.Errorf\<close> adds around \<open>%w\<close>: a fixed message, a message with a
  quoted name, a message with an index, or a pair of numbers.
\<close>

datatype ectx = Msg string | MsgQ string string | MsgAt string nat | MsgVer string nat nat

text \<open>
  Sentinel errors of \<open>golibs/errors\<close> and of the standard library that the program returns or
  tests for, any other error, an error with a context, and a list of joined errors.
\<close>

datatype goerr =
    ErrNoValue
  | ErrEmptyValue
  | ErrDuplicated
  | ErrBadEnumValue
  | ErrUnexpectedValue
  | ErrNotExist
  | ErrExist
  | ErrCtxDone
  | ErrOther string
  | EWrap ectx goerr
  | EJoin "goerr list"

text \<open>\<open>errors.Is\<close>: the target is the error itself or one it wraps.\<close>

fun err_is :: "goerr \<Rightarrow> goerr \<Rightarrow> bool" where
  "err_is t (EWrap c e) = (EWrap c e = t \<or> err_is t e)"
| "err_is t (EJoin es) = (EJoin es = t \<or> (\<exists>e \<in> set es. err_is t e))"
| "err_is t e = (e = t)"

text \<open>\<open>errors.Join\<close>: nil values are dropped, and the result is nil if nothing is left.\<close>

definition errors_join :: "goerr option list \<Rightarrow> goerr option" where
  "errors_join es = (case List.map_filter id es of [] \<Rightarrow> None | xs \<Rightarrow> Some (EJoin xs))"

lemma map_filter_id_Nil: "List.map_filter id es = [] \<longleftrightarrow> (\<forall>e \<in> set es. e = None)"
  by (induction es) (auto simp: List.map_filter_def)

lemma errors_join_None [simp]: "errors_join es = None \<longleftrightarrow> (\<forall>e \<in> set es. e = None)"
  by (auto simp: errors_join_def map_filter_id_Nil [symmetric] split: list.splits)

lemma errors_join_Nil [simp]: "errors_join [] = None"
  by simp

lemma errors_join_Some:
  "errors_join es = Some e \<Longrightarrow> e = EJoin (List.map_filter id es) \<and> (\<exists>x. Some x \<in> set es)"
  by (auto simp: errors_join_def map_filter_id_Nil [symmetric] split: list.splits)
    (metis errors_join_None errors_join_def list.simps(5) not_None_eq option.distinct(1)
      map_filter_id_Nil)

section \<open>Three-way comparison of ordered values\<close>

text \<open>\<open>cmp.Compare\<close> and \<open>strings.Compare\<close> of the standard library.\<close>

definition go_cmp :: "'a::linorder \<Rightarrow> 'a \<Rightarrow> int" where
  "go_cmp a b = (if a = b then 0 else if a < b then -1 else 1)"

lemma go_cmp_neg: "go_cmp b a = - go_cmp a b"
  by (auto simp: go_cmp_def)

lemma go_cmp_0 [simp]: "go_cmp a b = 0 \<longleftrightarrow> a = b"
  by (auto simp: go_cmp_def)

lemma go_cmp_le: "go_cmp a b \<le> 0 \<longleftrightarrow> a \<le> b"
  by (auto simp: go_cmp_def)

lemma go_cmp_less: "go_cmp a b < 0 \<longleftrightarrow> a < b"
  by (auto simp: go_cmp_def)

lemma go_cmp_eqs [simp]:
  "go_cmp a b = 1 \<longleftrightarrow> b < a" "go_cmp a b = -1 \<longleftrightarrow> a < b"
  by (auto simp: go_cmp_def)

section \<open>Stable sorting with a three-way comparison\<close>

fun insert_by :: "('a \<Rightarrow> 'a \<Rightarrow> int) \<Rightarrow> 'a \<Rightarrow> 'a list \<Rightarrow> 'a list" where
  "insert_by cmp x [] = [x]"
| "insert_by cmp x (y # ys) = (if cmp x y \<le> 0 then x # y # ys else y # insert_by cmp x ys)"

text \<open>\<open>slices.SortStableFunc\<close>: elements that compare equal keep their order.\<close>

fun sort_stable :: "('a \<Rightarrow> 'a \<Rightarrow> int) \<Rightarrow> 'a list \<Rightarrow> 'a list" where
  "sort_stable cmp [] = []"
| "sort_stable cmp (x # xs) = insert_by cmp x (sort_stable cmp xs)"

lemma mset_insert_by [simp]: "mset (insert_by cmp x xs) = add_mset x (mset xs)"
  by (induction xs) auto

lemma mset_sort_stable [simp]: "mset (sort_stable cmp xs) = mset xs"
  by (induction xs) auto

lemma set_insert_by [simp]: "set (insert_by cmp x xs) = insert x (set xs)"
  by (induction xs) auto

lemma set_sort_stable [simp]: "set (sort_stable cmp xs) = set xs"
  by (induction xs) auto

lemma length_sort_stable [simp]: "length (sort_stable cmp xs) = length xs"
  by (metis mset_sort_stable size_mset)

lemma sort_stable_Nil_iff [simp]: "sort_stable cmp xs = [] \<longleftrightarrow> xs = []"
  by (metis length_0_conv length_sort_stable)

text \<open>
  The interface of a comparison function: on the values that are valid for it (\<open>ok\<close>) it is a
  total preorder given by its sign, and it is zero only on values with the same key.
\<close>

locale cmp_order =
  fixes cmp :: "'a \<Rightarrow> 'a \<Rightarrow> int" and ok :: "'a \<Rightarrow> bool" and key :: "'a \<Rightarrow> 'k"
  assumes cmp_neg: "ok x \<Longrightarrow> ok y \<Longrightarrow> cmp y x = - cmp x y"
    and cmp_trans: "ok x \<Longrightarrow> ok y \<Longrightarrow> ok z \<Longrightarrow> cmp x y \<le> 0 \<Longrightarrow> cmp y z \<le> 0 \<Longrightarrow> cmp x z \<le> 0"
    and cmp_eq: "ok x \<Longrightarrow> ok y \<Longrightarrow> cmp x y = 0 \<Longrightarrow> key x = key y"
begin

lemma cmp_self: "ok x \<Longrightarrow> cmp x x = 0"
  using cmp_neg [of x x] by simp

lemma cmp_total: "ok x \<Longrightarrow> ok y \<Longrightarrow> cmp x y \<le> 0 \<or> cmp y x \<le> 0"
  using cmp_neg [of x y] by auto

lemma sorted_insert_by:
  assumes "\<forall>y \<in> set xs. ok y" "ok x" "sorted_wrt (\<lambda>a b. cmp a b \<le> 0) xs"
  shows "sorted_wrt (\<lambda>a b. cmp a b \<le> 0) (insert_by cmp x xs)"
  using assms
proof (induction xs)
  case Nil
  then show ?case by simp
next
  case (Cons y ys)
  then have IH: "sorted_wrt (\<lambda>a b. cmp a b \<le> 0) (insert_by cmp x ys)" by simp
  have y: "ok y" "\<And>z. z \<in> set ys \<Longrightarrow> ok z \<and> cmp y z \<le> 0" using Cons.prems by auto
  show ?case
  proof (cases "cmp x y \<le> 0")
    case True
    then have "cmp x z \<le> 0" if "z \<in> set ys" for z
      using cmp_trans [of x y z] y that Cons.prems(2) by blast
    with True Cons.prems show ?thesis by simp
  next
    case False
    then have "cmp y x \<le> 0" using cmp_total [of x y] y(1) Cons.prems(2) by blast
    with False IH y show ?thesis by auto
  qed
qed

lemma sorted_sort_stable:
  assumes "\<forall>x \<in> set xs. ok x"
  shows "sorted_wrt (\<lambda>a b. cmp a b \<le> 0) (sort_stable cmp xs)"
  using assms
proof (induction xs)
  case Nil
  then show ?case by simp
next
  case (Cons x xs)
  then show ?case by (simp add: sorted_insert_by)
qed

lemma sorted_perm_unique:
  assumes "mset xs = mset ys" "\<forall>x \<in> set xs. ok x" "distinct (map key xs)"
    "sorted_wrt (\<lambda>a b. cmp a b \<le> 0) xs" "sorted_wrt (\<lambda>a b. cmp a b \<le> 0) ys"
  shows "xs = ys"
  using assms
proof (induction xs arbitrary: ys)
  case Nil
  then show ?case by simp
next
  case (Cons x xs)
  then obtain y ys' where ys: "ys = y # ys'" by (cases ys) auto
  have sets: "set (x # xs) = set ys"
    using Cons.prems(1) by (metis set_mset_mset)
  have "x = y"
  proof (rule ccontr)
    assume "x \<noteq> y"
    then have "y \<in> set xs" "x \<in> set ys'" using sets ys by auto
    then have "cmp x y \<le> 0" "cmp y x \<le> 0" using Cons.prems ys by auto
    moreover have "ok x" "ok y" using Cons.prems \<open>y \<in> set xs\<close> by auto
    ultimately have "cmp x y = 0" using cmp_neg [of x y] by simp
    then have "key x = key y" using \<open>ok x\<close> \<open>ok y\<close> by (rule cmp_eq [rotated 2])
    then show False using Cons.prems(3) \<open>y \<in> set xs\<close> by auto
  qed
  moreover have "xs = ys'"
    using Cons.IH [of ys'] Cons.prems ys \<open>x = y\<close> by auto
  ultimately show ?case using ys by simp
qed

lemma sort_stable_perm:
  assumes "mset xs = mset ys" "\<forall>x \<in> set xs. ok x" "distinct (map key xs)"
  shows "sort_stable cmp xs = sort_stable cmp ys"
proof (rule sorted_perm_unique)
  have "set ys = set xs" using assms(1) by (metis set_mset_mset)
  then show "sorted_wrt (\<lambda>a b. cmp a b \<le> 0) (sort_stable cmp ys)"
    using assms(2) by (intro sorted_sort_stable) auto
  show "distinct (map key (sort_stable cmp xs))"
    using assms(3) by (metis mset_map mset_sort_stable mset_eq_imp_distinct_iff)
qed (use assms in \<open>auto intro: sorted_sort_stable\<close>)

lemma find_least:
  assumes "sorted_wrt (\<lambda>a b. cmp a b \<le> 0) xs" "find P xs = Some x" "y \<in> set xs" "P y" "ok x"
  shows "cmp x y \<le> 0"
  using assms cmp_self [of x] by (induction xs) (auto split: if_splits)

end

section \<open>Lists and association lists\<close>

lemma find_Some_in: "find P xs = Some x \<Longrightarrow> x \<in> set xs \<and> P x"
  by (auto simp: find_Some_iff)

lemma map_of_filter_key:
  "map_of (filter (\<lambda>(k, v). P k v) xs) k = Some v \<Longrightarrow> P k v"
  by (auto dest!: map_of_SomeD)

lemma map_of_filter_distinct:
  "distinct (map fst xs) \<Longrightarrow>
    map_of (filter (\<lambda>(k, v). P k v) xs) k =
      (case map_of xs k of None \<Rightarrow> None | Some v \<Rightarrow> if P k v then Some v else None)"
  by (induction xs) (auto split: option.splits simp: map_of_eq_None_iff image_iff)

lemma distinct_fst_filter: "distinct (map fst xs) \<Longrightarrow> distinct (map fst (filter P xs))"
  by (induction xs) auto

lemma map_of_update: "map_of (AList.update k v m) l = (if l = k then Some v else map_of m l)"
  by (simp add: AList.update_conv')

end
