(* ===== verification/GoStrings.thy ===== *)
theory GoStrings
  imports Prelude "HOL-Library.Sublist"
begin

text \<open>
  The functions of the standard library's \<open>strings\<close> package that the program calls, on byte
  strings (\<^typ>\<open>string\<close>, one \<^typ>\<open>char\<close> per byte), and the facts about labels of a
  dot-separated name that the theories on domains and human IDs share.  \<open>ToLower\<close> and
  \<open>TrimSpace\<close> are modelled on ASCII: bytes from 128 up are left as they are.
\<close>

abbreviation dot :: char where "dot \<equiv> CHR ''.''"

abbreviation hyphen :: char where "hyphen \<equiv> CHR ''-''"

text \<open>\<open>strings.TrimSuffix\<close>, \<open>strings.HasPrefix\<close>, \<open>strings.TrimRight(s, ".")\<close>.\<close>

definition has_suffix :: "string \<Rightarrow> string \<Rightarrow> bool" where
  "has_suffix s t = (length t \<le> length s \<and> drop (length s - length t) s = t)"

definition trim_suffix :: "string \<Rightarrow> string \<Rightarrow> string" where
  "trim_suffix s t = (if has_suffix s t then take (length s - length t) s else s)"

definition has_prefix :: "string \<Rightarrow> string \<Rightarrow> bool" where
  "has_prefix s t = (take (length t) s = t)"

definition trim_right_dots :: "string \<Rightarrow> string" where
  "trim_right_dots s = rev (dropWhile (\<lambda>c. c = dot) (rev s))"

lemma length_trim_suffix: "length (trim_suffix s t) \<le> length s"
  by (simp add: trim_suffix_def)

lemma set_trim_suffix: "set (trim_suffix s t) \<subseteq> set s"
  by (auto simp: trim_suffix_def dest: in_set_takeD)

text \<open>\<open>strings.ToLower\<close>.\<close>

definition lower_char :: "char \<Rightarrow> char" where
  "lower_char c =
     (if (65::nat) \<le> of_char c \<and> of_char c \<le> (90::nat) then char_of (of_char c + 32 :: nat) else c)"

definition to_lower :: "string \<Rightarrow> string" where
  "to_lower s = map lower_char s"

lemma lower_char_idem [simp]: "lower_char (lower_char c) = lower_char c"
  by (auto simp: lower_char_def take_bit_eq_mod)

lemma to_lower_idem [simp]: "to_lower (to_lower s) = to_lower s"
  by (simp add: to_lower_def)

lemma to_lower_Nil_iff [simp]: "to_lower s = [] \<longleftrightarrow> s = []"
  by (simp add: to_lower_def)

text \<open>\<open>strings.LastIndexByte\<close>: \<open>-1\<close> when the byte does not occur.\<close>

fun last_index :: "char \<Rightarrow> string \<Rightarrow> int" where
  "last_index c [] = -1"
| "last_index c (x # xs) =
     (if 0 \<le> last_index c xs then last_index c xs + 1 else if x = c then 0 else -1)"

lemma last_index_ge: "-1 \<le> last_index c s"
  by (induction s) auto

lemma last_index_less: "last_index c s < int (length s)"
  by (induction s) auto

lemma last_index_notin: "last_index c s = -1 \<longleftrightarrow> c \<notin> set s"
proof (induction s)
  case (Cons x xs)
  then show ?case using last_index_ge [of c xs] by auto
qed simp

lemma last_index_append: "c \<notin> set l \<Longrightarrow> last_index c (p @ c # l) = int (length p)"
proof (induction p)
  case Nil
  then show ?case using last_index_notin [of c l] by simp
qed simp

text \<open>\<open>strings.Index\<close> and \<open>strings.ReplaceAll\<close> of one byte by another.\<close>

fun str_index :: "string \<Rightarrow> string \<Rightarrow> nat option" where
  "str_index sub [] = (if sub = [] then Some 0 else None)"
| "str_index sub (x # xs) =
     (if has_prefix (x # xs) sub then Some 0 else map_option Suc (str_index sub xs))"

definition replace_char :: "char \<Rightarrow> char \<Rightarrow> string \<Rightarrow> string" where
  "replace_char a b s = map (\<lambda>c. if c = a then b else c) s"

lemma length_replace_char [simp]: "length (replace_char a b s) = length s"
  by (simp add: replace_char_def)

lemma replace_char_append [simp]:
  "replace_char a b (xs @ ys) = replace_char a b xs @ replace_char a b ys"
  by (simp add: replace_char_def)

lemma replace_char_notin: "a \<noteq> b \<Longrightarrow> a \<notin> set (replace_char a b s)"
  by (auto simp: replace_char_def split: if_splits)

lemma str_index_None: "str_index sub s = None \<longleftrightarrow> \<not> sublist sub s"
proof (induction s)
  case Nil
  then show ?case by auto
next
  case (Cons x xs)
  have "has_prefix (x # xs) sub \<longleftrightarrow> prefix sub (x # xs)"
    by (metis append_eq_conv_conj has_prefix_def prefix_def take_is_prefix)
  with Cons show ?case by (auto simp: sublist_Cons_right)
qed

text \<open>\<open>strings.Cut\<close>: the parts before and after the first separator, and whether it occurs.\<close>

definition cut :: "char \<Rightarrow> string \<Rightarrow> string \<times> string \<times> bool" where
  "cut c s = (if c \<in> set s then (takeWhile (\<lambda>x. x \<noteq> c) s, tl (dropWhile (\<lambda>x. x \<noteq> c) s), True)
              else (s, [], False))"

lemma cut_append: "c \<notin> set k \<Longrightarrow> cut c (k @ c # v) = (k, v, True)"
  by (induction k) (auto simp: cut_def)

lemma cut_notin: "c \<notin> set s \<Longrightarrow> cut c s = (s, [], False)"
  by (simp add: cut_def)

text \<open>\<open>strings.TrimSpace\<close>.\<close>

definition is_space :: "char \<Rightarrow> bool" where
  "is_space c = (of_char c \<in> {9, 10, 11, 12, 13, 32 :: nat})"

definition trim_space :: "string \<Rightarrow> string" where
  "trim_space s = rev (dropWhile is_space (rev (dropWhile is_space s)))"

section \<open>Labels\<close>

text \<open>\<open>strings.Split\<close> by one byte: never empty.\<close>

fun split_on :: "char \<Rightarrow> string \<Rightarrow> string list" where
  "split_on c [] = [[]]"
| "split_on c (x # xs) =
     (if x = c then [] # split_on c xs
      else (case split_on c xs of [] \<Rightarrow> [[x]] | l # ls \<Rightarrow> (x # l) # ls))"

lemma split_on_ne [simp]: "split_on c s \<noteq> []"
  by (cases s) (auto split: list.splits)

lemma split_on_notin: "c \<notin> set s \<Longrightarrow> split_on c s = [s]"
  by (induction s) auto

lemma split_on_append: "split_on c (p @ c # l) = split_on c p @ split_on c l"
  by (induction p) (auto split: list.splits)

lemma split_on_set: "l \<in> set (split_on c s) \<Longrightarrow> c \<notin> set l"
  by (induction s arbitrary: l) (auto split: list.splits if_splits)

text \<open>The name is the join of its labels, so equal labels mean equal names.\<close>

fun join_with :: "char \<Rightarrow> string list \<Rightarrow> string" where
  "join_with c [] = []"
| "join_with c [l] = l"
| "join_with c (l # ls) = l @ c # join_with c ls"

lemma join_with_Cons: "ls \<noteq> [] \<Longrightarrow> join_with c (l # ls) = l @ c # join_with c ls"
  by (cases ls) auto

lemma join_split [simp]: "join_with c (split_on c s) = s"
proof (induction s)
  case Nil
  then show ?case by simp
next
  case (Cons x xs)
  obtain l ls where ls: "split_on c xs = l # ls" by (cases "split_on c xs") auto
  show ?case
  proof (cases "x = c")
    case True
    then show ?thesis using Cons ls join_with_Cons [of "l # ls" c "[]"] by simp
  next
    case False
    then show ?thesis using Cons ls by (cases ls) auto
  qed
qed

lemma split_on_inj: "split_on c s = split_on c t \<longleftrightarrow> s = t"
  by (metis join_split)

lemma split_join:
  "ls \<noteq> [] \<Longrightarrow> \<forall>l \<in> set ls. c \<notin> set l \<Longrightarrow> split_on c (join_with c ls) = ls"
proof (induction ls rule: join_with.induct)
  case (2 c l)
  then show ?case by (simp add: split_on_notin)
next
  case (3 c l l' ls)
  then show ?case by (simp add: split_on_append split_on_notin)
qed simp

text \<open>
  A non-FQDN name as the client storage keys are: empty, or with no empty label (so no leading,
  trailing or doubled dot).
\<close>

definition non_fqdn :: "string \<Rightarrow> bool" where
  "non_fqdn d = (d = [] \<or> [] \<notin> set (split_on dot d))"

definition labels :: "string \<Rightarrow> string list" where
  "labels d = (if d = [] then [] else split_on dot d)"

lemma labels_inj: "non_fqdn a \<Longrightarrow> non_fqdn b \<Longrightarrow> labels a = labels b \<Longrightarrow> a = b"
  by (auto simp: labels_def split_on_inj split: if_splits) (metis split_on_ne)+

lemma labels_append:
  "p \<noteq> [] \<Longrightarrow> t \<noteq> [] \<Longrightarrow> labels (p @ dot # t) = labels p @ labels t"
  by (simp add: labels_def split_on_append)

text \<open>The last label of a name and what precedes its dot.\<close>

lemma last_label_cases:
  obtains (single) "dot \<notin> set d" | (more) p l where "d = p @ dot # l" "dot \<notin> set l"
  by (metis split_list_last)

end
