(* ===== verification/Golibs.thy ===== *)
theory Golibs
  imports GoStrings
begin

text \<open>
  The module \<open>github.com/AdguardTeam/golibs\<close> is not part of the repository.  Its functions
  that the program calls are a parameter of the model: a record of functions, with what the
  callers rely on (the documented results) as the predicate \<open>golibs_ok\<close>.  The functions of
  \<open>golibs/errors\<close> that re-export the standard library (\<open>Is\<close>, \<open>Join\<close>) are those of
  \<^theory_text>\<open>Prelude\<close>.  A generic function is given the data its result depends on: \<open>NotEmpty\<close> whether
  the value is the zero value, \<open>EmptySlice\<close> the length, \<open>Append\<close> the result of \<open>Validate\<close>.
\<close>

record golibs =
  annotate :: "ectx \<Rightarrow> goerr option \<Rightarrow> goerr option"
  with_deferred :: "goerr option \<Rightarrow> goerr option \<Rightarrow> goerr option"
  v_positive :: "string \<Rightarrow> int \<Rightarrow> goerr option"
  v_in_range :: "string \<Rightarrow> int \<Rightarrow> int \<Rightarrow> int \<Rightarrow> goerr option"
  v_no_less_than :: "string \<Rightarrow> int \<Rightarrow> int \<Rightarrow> goerr option"
  v_equal :: "string \<Rightarrow> int \<Rightarrow> int \<Rightarrow> goerr option"
  v_not_empty :: "string \<Rightarrow> bool \<Rightarrow> goerr option"
  v_empty_slice :: "string \<Rightarrow> nat \<Rightarrow> goerr option"
  v_not_nil :: "string \<Rightarrow> bool \<Rightarrow> goerr option"
  v_append :: "goerr option list \<Rightarrow> string \<Rightarrow> goerr option \<Rightarrow> goerr option list"
  v_append_slice :: "goerr option list \<Rightarrow> string \<Rightarrow> goerr option list \<Rightarrow> goerr option list"
  hostname_label :: "string \<Rightarrow> goerr option"
  domain_name :: "string \<Rightarrow> goerr option"
  is_subdomain :: "string \<Rightarrow> string \<Rightarrow> bool"

section \<open>The documented behaviour\<close>

definition alnum :: "char \<Rightarrow> bool" where
  "alnum c = (let n = of_char c :: nat in 48 \<le> n \<and> n \<le> 57 \<or> 65 \<le> n \<and> n \<le> 90 \<or> 97 \<le> n \<and> n \<le> 122)"

text \<open>A label of a host name: 1 to 63 letters, digits and inner hyphens.\<close>

definition valid_label :: "string \<Rightarrow> bool" where
  "valid_label l = (1 \<le> length l \<and> length l \<le> 63 \<and> (\<forall>c \<in> set l. alnum c \<or> c = hyphen)
     \<and> alnum (hd l) \<and> alnum (last l))"

definition annotate_ok :: "golibs \<Rightarrow> bool" where
  "annotate_ok G = ((\<forall>c. annotate G c None = None) \<and>
     (\<forall>c e. \<exists>e'. annotate G c (Some e) = Some e' \<and> (\<forall>t. err_is t e \<longrightarrow> err_is t e')))"

definition validate_ok :: "golibs \<Rightarrow> bool" where
  "validate_ok G = (
     (\<forall>n v. v_positive G n v = None \<longleftrightarrow> 0 < v) \<and>
     (\<forall>n v lo hi. v_in_range G n v lo hi = None \<longleftrightarrow> lo \<le> v \<and> v \<le> hi) \<and>
     (\<forall>n v lo. v_no_less_than G n v lo = None \<longleftrightarrow> lo \<le> v) \<and>
     (\<forall>n a b. v_equal G n a b = None \<longleftrightarrow> a = b) \<and>
     (\<forall>n z. v_not_empty G n z = None \<longleftrightarrow> \<not> z) \<and>
     (\<forall>n k. v_empty_slice G n k = None \<longleftrightarrow> k = 0) \<and>
     (\<forall>n z. v_not_nil G n z = None \<longleftrightarrow> \<not> z) \<and>
     (\<forall>es n r. (\<forall>e \<in> set (v_append G es n r). e = None) \<longleftrightarrow> (\<forall>e \<in> set es. e = None) \<and> r = None) \<and>
     (\<forall>es n rs. (\<forall>e \<in> set (v_append_slice G es n rs). e = None) \<longleftrightarrow>
        (\<forall>e \<in> set es. e = None) \<and> (\<forall>r \<in> set rs. r = None)))"

definition netutil_ok :: "golibs \<Rightarrow> bool" where
  "netutil_ok G = (
     (\<forall>l. hostname_label G l = None \<longleftrightarrow> valid_label l) \<and>
     (\<forall>d. domain_name G d = None \<longrightarrow> d \<noteq> [] \<and> non_fqdn d) \<and>
     (\<forall>d t. is_subdomain G d t \<longleftrightarrow> (\<exists>p. p \<noteq> [] \<and> d = p @ dot # t)))"

definition golibs_ok :: "golibs \<Rightarrow> bool" where
  "golibs_ok G = (annotate_ok G \<and> validate_ok G \<and> netutil_ok G)"

lemma golibs_okD:
  assumes "golibs_ok G"
  shows "annotate_ok G" "validate_ok G" "netutil_ok G"
  using assms by (simp_all add: golibs_ok_def)

lemma annotate_None [simp]:
  assumes "annotate_ok G"
  shows "annotate G c r = None \<longleftrightarrow> r = None"
  using assms by (cases r) (auto simp: annotate_ok_def, metis option.distinct(1))

lemma annotate_is:
  assumes "annotate_ok G" "annotate G c (Some e) = Some e'" "err_is t e"
  shows "err_is t e'"
  using assms by (metis annotate_ok_def option.inject)

text \<open>The error of a deferred \<open>errors.Annotate\<close> on a path that returns an error.\<close>

definition annotated :: "golibs \<Rightarrow> ectx \<Rightarrow> goerr \<Rightarrow> goerr" where
  "annotated G c e = (case annotate G c (Some e) of None \<Rightarrow> e | Some e' \<Rightarrow> e')"

lemma annotated_is: "annotate_ok G \<Longrightarrow> err_is t e \<Longrightarrow> err_is t (annotated G c e)"
  using annotate_is [of G c e _ t] by (auto simp: annotated_def split: option.splits)

lemma validate_simps [simp]:
  assumes "validate_ok G"
  shows "v_positive G n v = None \<longleftrightarrow> 0 < v"
    "v_in_range G n v lo hi = None \<longleftrightarrow> lo \<le> v \<and> v \<le> hi"
    "v_no_less_than G n v lo = None \<longleftrightarrow> lo \<le> v"
    "v_equal G n a b = None \<longleftrightarrow> a = b"
    "v_not_empty G n z = None \<longleftrightarrow> \<not> z"
    "v_empty_slice G n k = None \<longleftrightarrow> k = 0"
    "v_not_nil G n z = None \<longleftrightarrow> \<not> z"
    "(\<forall>e \<in> set (v_append G es n r). e = None) \<longleftrightarrow> (\<forall>e \<in> set es. e = None) \<and> r = None"
    "(\<forall>e \<in> set (v_append_slice G es n rs). e = None) \<longleftrightarrow>
        (\<forall>e \<in> set es. e = None) \<and> (\<forall>r \<in> set rs. r = None)"
  using assms by (simp_all add: validate_ok_def)

lemma netutil_simps:
  assumes "netutil_ok G"
  shows "hostname_label G l = None \<longleftrightarrow> valid_label l"
    "is_subdomain G d t \<longleftrightarrow> (\<exists>p. p \<noteq> [] \<and> d = p @ dot # t)"
    "domain_name G d = None \<Longrightarrow> d \<noteq> [] \<and> non_fqdn d"
  using assms by (simp_all add: netutil_ok_def)

section \<open>A concrete instance\<close>

text \<open>
  Functions with the documented results, for concrete inputs in the witnesses.  The model never
  uses them.
\<close>

definition fail_if :: "bool \<Rightarrow> goerr option" where
  "fail_if b = (if b then Some (ErrOther ''invalid'') else None)"

lemma fail_if_None [simp]: "fail_if b = None \<longleftrightarrow> \<not> b"
  by (simp add: fail_if_def)

definition ref_golibs :: golibs where
  "ref_golibs = \<lparr>
     annotate = (\<lambda>c r. map_option (EWrap c) r),
     with_deferred = (\<lambda>r d. errors_join [r, d]),
     v_positive = (\<lambda>n v. fail_if (v \<le> 0)),
     v_in_range = (\<lambda>n v lo hi. fail_if (v < lo \<or> hi < v)),
     v_no_less_than = (\<lambda>n v lo. fail_if (v < lo)),
     v_equal = (\<lambda>n a b. fail_if (a \<noteq> b)),
     v_not_empty = (\<lambda>n z. if z then Some (EWrap (Msg n) ErrEmptyValue) else None),
     v_empty_slice = (\<lambda>n k. fail_if (k \<noteq> 0)),
     v_not_nil = (\<lambda>n z. if z then Some (EWrap (Msg n) ErrNoValue) else None),
     v_append = (\<lambda>es n r. es @ [map_option (EWrap (Msg n)) r]),
     v_append_slice = (\<lambda>es n rs. es @ map (map_option (EWrap (Msg n))) rs),
     hostname_label = (\<lambda>l. fail_if (\<not> valid_label l)),
     domain_name = (\<lambda>d. fail_if (d = [] \<or> \<not> non_fqdn d)),
     is_subdomain = (\<lambda>d t. length t + 1 < length d \<and> has_suffix d (dot # t)) \<rparr>"

lemma ref_subdomain:
  "length t + 1 < length d \<and> has_suffix d (dot # t) \<longleftrightarrow> (\<exists>p. p \<noteq> [] \<and> d = p @ dot # t)"
proof
  assume *: "length t + 1 < length d \<and> has_suffix d (dot # t)"
  define p where "p = take (length d - length (dot # t)) d"
  have "d = p @ dot # t"
    using * append_take_drop_id [of "length d - length (dot # t)" d]
    by (simp add: p_def has_suffix_def)
  moreover have "p \<noteq> []" using * by (auto simp: p_def)
  ultimately show "\<exists>p. p \<noteq> [] \<and> d = p @ dot # t" by blast
qed (auto simp: has_suffix_def)

lemma ref_golibs_ok: "golibs_ok ref_golibs"
  using ref_subdomain
  by (auto simp: golibs_ok_def annotate_ok_def validate_ok_def netutil_ok_def ref_golibs_def)

end
