(* ===== verification/HumanId.thy ===== *)
theory HumanId
  imports Golibs
begin

text \<open>
  \<open>internal/client/humanid.go\<close>: the validated identifiers of clients (\<open>HumanID\<close>), profiles
  and device types, and the conversion of a host name from a PTR record into a \<open>HumanID\<close>.
  The Go types are strings; a constructor returns the error (\<open>Inl\<close>) or the identifier.
\<close>

section \<open>The identifiers\<close>

type_synonym human_id = string
type_synonym profile_id = string
type_synonym device_type = string

definition DeviceTypeLen :: nat where "DeviceTypeLen = 3"

definition ProfileIDLen :: nat where "ProfileIDLen = 8"

text \<open>\<open>netutil.MaxDomainLabelLen\<close> is 63, the limit of RFC 1035 on a label.\<close>

definition maxHumanIDLen :: nat where
  "maxHumanIDLen = 63 - DeviceTypeLen - ProfileIDLen - 2 * length ''-''"

definition minHumanIDLen :: nat where "minHumanIDLen = 1"

lemmas human_id_consts = maxHumanIDLen_def minHumanIDLen_def DeviceTypeLen_def ProfileIDLen_def

definition newHumanID :: "golibs \<Rightarrow> string \<Rightarrow> goerr + human_id" where
  "newHumanID G s =
     (case v_in_range G ''human id length'' (int (length s)) (int minHumanIDLen) (int maxHumanIDLen) of
        Some e \<Rightarrow> Inl e
      | None \<Rightarrow>
          (case hostname_label G s of
             Some e \<Rightarrow> Inl e
           | None \<Rightarrow>
               (case str_index ''---'' s of
                  Some i \<Rightarrow>
                    Inl (EWrap (MsgAt '''' i) (ErrOther ''max 2 consecutive hyphens are allowed''))
                | None \<Rightarrow> Inr s)))"

definition fqdnToHumanID :: "golibs \<Rightarrow> string \<Rightarrow> goerr + human_id" where
  "fqdnToHumanID G fqdn =
     (let domain = trim_suffix fqdn [dot] in
      case v_no_less_than G ''domain'' (int (length domain)) (int minHumanIDLen) of
        Some e \<Rightarrow> Inl e
      | None \<Rightarrow>
          let domain = (if maxHumanIDLen < length domain
                        then trim_suffix (take maxHumanIDLen domain) [dot] else domain);
              idStr = replace_char dot hyphen domain
          in newHumanID G idStr)"

text \<open>
  The loop of \<open>NewProfileID\<close> over the runes of the string.  The first byte from 128 up starts a
  rune above \<open>'~'\<close>, so the first bad rune is at the first bad byte, and the bytes decide.
\<close>

fun bad_printable :: "nat \<Rightarrow> string \<Rightarrow> (char \<times> nat) option" where
  "bad_printable i [] = None"
| "bad_printable i (r # rs) =
     (if (of_char r :: nat) < 33 \<or> (126 :: nat) < of_char r then Some (r, i)
      else bad_printable (Suc i) rs)"

definition NewProfileID :: "golibs \<Rightarrow> string \<Rightarrow> goerr + profile_id" where
  "NewProfileID G s =
     (case v_equal G ''profile id length'' (int (length s)) (int ProfileIDLen) of
        Some e \<Rightarrow> Inl (EWrap (MsgQ ''bad profile id'' s) e)
      | None \<Rightarrow>
          (case bad_printable 0 s of
             Some (r, i) \<Rightarrow> Inl (EWrap (MsgAt ''bad profile id'' i) (ErrOther [r]))
           | None \<Rightarrow>
               (case hostname_label G s of
                  Some e \<Rightarrow> Inl (EWrap (MsgQ ''bad profile id'' s) e)
                | None \<Rightarrow> Inr s)))"

definition deviceTypes :: "device_type list" where
  "deviceTypes = [''adr'', ''gam'', ''ios'', ''lnx'', ''mac'', ''otr'', ''rtr'', ''stv'', ''win'']"

definition NewDeviceType :: "string \<Rightarrow> goerr + device_type" where
  "NewDeviceType s =
     (if s \<notin> set deviceTypes then Inl (EWrap (MsgQ ''device type'' s) ErrBadEnumValue) else Inr s)"

section \<open>What the constructors accept\<close>

definition valid_human_id :: "human_id \<Rightarrow> bool" where
  "valid_human_id s = (length s \<le> maxHumanIDLen \<and> valid_label s \<and> \<not> sublist ''---'' s)"

definition valid_profile_id :: "profile_id \<Rightarrow> bool" where
  "valid_profile_id s = (length s = ProfileIDLen \<and> valid_label s)"

lemma newHumanID_Inr:
  assumes "golibs_ok G"
  shows "newHumanID G s = Inr t \<longleftrightarrow> t = s \<and> valid_human_id s"
proof -
  have "v_in_range G ''human id length'' (int (length s)) (int minHumanIDLen) (int maxHumanIDLen) = None
      \<longleftrightarrow> 1 \<le> length s \<and> length s \<le> maxHumanIDLen"
    using golibs_okD [OF assms] by (auto simp: minHumanIDLen_def)
  moreover have "hostname_label G s = None \<longleftrightarrow> valid_label s"
    using netutil_simps(1) [OF golibs_okD(3) [OF assms]] .
  moreover have "valid_label s \<Longrightarrow> 1 \<le> length s" by (simp add: valid_label_def)
  moreover have "str_index ''---'' s = None \<longleftrightarrow> \<not> sublist ''---'' s" by (rule str_index_None)
  ultimately show ?thesis unfolding newHumanID_def valid_human_id_def
    by (cases "v_in_range G ''human id length'' (int (length s)) (int minHumanIDLen) (int maxHumanIDLen)";
        cases "hostname_label G s"; cases "str_index ''---'' s") auto
qed

lemma trim_suffix_dot_last: "trim_suffix (s @ [dot]) [dot] = s"
  by (simp add: trim_suffix_def has_suffix_def)

lemma trim_suffix_not_dot: "dot \<notin> set s \<Longrightarrow> trim_suffix s [dot] = s"
  using in_set_dropD [of dot "length s - Suc 0" s]
  by (auto simp: trim_suffix_def has_suffix_def)

lemma replace_char_id: "a \<notin> set s \<Longrightarrow> replace_char a b s = s"
  by (auto simp: replace_char_def intro: map_idI)

lemma alnum_not_dot: "\<not> alnum dot"
  by (simp add: alnum_def)

lemma valid_label_no_dot: "valid_label s \<Longrightarrow> dot \<notin> set s"
  using alnum_not_dot by (auto simp: valid_label_def)

lemma fqdnToHumanID_Inr:
  assumes "golibs_ok G"
  shows "fqdnToHumanID G fqdn = Inr t \<Longrightarrow> valid_human_id t"
  using newHumanID_Inr [OF assms]
  by (auto simp: fqdnToHumanID_def Let_def split: option.splits if_splits)

lemma bad_printable_None:
  "bad_printable i s = None \<longleftrightarrow> (\<forall>c \<in> set s. (33::nat) \<le> of_char c \<and> of_char c \<le> (126::nat))"
  by (induction s arbitrary: i) auto

lemma alnum_printable: "alnum c \<or> c = hyphen \<Longrightarrow> (33::nat) \<le> of_char c \<and> of_char c \<le> (126::nat)"
  by (auto simp: alnum_def Let_def)

lemma NewProfileID_Inr:
  assumes "golibs_ok G"
  shows "NewProfileID G s = Inr t \<longleftrightarrow> t = s \<and> valid_profile_id s"
proof -
  have "v_equal G ''profile id length'' (int (length s)) (int ProfileIDLen) = None
      \<longleftrightarrow> length s = ProfileIDLen"
    using golibs_okD [OF assms] by simp
  moreover have "hostname_label G s = None \<longleftrightarrow> valid_label s"
    using netutil_simps(1) [OF golibs_okD(3) [OF assms]] .
  moreover have "valid_label s \<Longrightarrow> bad_printable 0 s = None"
    using alnum_printable by (auto simp: bad_printable_None valid_label_def)
  ultimately show ?thesis
    by (cases "v_equal G ''profile id length'' (int (length s)) (int ProfileIDLen)";
        cases "hostname_label G s"; cases "bad_printable 0 s")
      (auto simp: NewProfileID_def valid_profile_id_def)
qed

lemma NewDeviceType_Inr: "NewDeviceType s = Inr t \<longleftrightarrow> t = s \<and> s \<in> set deviceTypes"
  by (auto simp: NewDeviceType_def)

lemma deviceTypes_label: "s \<in> set deviceTypes \<Longrightarrow> valid_label s \<and> length s = DeviceTypeLen"
  by (auto simp: deviceTypes_def valid_label_def DeviceTypeLen_def alnum_def Let_def)

lemma valid_fqdn_id:
  assumes "golibs_ok G" "valid_human_id t"
  shows "fqdnToHumanID G t = Inr t" "fqdnToHumanID G (t @ [dot]) = Inr t"
proof -
  have d: "dot \<notin> set t" and l: "1 \<le> length t" "length t \<le> maxHumanIDLen"
    using assms(2) valid_label_no_dot by (auto simp: valid_human_id_def valid_label_def)
  have n: "v_no_less_than G ''domain'' (int (length t)) (int minHumanIDLen) = None"
    using golibs_okD(2) [OF assms(1)] l by (simp add: minHumanIDLen_def)
  have "newHumanID G t = Inr t" using newHumanID_Inr [OF assms(1)] assms(2) by blast
  then show "fqdnToHumanID G t = Inr t" "fqdnToHumanID G (t @ [dot]) = Inr t"
    using d l n trim_suffix_not_dot [OF d] trim_suffix_dot_last [of t] replace_char_id [OF d]
    by (simp_all add: fqdnToHumanID_def)
qed

section \<open>Properties\<close>

text \<open>
  The constructors accept exactly the valid identifiers and return them unchanged: a human ID
  is a host-name label of at most 50 bytes with no three hyphens in a row, a profile ID a label of
  8 bytes, so the check of printable characters never decides alone.
\<close>

lemma constructors_accept:
  assumes "golibs_ok G"
  shows "(newHumanID G s = Inr t \<longleftrightarrow> t = s \<and> length s \<le> 50 \<and> valid_label s \<and> \<not> sublist ''---'' s) \<and>
    (NewProfileID G s = Inr t \<longleftrightarrow> t = s \<and> length s = 8 \<and> valid_label s)"
  using newHumanID_Inr [OF assms] NewProfileID_Inr [OF assms]
  by (auto simp: valid_human_id_def valid_profile_id_def human_id_consts)

lemma constructors_accept_witness:
  "newHumanID ref_golibs ''my-pc--1'' = Inr ''my-pc--1'' \<and> newHumanID ref_golibs ''my---pc'' \<noteq> Inr ''my---pc''"
proof -
  have "length ''my-pc--1'' \<le> 50 \<and> valid_label ''my-pc--1''" by code_simp
  moreover have "\<not> sublist ''---'' ''my-pc--1''" "sublist ''---'' ''my---pc''" by code_simp+
  ultimately show ?thesis
    using constructors_accept [OF ref_golibs_ok, of "''my-pc--1''" "''my-pc--1''"]
      constructors_accept [OF ref_golibs_ok, of "''my---pc''" "''my---pc''"] by blast
qed

text \<open>
  C25: The identifier made of a host name is always valid, and the conversion is a projection: a
  valid identifier, with or without the final dot of an FQDN, is converted to itself.
\<close>

lemma fqdnToHumanID_projection:
  assumes "golibs_ok G" "fqdnToHumanID G fqdn = Inr t"
  shows "valid_human_id t \<and> fqdnToHumanID G t = Inr t \<and> fqdnToHumanID G (t @ [dot]) = Inr t"
  using fqdnToHumanID_Inr [OF assms(1,2)] valid_fqdn_id [OF assms(1)] by blast

lemma fqdnToHumanID_projection_witness:
  "fqdnToHumanID ref_golibs ''my-pc-lan.'' = Inr ''my-pc-lan''"
proof -
  have "fqdnToHumanID ref_golibs ''my-pc.lan.'' = Inr ''my-pc-lan''" by code_simp
  then show ?thesis using fqdnToHumanID_projection [OF ref_golibs_ok] by fastforce
qed

end
