(* ===== verification/Netip.thy ===== *)
theory Netip
  imports GoStrings "HOL-Library.Word" "HOL-Library.Product_Lexorder"
begin

text \<open>
  The part of the standard library's \<open>net/netip\<close> that the program uses.  An address is the
  zero \<open>Addr\<close>, an IPv4 address or an IPv6 address with its zone; a prefix is the zero
  \<open>Prefix\<close> or an address with a number of bits (\<open>PrefixFrom\<close> and \<open>ParsePrefix\<close> drop the
  zone).  Classification follows \<open>Addr\<close>'s methods, which look through IPv4-mapped IPv6
  addresses; \<open>Prefix.Compare\<close> sorts by family, masked address, length, address.
\<close>

section \<open>Addresses\<close>

datatype addr = AZero | A4 "32 word" | A6 "128 word" string

fun is4 :: "addr \<Rightarrow> bool" where
  "is4 (A4 _) = True"
| "is4 _ = False"

fun is4in6 :: "addr \<Rightarrow> bool" where
  "is4in6 (A6 w z) = (drop_bit 32 w = 0xFFFF)"
| "is4in6 _ = False"

fun unmap :: "addr \<Rightarrow> addr" where
  "unmap (A6 w z) = (if is4in6 (A6 w z) then A4 (ucast w) else A6 w z)"
| "unmap a = a"

fun has_zone :: "addr \<Rightarrow> bool" where
  "has_zone (A6 _ z) = (z \<noteq> [])"
| "has_zone _ = False"

lemma unmap_idem [simp]: "unmap (unmap a) = unmap a"
  by (cases a) auto

lemma unmap_not4in6: "\<not> is4in6 (unmap a)"
  by (cases a) auto

definition ipv4 :: "nat \<Rightarrow> nat \<Rightarrow> nat \<Rightarrow> nat \<Rightarrow> 32 word" where
  "ipv4 a b c d = of_nat (((a * 256 + b) * 256 + c) * 256 + d)"

definition is_private :: "addr \<Rightarrow> bool" where
  "is_private a = (case unmap a of
     AZero \<Rightarrow> False
   | A4 w \<Rightarrow> drop_bit 24 w = 10 \<or> drop_bit 20 w = 0xAC1 \<or> drop_bit 16 w = 0xC0A8
   | A6 w z \<Rightarrow> drop_bit 121 w = 0x7E)"

definition is_loopback :: "addr \<Rightarrow> bool" where
  "is_loopback a = (case unmap a of
     AZero \<Rightarrow> False
   | A4 w \<Rightarrow> drop_bit 24 w = 127
   | A6 w z \<Rightarrow> w = 1)"

definition is_multicast :: "addr \<Rightarrow> bool" where
  "is_multicast a = (case unmap a of
     AZero \<Rightarrow> False
   | A4 w \<Rightarrow> drop_bit 28 w = 0xE
   | A6 w z \<Rightarrow> drop_bit 120 w = 0xFF)"

definition is_link_local_unicast :: "addr \<Rightarrow> bool" where
  "is_link_local_unicast a = (case unmap a of
     AZero \<Rightarrow> False
   | A4 w \<Rightarrow> drop_bit 16 w = 0xA9FE
   | A6 w z \<Rightarrow> drop_bit 118 w = 0x3FA)"

definition is_global_unicast :: "addr \<Rightarrow> bool" where
  "is_global_unicast a = (let a = unmap a in
     a \<noteq> AZero \<and> a \<noteq> A4 0 \<and> a \<noteq> A4 0xFFFFFFFF \<and> a \<noteq> A6 0 [] \<and>
     \<not> is_loopback a \<and> \<not> is_multicast a \<and> \<not> is_link_local_unicast a)"

lemmas addr_class_defs =
  is_private_def is_loopback_def is_multicast_def is_link_local_unicast_def is_global_unicast_def

lemma drop_bit_step: "m \<le> n \<Longrightarrow> drop_bit n (w :: 'a::len word) = drop_bit (n - m) (drop_bit m w)"
  by simp

text \<open>A private address is a global unicast one, and never a loopback one.\<close>

lemma private_global_unicast: "is_private a \<Longrightarrow> is_global_unicast a"
proof (cases "unmap a")
  case (A4 w)
  assume *: "is_private a"
  have 1: "drop_bit 28 w = drop_bit 4 (drop_bit 24 w)" "drop_bit 28 w = drop_bit 8 (drop_bit 20 w)"
    "drop_bit 28 w = drop_bit 12 (drop_bit 16 w)" "drop_bit 24 w = drop_bit 4 (drop_bit 20 w)"
    "drop_bit 24 w = drop_bit 8 (drop_bit 16 w)" "drop_bit 20 w = drop_bit 4 (drop_bit 16 w)"
    by simp_all
  from * A4 show ?thesis
    by (auto simp: addr_class_defs Let_def 1 simp del: drop_bit_drop_bit)
next
  case (A6 w z)
  assume *: "is_private a"
  have "drop_bit 120 w \<noteq> 255" if "drop_bit 121 w = 126"
  proof
    assume "drop_bit 120 w = 255"
    then have "drop_bit 1 (drop_bit 120 w) = drop_bit 1 255" by (simp only:)
    with that show False by simp
  qed
  moreover have "drop_bit 118 w \<noteq> 1018" if "drop_bit 121 w = 126"
  proof
    assume "drop_bit 118 w = 1018"
    then have "drop_bit 3 (drop_bit 118 w) = drop_bit 3 1018" by (simp only:)
    with that show False by simp
  qed
  moreover have "unmap (A6 w z) = A6 w z" using A6 by (metis unmap_idem)
  ultimately show ?thesis using * A6
    by (auto simp: addr_class_defs Let_def simp del: unmap.simps)
qed (simp add: is_private_def)

text \<open>\<open>Addr.Compare\<close>: by length, then value, then zone.\<close>

fun addr_rank :: "addr \<Rightarrow> nat \<times> nat \<times> string" where
  "addr_rank AZero = (0, 0, [])"
| "addr_rank (A4 w) = (32, unat w, [])"
| "addr_rank (A6 w z) = (128, unat w, z)"

lemma addr_rank_inj [simp]: "addr_rank a = addr_rank b \<longleftrightarrow> a = b"
  by (cases a; cases b) (auto simp: word_unat_eq_iff)

instantiation addr :: linorder
begin

definition less_eq_addr :: "addr \<Rightarrow> addr \<Rightarrow> bool" where
  "a \<le> b \<longleftrightarrow> addr_rank a \<le> addr_rank b"

definition less_addr :: "addr \<Rightarrow> addr \<Rightarrow> bool" where
  "a < b \<longleftrightarrow> addr_rank a < addr_rank b"

instance
  by standard (auto simp: less_eq_addr_def less_addr_def simp flip: addr_rank_inj)

end

section \<open>Prefixes\<close>

datatype prefix = PZero | P4 "32 word" nat | P6 "128 word" nat

fun pfx_wf :: "prefix \<Rightarrow> bool" where
  "pfx_wf PZero = True"
| "pfx_wf (P4 _ n) = (n \<le> 32)"
| "pfx_wf (P6 _ n) = (n \<le> 128)"

fun pfx_addr :: "prefix \<Rightarrow> addr" where
  "pfx_addr PZero = AZero"
| "pfx_addr (P4 w _) = A4 w"
| "pfx_addr (P6 w _) = A6 w []"

fun pfx_bits :: "prefix \<Rightarrow> int" where
  "pfx_bits PZero = -1"
| "pfx_bits (P4 _ n) = int n"
| "pfx_bits (P6 _ n) = int n"

fun masked :: "prefix \<Rightarrow> prefix" where
  "masked PZero = PZero"
| "masked (P4 w n) = P4 (push_bit (32 - n) (drop_bit (32 - n) w)) n"
| "masked (P6 w n) = P6 (push_bit (128 - n) (drop_bit (128 - n) w)) n"

fun pfx_contains :: "prefix \<Rightarrow> addr \<Rightarrow> bool" where
  "pfx_contains (P4 w n) (A4 a) = (drop_bit (32 - n) a = drop_bit (32 - n) w)"
| "pfx_contains (P6 w n) (A6 a z) = (z = [] \<and> drop_bit (128 - n) a = drop_bit (128 - n) w)"
| "pfx_contains _ _ = False"

fun is_single_ip :: "prefix \<Rightarrow> bool" where
  "is_single_ip PZero = False"
| "is_single_ip (P4 _ n) = (n = 32)"
| "is_single_ip (P6 _ n) = (n = 128)"

definition prefix_compare :: "prefix \<Rightarrow> prefix \<Rightarrow> int" where
  "prefix_compare p q =
     (let c = go_cmp (pfx_addr (masked p)) (pfx_addr (masked q)) in
      if c \<noteq> 0 then c
      else let c = go_cmp (pfx_bits p) (pfx_bits q) in
        if c \<noteq> 0 then c else go_cmp (pfx_addr p) (pfx_addr q))"

definition pfx_key :: "prefix \<Rightarrow> addr \<times> int \<times> addr" where
  "pfx_key p = (pfx_addr (masked p), pfx_bits p, pfx_addr p)"

lemma prefix_compare_key: "prefix_compare p q = go_cmp (pfx_key p) (pfx_key q)"
  by (auto simp: prefix_compare_def pfx_key_def go_cmp_def Let_def)

lemma pfx_key_inj [simp]: "pfx_key p = pfx_key q \<longleftrightarrow> p = q"
  by (cases p; cases q) (auto simp: pfx_key_def)

text \<open>
  Two prefixes with no address in common: of different families, or different in the bits that
  both fix.
\<close>

fun pfx_disjoint :: "prefix \<Rightarrow> prefix \<Rightarrow> bool" where
  "pfx_disjoint (P4 v n) (P4 w m) = (drop_bit (32 - min n m) v \<noteq> drop_bit (32 - min n m) w)"
| "pfx_disjoint (P6 v n) (P6 w m) = (drop_bit (128 - min n m) v \<noteq> drop_bit (128 - min n m) w)"
| "pfx_disjoint _ _ = True"

lemma drop_bit_eq_mono:
  "drop_bit n (v :: 'a::len word) = drop_bit n w \<Longrightarrow> n \<le> m \<Longrightarrow> drop_bit m v = drop_bit m w"
  by (metis drop_bit_step)

lemma pfx_disjoint_contains: "pfx_disjoint p q \<Longrightarrow> pfx_contains p a \<Longrightarrow> \<not> pfx_contains q a"
proof (cases p; cases q; cases a)
  fix v n w m b
  assume *: "pfx_disjoint p q" "pfx_contains p a" and eqs: "p = P4 v n" "q = P4 w m" "a = A4 b"
  then show ?thesis
    using drop_bit_eq_mono [of "32 - n" b v "32 - min n m"]
      drop_bit_eq_mono [of "32 - m" b w "32 - min n m"] by (auto simp: diff_le_mono2)
next
  fix v n w m b z
  assume *: "pfx_disjoint p q" "pfx_contains p a" and eqs: "p = P6 v n" "q = P6 w m" "a = A6 b z"
  then show ?thesis
    using drop_bit_eq_mono [of "128 - n" b v "128 - min n m"]
      drop_bit_eq_mono [of "128 - m" b w "128 - min n m"] by (auto simp: diff_le_mono2)
qed auto

section \<open>Strings\<close>

definition digit :: "nat \<Rightarrow> char" where
  "digit n = char_of (if n < 10 then 48 + n else 87 + n)"

fun dec :: "nat \<Rightarrow> string" where
  "dec n = (if n < 10 then [digit n] else dec (n div 10) @ [digit (n mod 10)])"

declare dec.simps [simp del]

definition hex4 :: "nat \<Rightarrow> string" where
  "hex4 n = [digit (n div 4096 mod 16), digit (n div 256 mod 16), digit (n div 16 mod 16),
     digit (n mod 16)]"

definition octet :: "nat \<Rightarrow> 32 word \<Rightarrow> nat" where
  "octet i w = unat (take_bit 8 (drop_bit (8 * i) w))"

definition group16 :: "nat \<Rightarrow> 128 word \<Rightarrow> nat" where
  "group16 i w = unat (take_bit 16 (drop_bit (16 * i) w))"

text \<open>\<open>Addr.StringExpanded\<close>.\<close>

fun string_expanded :: "addr \<Rightarrow> string" where
  "string_expanded AZero = ''invalid IP''"
| "string_expanded (A4 w) = join_with dot (map (\<lambda>i. dec (octet i w)) [3, 2, 1, 0])"
| "string_expanded (A6 w z) =
     join_with (CHR '':'') (map (\<lambda>i. hex4 (group16 i w)) [7, 6, 5, 4, 3, 2, 1, 0])
       @ (if z = [] then [] else CHR ''%'' # z)"

end
