(* ===== verification/HumanIdSource.thy ===== *)
theory HumanIdSource
  imports HumanId Netip
begin

text \<open>
  \<open>internal/client/humanidsource.go\<close>: the interface of the sources that name a client by its
  address, its stateless implementations and the filter of identifiable addresses.  A source's
  \<open>Identify\<close> takes the address, the clock's value and the state of the sources, and returns
  the result with the new state.  The interface is the locale \<open>human_id_source\<close>; the source
  that asks reverse DNS is in \<^theory_text>\<open>RdnsSource\<close>.
\<close>

section \<open>The interface\<close>

record vhid =
  Until :: int
  ID :: human_id

type_synonym 's identify_fn = "addr \<Rightarrow> int \<Rightarrow> 's \<Rightarrow> (goerr + vhid) \<times> 's"

text \<open>
  The addresses a source is asked about: valid, unmapped, with no zone.  \<open>src_inv\<close> is what the
  source keeps of its own state.
\<close>

definition plain_addr :: "addr \<Rightarrow> bool" where
  "plain_addr a = (a \<noteq> AZero \<and> \<not> is4in6 a \<and> \<not> has_zone a)"

locale human_id_source =
  fixes identify :: "'s identify_fn" and src_inv :: "'s \<Rightarrow> bool"
  assumes inv_identify: "src_inv s \<Longrightarrow> src_inv (snd (identify a now s))"
    and identify_valid: "src_inv s \<Longrightarrow> plain_addr a \<Longrightarrow> identify a now s = (Inr v, s') \<Longrightarrow> valid_human_id (ID v)"

section \<open>The sources\<close>

text \<open>\<open>EmptyHumanIDSource.Identify\<close>.\<close>

definition empty_identify :: "'s identify_fn" where
  "empty_identify a now s = (Inl ErrNoValue, s)"

text \<open>\<open>DefaultHumanIDSource\<close>, without its clock, whose value is an argument of \<open>Identify\<close>.\<close>

record default_source_conf =
  hc_ValidityIvl :: int

record default_source =
  hs_validityIvl :: int

definition NewDefaultHumanIDSource :: "default_source_conf \<Rightarrow> default_source" where
  "NewDefaultHumanIDSource conf = \<lparr>hs_validityIvl = hc_ValidityIvl conf\<rparr>"

text \<open>\<open>DefaultHumanIDSource.Identify\<close>: the name of an address, valid for \<open>validityIvl\<close>.\<close>

definition default_human_id :: "addr \<Rightarrow> human_id" where
  "default_human_id addr =
     (let addr = unmap addr;
          hostname = string_expanded addr;
          hostname = (if is4 addr then replace_char dot hyphen hostname
                      else replace_char (CHR '':'') hyphen hostname)
      in ''dev-'' @ hostname)"

definition default_identify :: "int \<Rightarrow> 's identify_fn" where
  "default_identify validityIvl addr now s =
     (Inr \<lparr>Until = now + validityIvl, ID = default_human_id addr\<rparr>, s)"

text \<open>\<open>ConsequentHumanIDSource.Identify\<close>: the first source that does not fail.\<close>

fun consequent_identify :: "'s identify_fn list \<Rightarrow> 's identify_fn" where
  "consequent_identify [] addr now s = (Inl ErrNoValue, s)"
| "consequent_identify (src # srcs) addr now s =
     (case src addr now s of
        (Inl err, s') \<Rightarrow> consequent_identify srcs addr now s'
      | (Inr hid, s') \<Rightarrow> (Inr hid, s'))"

definition IsIdentifiable :: "addr \<Rightarrow> bool" where
  "IsIdentifiable addr = (is_private addr \<and> \<not> is_loopback addr \<or> is_global_unicast addr)"

section \<open>The names of the default source\<close>

lemma digit_of_char_dec: "n < 10 \<Longrightarrow> (of_char (digit n) :: nat) = 48 + n"
  by (simp only: digit_def if_True of_char_of) simp

lemma digit_of_char_hex: "\<not> n < 10 \<Longrightarrow> n < 16 \<Longrightarrow> (of_char (digit n) :: nat) = 87 + n"
  by (simp only: digit_def if_False of_char_of) simp

lemma digit_of_char: "n < 16 \<Longrightarrow> (of_char (digit n) :: nat) = (if n < 10 then 48 + n else 87 + n)"
  using digit_of_char_dec digit_of_char_hex by auto

lemma digit_eq [simp]: "m < 16 \<Longrightarrow> n < 16 \<Longrightarrow> digit m = digit n \<longleftrightarrow> m = n"
proof
  assume "m < 16" "n < 16" "digit m = digit n"
  then have "(if m < 10 then 48 + m else 87 + m) = (if n < 10 then 48 + n else 87 + n)"
    by (metis digit_of_char)
  with \<open>m < 16\<close> \<open>n < 16\<close> show "m = n" by (simp split: if_splits)
qed simp

lemma alnum_digit [simp]: "n < 16 \<Longrightarrow> alnum (digit n)"
  by (auto simp: alnum_def Let_def digit_of_char)

lemma dec_ne [simp]: "dec n \<noteq> []"
  by (subst dec.simps) simp

lemma alnum_dec: "c \<in> set (dec n) \<Longrightarrow> alnum c"
proof (induction n rule: dec.induct)
  case (1 n)
  then show ?case by (cases "n < 10") (auto simp: dec.simps [of n])
qed

lemma length_dec: "n < 1000 \<Longrightarrow> length (dec n) \<le> 3"
  by (simp add: dec.simps [of n] dec.simps [of "n div 10"] dec.simps [of "n div 10 div 10"])

lemma dec_inj: "dec m = dec n \<Longrightarrow> m = n"
proof (induction m arbitrary: n rule: dec.induct)
  case (1 m)
  show ?case
  proof (cases "m < 10 \<or> n < 10")
    case True
    then show ?thesis using "1.prems"
      by (auto simp: dec.simps [of m] dec.simps [of n] append_eq_Cons_conv Cons_eq_append_conv
          split: if_splits)
  next
    case False
    then have *: "dec (m div 10) = dec (n div 10)" "m mod 10 = n mod 10"
      using "1.prems" by (auto simp: dec.simps [of m] dec.simps [of n])
    then have "m div 10 = n div 10" using "1.IH" False by simp
    with * show ?thesis by (metis div_mult_mod_eq)
  qed
qed

lemma length_hex4 [simp]: "length (hex4 n) = 4"
  by (simp add: hex4_def)

lemma alnum_hex4: "c \<in> set (hex4 n) \<Longrightarrow> alnum c"
  by (auto simp: hex4_def)

lemma div_mod_16: "m div 16 = n div 16 \<Longrightarrow> m mod 16 = n mod 16 \<Longrightarrow> m = (n :: nat)"
  by (metis div_mult_mod_eq)

lemma hex4_inj:
  assumes "m < 65536" "n < 65536" "hex4 m = hex4 n"
  shows "m = n"
proof -
  have *: "m div 4096 mod 16 = n div 4096 mod 16" "m div 256 mod 16 = n div 256 mod 16"
    "m div 16 mod 16 = n div 16 mod 16" "m mod 16 = n mod 16"
    using assms(3) by (simp_all add: hex4_def)
  have "m div 4096 < 16" "n div 4096 < 16" using assms by (simp_all add: less_mult_imp_div_less)
  then have "m div 4096 = n div 4096" using *(1) by simp
  then have "m div 256 div 16 = n div 256 div 16" by (simp flip: div_mult2_eq)
  then have "m div 256 = n div 256" using *(2) by (rule div_mod_16)
  then have "m div 16 div 16 = n div 16 div 16" by (simp flip: div_mult2_eq)
  then have "m div 16 = n div 16" using *(3) by (rule div_mod_16)
  then show "m = n" using *(4) by (rule div_mod_16)
qed

lemma octet_less [simp]: "octet i w < 256"
  using take_bit_nat_less_exp [of 8 "unat (drop_bit (8 * i) w)"]
  by (simp add: octet_def unsigned_take_bit_eq)

lemma group16_less [simp]: "group16 i w < 65536"
  using take_bit_nat_less_exp [of 16 "unat (drop_bit (16 * i) w)"]
  by (simp add: group16_def unsigned_take_bit_eq)

text \<open>The words are determined by their octets and groups.\<close>

lemma word_eq_by_chunks:
  fixes v w :: "'a::len word"
  assumes "0 < k" "\<And>i. i < m \<Longrightarrow> take_bit k (drop_bit (k * i) v) = take_bit k (drop_bit (k * i) w)"
    "LENGTH('a) \<le> k * m"
  shows "v = w"
proof (rule bit_word_eqI)
  fix n assume n: "n < LENGTH('a)"
  define i where "i = n div k"
  have "n < k * m" using n assms(3) by linarith
  then have "i < m" using assms(1) by (simp add: i_def less_mult_imp_div_less mult.commute)
  then have "bit (take_bit k (drop_bit (k * i) v)) (n mod k) = bit (take_bit k (drop_bit (k * i) w)) (n mod k)"
    using assms(2) by simp
  moreover have "k * i + n mod k = n" by (simp add: i_def)
  ultimately show "bit v n = bit w n"
    using assms(1) by (simp add: bit_take_bit_iff bit_drop_bit_eq)
qed

lemma octets_inj: "map (\<lambda>i. octet i v) [3, 2, 1, 0] = map (\<lambda>i. octet i w) [3, 2, 1, 0] \<Longrightarrow> v = w"
proof (rule word_eq_by_chunks [of 8 4])
  fix i :: nat assume "i < 4" and *: "map (\<lambda>i. octet i v) [3, 2, 1, 0] = map (\<lambda>i. octet i w) [3, 2, 1, 0]"
  then have "i = 0 \<or> i = 1 \<or> i = 2 \<or> i = 3" by linarith
  then show "take_bit 8 (drop_bit (8 * i) v) = take_bit 8 (drop_bit (8 * i) w)"
    using * by (auto simp: octet_def word_unat_eq_iff)
qed simp_all

lemma groups_inj:
  "map (\<lambda>i. group16 i v) [7, 6, 5, 4, 3, 2, 1, 0] = map (\<lambda>i. group16 i w) [7, 6, 5, 4, 3, 2, 1, 0] \<Longrightarrow> v = w"
proof (rule word_eq_by_chunks [of 16 8])
  fix i :: nat assume "i < 8"
    and *: "map (\<lambda>i. group16 i v) [7, 6, 5, 4, 3, 2, 1, 0] = map (\<lambda>i. group16 i w) [7, 6, 5, 4, 3, 2, 1, 0]"
  then have "i = 0 \<or> i = 1 \<or> i = 2 \<or> i = 3 \<or> i = 4 \<or> i = 5 \<or> i = 6 \<or> i = 7" by linarith
  then show "take_bit 16 (drop_bit (16 * i) v) = take_bit 16 (drop_bit (16 * i) w)"
    using * by (auto simp: group16_def word_unat_eq_iff)
qed simp_all

text \<open>The name of a plain address is the join of alphanumeric labels.\<close>

lemma replace_char_join:
  "\<forall>l \<in> set ls. a \<notin> set l \<Longrightarrow> replace_char a b (join_with a ls) = join_with b ls"
proof (induction a ls rule: join_with.induct)
  case (3 a l l' ls)
  then show ?case by (simp add: replace_char_id) (simp add: replace_char_def)
qed (simp add: replace_char_def, simp add: replace_char_id)

fun addr_labels :: "addr \<Rightarrow> string list" where
  "addr_labels AZero = []"
| "addr_labels (A4 w) = map (\<lambda>i. dec (octet i w)) [3, 2, 1, 0]"
| "addr_labels (A6 w z) = map (\<lambda>i. hex4 (group16 i w)) [7, 6, 5, 4, 3, 2, 1, 0]"

lemma plain_unmap: "plain_addr a \<Longrightarrow> unmap a = a"
  by (cases a) (auto simp: plain_addr_def)

lemma not_alnum_sep: "\<not> alnum dot" "\<not> alnum (CHR '':'')" "\<not> alnum hyphen"
  by (simp_all add: alnum_def)

lemma addr_labels_alnum: "l \<in> set (addr_labels a) \<Longrightarrow> l \<noteq> [] \<and> (\<forall>c \<in> set l. alnum c)"
  using alnum_dec alnum_hex4 length_hex4 by (cases a) (auto simp del: length_hex4, (metis list.size(3) numeral_neq_zero)+)

lemma default_human_id_join:
  assumes "plain_addr a"
  shows "default_human_id a = join_with hyphen (''dev'' # addr_labels a)"
proof (cases a)
  case (A4 w)
  have "\<forall>l \<in> set (addr_labels a). dot \<notin> set l"
    using addr_labels_alnum [of _ a] not_alnum_sep(1) by blast
  then show ?thesis
    using A4 plain_unmap [OF assms] replace_char_join [of "addr_labels a" dot hyphen]
    by (simp add: default_human_id_def Let_def)
next
  case (A6 w z)
  have "\<forall>l \<in> set (addr_labels a). CHR '':'' \<notin> set l"
    using addr_labels_alnum [of _ a] not_alnum_sep(2) by blast
  then show ?thesis
    using A6 assms plain_unmap [OF assms] replace_char_join [of "addr_labels a" "CHR '':''" hyphen]
    by (simp add: default_human_id_def Let_def plain_addr_def)
qed (use assms in \<open>simp add: plain_addr_def\<close>)

lemma set_join_with: "set (join_with c ls) \<subseteq> insert c (\<Union>l \<in> set ls. set l)"
  by (induction c ls rule: join_with.induct) auto

lemma hd_join_with: "l \<noteq> [] \<Longrightarrow> hd (join_with c (l # ls)) = hd l"
  by (cases ls) auto

lemma last_join_with: "ls \<noteq> [] \<Longrightarrow> last ls \<noteq> [] \<Longrightarrow> last (join_with c ls) = last (last ls)"
proof (induction c ls rule: join_with.induct)
  case (3 c l l' ls)
  have "join_with c (l' # ls) \<noteq> []" using "3.prems" by (cases ls) auto
  with 3 show ?case by simp
qed auto

lemma sublist_split_on:
  assumes "sublist [c, c] s"
  shows "[] \<in> set (split_on c s)"
proof -
  obtain p q where "s = p @ c # c # q" using assms by (auto simp: sublist_def)
  then show ?thesis by (simp add: split_on_append)
qed

lemma joined_label_valid:
  assumes "ls \<noteq> []" "\<forall>l \<in> set ls. l \<noteq> [] \<and> (\<forall>c \<in> set l. alnum c)" "s = join_with hyphen ls"
    "length s \<le> maxHumanIDLen"
  shows "valid_human_id s"
proof -
  obtain l ls' where ls: "ls = l # ls'" using assms(1) by (cases ls) auto
  have "hd s = hd l" "alnum (hd l)" using assms(2,3) ls by (auto simp: hd_join_with)
  moreover have "last ls \<noteq> [] \<and> (\<forall>c \<in> set (last ls). alnum c)"
    using assms(1,2) last_in_set by blast
  then have "last s = last (last ls)" "alnum (last (last ls))"
    using assms(1,3) last_in_set [of "last ls"] by (auto simp: last_join_with)
  moreover have "s \<noteq> []" using assms(2,3) ls by (cases ls') auto
  then have "1 \<le> length s" by (cases s) auto
  moreover have "\<forall>c \<in> set s. alnum c \<or> c = hyphen"
    using assms(2,3) set_join_with [of hyphen ls] by blast
  moreover have "\<not> sublist ''---'' s"
  proof
    assume "sublist ''---'' s"
    then obtain p q where "s = p @ ''---'' @ q" by (auto simp: sublist_def)
    then have "s = p @ [hyphen, hyphen] @ hyphen # q" by simp
    then have "sublist [hyphen, hyphen] s" unfolding sublist_def by blast
    then have "[] \<in> set (split_on hyphen s)" by (rule sublist_split_on)
    moreover have "split_on hyphen s = ls"
      using assms(1,2,3) not_alnum_sep(3) by (auto intro!: split_join)
    ultimately show False using assms(2) by auto
  qed
  ultimately show ?thesis
    using assms(4) by (simp add: valid_human_id_def valid_label_def human_id_consts)
qed

lemma length_dec_octet: "length (dec (octet i w)) \<le> 3"
  by (rule length_dec) (rule less_trans [OF octet_less], simp)

lemma default_human_id_length: "plain_addr a \<Longrightarrow> length (default_human_id a) \<le> 43"
proof (cases a)
  case (A4 w)
  assume "plain_addr a"
  then show ?thesis
    using A4 length_dec_octet [of 0 w] length_dec_octet [of 1 w] length_dec_octet [of 2 w]
      length_dec_octet [of 3 w] by (simp add: default_human_id_join)
qed (simp_all add: default_human_id_join plain_addr_def)

lemma default_human_id_valid: "plain_addr a \<Longrightarrow> valid_human_id (default_human_id a)"
  using default_human_id_length [of a] addr_labels_alnum [of _ a]
  by (intro joined_label_valid [where ls = "''dev'' # addr_labels a"])
    (auto simp: default_human_id_join human_id_consts alnum_def Let_def)

lemma default_human_id_inj:
  assumes "plain_addr a" "plain_addr b" "default_human_id a = default_human_id b"
  shows "a = b"
proof -
  have "split_on hyphen (default_human_id c) = ''dev'' # addr_labels c" if "plain_addr c" for c
    unfolding default_human_id_join [OF that]
    using addr_labels_alnum [of _ c] not_alnum_sep(3) by (intro split_join) auto
  then have *: "addr_labels a = addr_labels b" using assms by (metis list.inject)
  show ?thesis
  proof (cases a; cases b)
    fix v w assume "a = A4 v" "b = A4 w"
    with * show ?thesis using octets_inj [of v w] by (auto dest: dec_inj)
  next
    fix v y w z assume "a = A6 v y" "b = A6 w z"
    with * assms show ?thesis using groups_inj [of v w]
      by (auto simp: plain_addr_def dest: hex4_inj [OF group16_less group16_less])
  qed (use * assms in \<open>auto simp: plain_addr_def\<close>)
qed

section \<open>The interface on the stateless sources\<close>

interpretation empty_src: human_id_source empty_identify src_inv for src_inv
  by unfold_locales (auto simp: empty_identify_def)

interpretation default_src: human_id_source "default_identify ivl" src_inv for ivl src_inv
  by unfold_locales (auto simp: default_identify_def default_human_id_valid)

text \<open>A sequence of sources that keep the same invariant is a source.\<close>

lemma consequent_source:
  assumes "\<forall>src \<in> set srcs. human_id_source src src_inv"
  shows "human_id_source (consequent_identify srcs) src_inv"
proof
  show "src_inv (snd (consequent_identify srcs a now s))" if "src_inv s" for s a now
    using assms that
  proof (induction srcs arbitrary: s)
    case (Cons src srcs)
    then have "src_inv (snd (src a now s))" by (auto intro: human_id_source.inv_identify)
    with Cons show ?case by (auto split: prod.splits sum.splits)
  qed simp
  show "valid_human_id (ID v)" if "src_inv s" "plain_addr a" "consequent_identify srcs a now s = (Inr v, s')"
    for s a now v s'
    using assms that
  proof (induction srcs arbitrary: s)
    case (Cons src srcs)
    then have "src_inv (snd (src a now s))" by (auto intro: human_id_source.inv_identify)
    with Cons show ?case
      by (auto split: prod.splits sum.splits dest: human_id_source.identify_valid)
  qed simp
qed

section \<open>Properties\<close>

text \<open>
  The default source names every plain address, by a valid identifier that no other plain
  address gets, until the end of the validity interval.
\<close>

lemma default_identify_spec:
  assumes "plain_addr a" "plain_addr b"
  shows "(\<exists>v. default_identify ivl a now s = (Inr v, s) \<and> valid_human_id (ID v) \<and> Until v = now + ivl) \<and>
    (map_sum id ID (fst (default_identify ivl a now s)) = map_sum id ID (fst (default_identify ivl b t r)) \<longrightarrow> a = b)"
  using default_human_id_valid [OF assms(1)] default_human_id_inj [OF assms]
  by (simp add: default_identify_def)

lemma default_identify_spec_witness:
  "\<exists>v. default_identify 60 (A4 0xC0A80001) 0 () = (Inr v, ()) \<and> Until v = 60"
proof -
  have "plain_addr (A4 0xC0A80001)" by (simp add: plain_addr_def)
  from default_identify_spec [OF this this, where ivl = 60 and now = 0 and s = "()"] show ?thesis by auto
qed

text \<open>
  A sequence of sources answers with the first source that succeeds and fails with
  \<open>ErrNoValue\<close> if none does, and a sequence that ends with the default source never fails.
\<close>

lemma consequent_identify_total:
  "(case consequent_identify srcs a now s of (Inl err, _) \<Rightarrow> err = ErrNoValue | (Inr v, s') \<Rightarrow>
      \<exists>src \<in> set srcs. \<exists>r. src a now r = (Inr v, s')) \<and>
   (\<exists>v s'. consequent_identify (srcs @ [default_identify ivl]) a now s = (Inr v, s'))"
proof (induction srcs arbitrary: s)
  case Nil
  then show ?case by (simp add: default_identify_def)
next
  case (Cons src srcs)
  obtain r s1 where "src a now s = (r, s1)" by (metis surj_pair)
  with Cons [of s1] show ?case by (cases r) (auto split: prod.splits sum.splits)
qed

text \<open>
  The filter of identifiable addresses is exactly that of the global unicast ones: its first
  disjunct adds nothing, since a private address is a global unicast address.
\<close>

lemma IsIdentifiable_global: "IsIdentifiable addr \<longleftrightarrow> is_global_unicast addr"
  using private_global_unicast by (auto simp: IsIdentifiable_def)

end
