(* ===== verification/DomainOrder.thy ===== *)
theory DomainOrder
  imports Golibs
begin

text \<open>
  The order of configured domains in \<open>internal/client/defaultstorage.go\<close>: \<open>compareDomains\<close> and
  \<open>matchesDomain\<close>.  The loop of \<open>compareDomains\<close> is a recursive function with its measure; it is
  proved equal to the comparison of the label sequences from the right, and from there to be an
  order (the interface \<open>cmp_order\<close>) in which a domain comes before those it is a subdomain of.
\<close>

section \<open>The code\<close>

function compareDomains :: "string \<Rightarrow> string \<Rightarrow> int" where
  "compareDomains a b =
     (if a = [] then (if b = [] then 0 else 1)
      else if b = [] then -1
      else
        let aLastDot = last_index dot a;
            bLastDot = last_index dot b;
            aLabel = drop (nat (aLastDot + 1)) a;
            bLabel = drop (nat (bLastDot + 1)) b;
            res = go_cmp aLabel bLabel
        in if res \<noteq> 0 then res
           else compareDomains (take (nat (max 0 aLastDot)) a) (take (nat (max 0 bLastDot)) b))"
  by pat_completeness auto

termination
proof (relation "measure (\<lambda>(a, b). length a)")
  fix a b :: string and aLastDot bLastDot aLabel bLabel res
  assume "a \<noteq> []" "aLastDot = last_index dot a"
  then show "((take (nat (max 0 aLastDot)) a, take (nat (max 0 bLastDot)) b), a, b)
      \<in> measure (\<lambda>(a, b). length a)"
    using last_index_less [of dot a] by (cases a) auto
qed simp

declare compareDomains.simps [simp del]

definition matchesDomain :: "golibs \<Rightarrow> string \<Rightarrow> string \<Rightarrow> bool" where
  "matchesDomain G question configured =
     (configured = [] \<or> question = configured \<or> is_subdomain G question configured)"

section \<open>Comparison of labels\<close>

text \<open>The reference: labels from right to left, a longer name before its ancestors.\<close>

fun labels_cmp :: "string list \<Rightarrow> string list \<Rightarrow> int" where
  "labels_cmp [] [] = 0"
| "labels_cmp [] (_ # _) = 1"
| "labels_cmp (_ # _) [] = -1"
| "labels_cmp (x # xs) (y # ys) = (if x = y then labels_cmp xs ys else go_cmp x y)"

lemma labels_cmp_neg: "labels_cmp ys xs = - labels_cmp xs ys"
  by (induction xs ys rule: labels_cmp.induct) (auto simp: go_cmp_def)

lemma labels_cmp_0 [simp]: "labels_cmp xs ys = 0 \<longleftrightarrow> xs = ys"
  by (induction xs ys rule: labels_cmp.induct) (auto simp: go_cmp_def)

lemma labels_cmp_range: "labels_cmp xs ys \<in> {-1, 0, 1}"
  by (induction xs ys rule: labels_cmp.induct) (auto simp: go_cmp_def)

lemma labels_cmp_trans: "labels_cmp xs ys \<le> 0 \<Longrightarrow> labels_cmp ys zs \<le> 0 \<Longrightarrow> labels_cmp xs zs \<le> 0"
proof (induction xs ys arbitrary: zs rule: labels_cmp.induct)
  case (4 x xs y ys)
  then show ?case
    by (cases zs) (auto simp: go_cmp_def split: if_splits)
next
  case (2 y ys)
  then show ?case by (cases zs) auto
next
  case (3 x xs)
  then show ?case by (cases zs) auto
qed auto

lemma labels_cmp_prefix: "labels_cmp (xs @ ys) xs = (if ys = [] then 0 else -1)"
  by (induction xs) (cases ys; auto)+

lemma labels_more:
  assumes "dot \<notin> set l" "non_fqdn (p @ dot # l)"
  shows "labels (p @ dot # l) = labels p @ [l]" "non_fqdn p" "p \<noteq> []"
proof -
  have *: "split_on dot (p @ dot # l) = split_on dot p @ [l]"
    using assms(1) by (simp add: split_on_append split_on_notin)
  then show "p \<noteq> []" "non_fqdn p" using assms(2) by (auto simp: non_fqdn_def)
  then show "labels (p @ dot # l) = labels p @ [l]" using * by (simp add: labels_def)
qed

text \<open>One pass of the loop: the last label, and the name before it.\<close>

lemma last_step:
  assumes "non_fqdn a" "a \<noteq> []" "i = last_index dot a"
  shows "rev (labels a) = drop (nat (i + 1)) a # rev (labels (take (nat (max 0 i)) a))"
    and "non_fqdn (take (nat (max 0 i)) a)"
proof -
  have "rev (labels a) = drop (nat (i + 1)) a # rev (labels (take (nat (max 0 i)) a)) \<and>
      non_fqdn (take (nat (max 0 i)) a)"
  proof (cases a rule: last_label_cases)
    case single
    then have "i = -1" using last_index_notin [of dot a] assms by simp
    with single assms show ?thesis by (simp add: labels_def split_on_notin non_fqdn_def)
  next
    case (more p l)
    then have "i = int (length p)" using last_index_append [of dot l p] assms by simp
    moreover have "labels a = labels p @ [l]" "non_fqdn p"
      using more assms labels_more [of l p] by simp_all
    moreover have "nat (int (length p) + 1) = Suc (length p)" by simp
    ultimately show ?thesis using more by simp
  qed
  then show "rev (labels a) = drop (nat (i + 1)) a # rev (labels (take (nat (max 0 i)) a))"
    "non_fqdn (take (nat (max 0 i)) a)" by simp_all
qed

lemma labels_Nil [simp]: "labels [] = []" "labels d = [] \<longleftrightarrow> d = []"
  by (simp_all add: labels_def)

lemma compareDomains_eq_labels:
  "non_fqdn a \<Longrightarrow> non_fqdn b \<Longrightarrow> compareDomains a b = labels_cmp (rev (labels a)) (rev (labels b))"
proof (induction a b rule: compareDomains.induct)
  case (1 a b)
  consider "a = []" "b = []" | "a = []" "b \<noteq> []" | "a \<noteq> []" "b = []" | "a \<noteq> []" "b \<noteq> []" by blast
  then show ?case
  proof cases
    case 1
    then show ?thesis by (simp add: compareDomains.simps)
  next
    case 2
    then have "rev (labels b) \<noteq> []" by simp
    with 2 show ?thesis by (cases "rev (labels b)") (simp_all add: compareDomains.simps)
  next
    case 3
    then have "rev (labels a) \<noteq> []" by simp
    with 3 show ?thesis by (cases "rev (labels a)") (simp_all add: compareDomains.simps)
  next
    case 4
    let ?i = "last_index dot a" and ?j = "last_index dot b"
    note a = last_step [OF "1.prems"(1) 4(1) refl] and b = last_step [OF "1.prems"(2) 4(2) refl]
    show ?thesis
    proof (cases "drop (nat (?i + 1)) a = drop (nat (?j + 1)) b")
      case True
      then have "compareDomains a b = compareDomains (take (nat (max 0 ?i)) a) (take (nat (max 0 ?j)) b)"
        using 4 by (subst compareDomains.simps) (simp add: Let_def)
      also have "\<dots> = labels_cmp (rev (labels (take (nat (max 0 ?i)) a))) (rev (labels (take (nat (max 0 ?j)) b)))"
        using True a(2) b(2) 4 by (intro "1.IH") simp_all
      finally show ?thesis using True by (simp only: a(1) b(1) labels_cmp.simps if_True refl)
    next
      case False
      then have "compareDomains a b = go_cmp (drop (nat (?i + 1)) a) (drop (nat (?j + 1)) b)"
        using 4 by (subst compareDomains.simps) (simp add: Let_def)
      then show ?thesis using False by (simp only: a(1) b(1) labels_cmp.simps if_False)
    qed
  qed
qed

text \<open>The order of domains implements the interface of a comparison.\<close>

interpretation domain_order: cmp_order compareDomains non_fqdn "\<lambda>d. d"
proof
  show "compareDomains y x = - compareDomains x y" if "non_fqdn x" "non_fqdn y" for x y
    unfolding compareDomains_eq_labels [OF that] compareDomains_eq_labels [OF that(2,1)]
    by (rule labels_cmp_neg)
  show "compareDomains x z \<le> 0"
    if "non_fqdn x" "non_fqdn y" "non_fqdn z" "compareDomains x y \<le> 0" "compareDomains y z \<le> 0" for x y z
    using that labels_cmp_trans by (auto simp: compareDomains_eq_labels)
  show "x = y" if "non_fqdn x" "non_fqdn y" "compareDomains x y = 0" for x y
    using that by (simp add: compareDomains_eq_labels labels_inj)
qed

lemma compareDomains_0:
  "non_fqdn a \<Longrightarrow> non_fqdn b \<Longrightarrow> compareDomains a b = 0 \<longleftrightarrow> a = b"
  using domain_order.cmp_eq [of a b] domain_order.cmp_self [of a] by auto

section \<open>Matching\<close>

lemma labels_prefix:
  assumes "labels a = ls @ labels b" "non_fqdn a" "non_fqdn b" "ls \<noteq> []" "b \<noteq> []"
  shows "a = join_with dot ls @ dot # b" "join_with dot ls \<noteq> []"
proof -
  have a: "a \<noteq> []" using assms by auto
  have ne: "[] \<notin> set ls" "\<forall>l \<in> set ls. dot \<notin> set l"
    using assms a split_on_set [of _ dot a] by (auto simp: labels_def non_fqdn_def)
  show j: "join_with dot ls \<noteq> []" using assms(4) ne(1) by (cases "(dot, ls)" rule: join_with.cases) auto
  have "labels (join_with dot ls) = ls" using j assms(4) ne(2) split_join by (simp add: labels_def)
  then have "split_on dot (join_with dot ls @ dot # b) = split_on dot a"
    using assms(1,5) a j by (simp add: labels_def split_on_append)
  then show "a = join_with dot ls @ dot # b" by (simp add: split_on_inj)
qed

lemma matchesDomain_suffix:
  assumes "golibs_ok G" "non_fqdn q" "non_fqdn d"
  shows "matchesDomain G q d \<longleftrightarrow> suffix (labels d) (labels q)"
proof
  assume "matchesDomain G q d"
  then consider "d = []" | "q = d" | p where "d \<noteq> []" "p \<noteq> []" "q = p @ dot # d"
    using netutil_simps(2) [OF golibs_okD(3) [OF assms(1)]] by (auto simp: matchesDomain_def)
  then show "suffix (labels d) (labels q)"
    by cases (auto simp: labels_append suffix_def)
next
  assume "suffix (labels d) (labels q)"
  then obtain ls where ls: "labels q = ls @ labels d" by (auto simp: suffix_def)
  show "matchesDomain G q d"
  proof (cases "d = [] \<or> ls = []")
    case True
    then show ?thesis using ls assms labels_inj [of q d] by (auto simp: matchesDomain_def)
  next
    case False
    then show ?thesis
      using labels_prefix [OF ls assms(2,3)] netutil_simps(2) [OF golibs_okD(3) [OF assms(1)]]
      by (auto simp: matchesDomain_def)
  qed
qed

text \<open>
  The configured domains that match one question are ancestors of it, and their order is by
  length: the more specific is first.
\<close>

lemma matching_order:
  assumes "golibs_ok G" "non_fqdn q" "non_fqdn a" "non_fqdn b"
    "matchesDomain G q a" "matchesDomain G q b"
  shows "compareDomains a b < 0 \<longleftrightarrow> length (labels b) < length (labels a)"
proof -
  have s: "suffix (labels a) (labels q)" "suffix (labels b) (labels q)"
    using assms by (simp_all add: matchesDomain_suffix)
  then consider "suffix (labels a) (labels b)" | "suffix (labels b) (labels a)"
    using suffix_same_cases by blast
  then show ?thesis
  proof cases
    case 1
    then obtain ls where ls: "labels b = ls @ labels a" by (auto simp: suffix_def)
    then have "compareDomains b a \<le> 0"
      using assms labels_cmp_prefix [of "rev (labels a)" "rev ls"]
      by (simp add: compareDomains_eq_labels)
    then have "\<not> compareDomains a b < 0" using domain_order.cmp_neg [of a b] assms by auto
    with ls show ?thesis by simp
  next
    case 2
    then obtain ls where ls: "labels a = ls @ labels b" by (auto simp: suffix_def)
    then have "compareDomains a b = (if ls = [] then 0 else -1)"
      using assms labels_cmp_prefix [of "rev (labels b)" "rev ls"]
      by (simp add: compareDomains_eq_labels)
    with ls show ?thesis by auto
  qed
qed

section \<open>Properties\<close>

text \<open>
  C21: On non-FQDN names (or empty ones) the loop of \<open>compareDomains\<close> computes the comparison of
  the two label sequences from the right, in which a sequence precedes its proper prefixes; it is
  zero only on equal names.
\<close>

lemma compareDomains_labels:
  assumes "non_fqdn a" "non_fqdn b"
  shows "compareDomains a b = labels_cmp (rev (labels a)) (rev (labels b)) \<and>
    (compareDomains a b = 0 \<longleftrightarrow> a = b)"
  using assms compareDomains_0 by (simp add: compareDomains_eq_labels)

lemma compareDomains_labels_witness:
  "compareDomains ''b.example.com'' ''example.com''
     = labels_cmp [''com'', ''example'', ''b''] [''com'', ''example'']"
  using compareDomains_labels [of "''b.example.com''" "''example.com''"]
  by (simp add: non_fqdn_def labels_def)

text \<open>
  Of two configured domains that both match one question, \<open>compareDomains\<close> puts the more
  specific first, and the domains that match a question are exactly those whose labels are a
  suffix of its labels.
\<close>

lemma matching_domains_order:
  assumes "golibs_ok G" "non_fqdn q" "non_fqdn a" "non_fqdn b"
  shows "(matchesDomain G q a \<longleftrightarrow> suffix (labels a) (labels q)) \<and>
    (matchesDomain G q a \<and> matchesDomain G q b \<longrightarrow>
       (compareDomains a b < 0 \<longleftrightarrow> length (labels b) < length (labels a)))"
  using assms matchesDomain_suffix [of G q a] matching_order [of G q a b] by blast

lemma matching_domains_order_witness:
  "compareDomains ''example.com'' ''com'' < 0"
  using matching_domains_order [OF ref_golibs_ok, of "''a.example.com''" "''example.com''" "''com''"]
  by (simp add: non_fqdn_def labels_def matchesDomain_def ref_golibs_def has_suffix_def)

end
