(* ===== verification/Autodevice.thy ===== *)
theory Autodevice
  imports HumanIdSource DomainOrder
begin

text \<open>
  \<open>internal/client/autodevice.go\<close> and \<open>client.go\<close>: clients, the upstream address of a client that
  is created on demand, and the stored configurations of such clients.  The upstream constructor,
  the custom upstream configuration of \<open>dnsproxy\<close> and the text of a URL are parameters
  (\<open>ups_env\<close>).  A map that the code iterates over is an association list; no property depends on
  its order.
\<close>

section \<open>URLs\<close>

text \<open>\<open>url.URL\<close>: \<open>url_rest\<close> stands for the fields that the program leaves as they are.\<close>

record url =
  Scheme :: string
  Host :: string
  Path :: string
  url_rest :: string

abbreviation slash :: char where "slash \<equiv> CHR ''/''"

text \<open>The segments that \<open>path.Clean\<close> keeps of a rooted path.\<close>

fun clean_segs :: "string list \<Rightarrow> string list \<Rightarrow> string list" where
  "clean_segs acc [] = acc"
| "clean_segs acc (s # ss) =
     (if s = [] \<or> s = ''.'' then clean_segs acc ss
      else if s = ''..'' then clean_segs (butlast acc) ss
      else clean_segs (acc @ [s]) ss)"

text \<open>
  \<open>URL.JoinPath\<close> with one element: joined with the path, which is rooted for cleaning, and a
  trailing slash of the element is kept.
\<close>

definition join_path :: "url \<Rightarrow> string \<Rightarrow> url" where
  "join_path u elem =
     (let rooted = has_prefix (Path u) [slash];
          p = slash # join_with slash (clean_segs [] (split_on slash (Path u) @ split_on slash elem));
          p = (if rooted then p else tl p);
          p = (if has_suffix elem [slash] \<and> \<not> has_suffix p [slash] then p @ [slash] else p)
      in u\<lparr>Path := p\<rparr>)"

section \<open>The upstream of a client\<close>

definition SchemeHTTPS :: string where "SchemeHTTPS = ''https''"

definition SchemeQUIC :: string where "SchemeQUIC = ''quic''"

definition SchemeTLS :: string where "SchemeTLS = ''tls''"

lemmas scheme_defs = SchemeHTTPS_def SchemeQUIC_def SchemeTLS_def

record 'o autodev_conf =
  UpstreamTemplate :: url
  Options :: 'o
  DeviceType :: device_type
  ProfileID :: profile_id

record ('o, 'u, 'cc) ups_env =
  url_string :: "url \<Rightarrow> string"
  AddressToUpstream :: "string \<Rightarrow> 'o \<Rightarrow> goerr + 'u"
  NewCustomUpstreamConfig :: "'u list \<Rightarrow> bool \<Rightarrow> int \<Rightarrow> bool \<Rightarrow> 'cc"
  CloseUpstreams :: "'cc \<Rightarrow> goerr option"

text \<open>
  The interface for the construction of upstreams, and its implementation, which the program gives to
  the storage.
\<close>

type_synonym ('o, 'u) upstream_constructor = "string \<Rightarrow> 'o \<Rightarrow> goerr + 'u"

definition DefaultUpstreamConstructor :: "('o, 'u, 'cc) ups_env \<Rightarrow> ('o, 'u) upstream_constructor" where
  "DefaultUpstreamConstructor U addr opts = AddressToUpstream U addr opts"

definition ext_id :: "'o autodev_conf \<Rightarrow> human_id \<Rightarrow> string" where
  "ext_id c hid = join_with hyphen [DeviceType c, ProfileID c, hid]"

definition upstreamURL :: "'o autodev_conf \<Rightarrow> human_id \<Rightarrow> goerr + url" where
  "upstreamURL c hid =
     (let extID = ext_id c hid; u = UpstreamTemplate c in
      if to_lower (Scheme u) = SchemeHTTPS then Inr (join_path u extID)
      else if to_lower (Scheme u) \<in> {SchemeQUIC, SchemeTLS} then Inr (u\<lparr>Host := extID @ dot # Host u\<rparr>)
      else Inl (EWrap (MsgQ ''upstream template'' (Scheme u)) ErrBadEnumValue))"

definition toUpstreamConfig ::
  "golibs \<Rightarrow> ('o, 'u, 'cc) ups_env \<Rightarrow> 'o autodev_conf \<Rightarrow> human_id \<Rightarrow> goerr + 'u list" where
  "toUpstreamConfig G U c hid =
     (case upstreamURL c hid of
        Inl err \<Rightarrow> Inl (annotated G (MsgQ ''client with human id'' hid) err)
      | Inr upsURL \<Rightarrow>
          (case DefaultUpstreamConstructor U (url_string U upsURL) (Options c) of
             Inl err \<Rightarrow> Inl (annotated G (MsgQ ''client with human id'' hid) err)
           | Inr u \<Rightarrow> Inr [u]))"

section \<open>Clients\<close>

record 'cc auto_client =
  upstreams :: 'cc
  validUntil :: int

datatype 'cc client = StaticClient 'cc | AutoClient "'cc auto_client"

fun Upstreams :: "'cc client \<Rightarrow> 'cc" where
  "Upstreams (StaticClient u) = u"
| "Upstreams (AutoClient c) = upstreams c"

definition newAutodeviceClient ::
  "golibs \<Rightarrow> ('o, 'u, 'cc) ups_env \<Rightarrow> vhid \<Rightarrow> 'o autodev_conf \<Rightarrow> bool \<Rightarrow> int \<Rightarrow> goerr + 'cc auto_client" where
  "newAutodeviceClient G U hid c cacheEnabled cacheSize =
     (case toUpstreamConfig G U c (ID hid) of
        Inl err \<Rightarrow> Inl (EWrap (Msg ''creating upstream configuration for autodevice client'') err)
      | Inr upsConf \<Rightarrow>
          Inr \<lparr>upstreams = NewCustomUpstreamConfig U upsConf cacheEnabled cacheSize False,
               validUntil = Until hid\<rparr>)"

record ('o, 'cc) sac =
  sac_clients :: "(addr \<times> 'cc auto_client) list"
  sac_conf :: "'o autodev_conf"
  sac_prefix :: prefix
  sac_domain :: string
  sac_cacheSize :: int
  sac_cacheEnabled :: bool

definition sac_compare :: "('o, 'cc) sac \<Rightarrow> ('o, 'cc) sac \<Rightarrow> int" where
  "sac_compare c other =
     (if sac_prefix c = PZero then
        if sac_prefix other = PZero then compareDomains (sac_domain c) (sac_domain other) else 1
      else if sac_prefix other = PZero then -1
      else let res = prefix_compare (sac_prefix c) (sac_prefix other) in
        if res = 0 then compareDomains (sac_domain c) (sac_domain other) else res)"

definition sac_matches :: "golibs \<Rightarrow> ('o, 'cc) sac \<Rightarrow> addr \<Rightarrow> string \<Rightarrow> bool" where
  "sac_matches G c addr domain =
     (if sac_prefix c \<noteq> PZero \<and> \<not> pfx_contains (sac_prefix c) addr then False
      else if \<not> matchesDomain G domain (sac_domain c) then False
      else True)"

definition sac_close :: "('o, 'u, 'cc) ups_env \<Rightarrow> ('o, 'cc) sac \<Rightarrow> goerr option" where
  "sac_close U c =
     errors_join (List.map_filter
       (\<lambda>(addr, cli). case CloseUpstreams U (upstreams cli) of
          None \<Rightarrow> None
        | Some err \<Rightarrow> Some (Some (EWrap (Msg ''closing upstreams'') err)))
       (sac_clients c))"

section \<open>The order of configurations\<close>

text \<open>A comparison by a key and then by another comparison.\<close>

lemma cmp_order_lex:
  fixes f :: "'a \<Rightarrow> 'k::linorder"
  assumes "cmp_order cmp ok key"
    and "\<And>x y. cmp' x y = (if f x = f y then cmp (g x) (g y) else go_cmp (f x) (f y))"
    and "\<And>x. ok' x = ok (g x)"
    and "\<And>x y. f x = f y \<Longrightarrow> key (g x) = key (g y) \<Longrightarrow> key' x = key' y"
  shows "cmp_order cmp' ok' key'"
proof
  show "cmp' y x = - cmp' x y" if "ok' x" "ok' y" for x y
  proof (cases "f x = f y")
    case True
    then show ?thesis using that cmp_order.cmp_neg [OF assms(1), of "g x" "g y"]
      by (simp add: assms(2,3))
  next
    case False
    then show ?thesis using go_cmp_neg [of "f y" "f x"] by (simp add: assms(2))
  qed
  show "cmp' x z \<le> 0" if "ok' x" "ok' y" "ok' z" "cmp' x y \<le> 0" "cmp' y z \<le> 0" for x y z
  proof (cases "f x = f y \<and> f y = f z")
    case True
    then show ?thesis using that cmp_order.cmp_trans [OF assms(1), of "g x" "g y" "g z"]
      by (simp add: assms(2,3))
  next
    case False
    have "f x \<le> f y" "f y \<le> f z"
      using that(4,5) unfolding assms(2) by (simp_all add: go_cmp_le split: if_splits)
    with False have "f x \<le> f z" "f x \<noteq> f z" by auto
    then show ?thesis by (simp add: assms(2) go_cmp_le)
  qed
  show "key' x = key' y" if "ok' x" "ok' y" "cmp' x y = 0" for x y
  proof (rule assms(4))
    show "f x = f y" using that(3) by (simp add: assms(2) split: if_splits)
    then have "cmp (g x) (g y) = 0" using that(3) by (simp add: assms(2))
    then show "key (g x) = key (g y)"
      using that by (intro cmp_order.cmp_eq [OF assms(1)]) (simp_all add: assms(3))
  qed
qed

definition sac_rank :: "('o, 'cc) sac \<Rightarrow> bool \<times> addr \<times> int \<times> addr" where
  "sac_rank c = (sac_prefix c = PZero, pfx_key (sac_prefix c))"

interpretation sac_order: cmp_order sac_compare "\<lambda>c. non_fqdn (sac_domain c)"
  "\<lambda>c. (sac_prefix c, sac_domain c)"
proof (rule cmp_order_lex [OF domain_order.cmp_order_axioms, where f = sac_rank and g = sac_domain])
  show "sac_compare x y = (if sac_rank x = sac_rank y then compareDomains (sac_domain x) (sac_domain y)
      else go_cmp (sac_rank x) (sac_rank y))" for x y :: "('o, 'cc) sac"
    by (auto simp: sac_compare_def sac_rank_def prefix_compare_key Let_def go_cmp_def)
qed (simp_all add: sac_rank_def)

section \<open>The identifier in the upstream address\<close>

lemma valid_label_append:
  assumes "valid_label a" "valid_label b" "length a + length b \<le> 62"
  shows "valid_label (a @ hyphen # b)"
proof -
  have "a \<noteq> []" "b \<noteq> []" using assms by (auto simp: valid_label_def)
  then show ?thesis using assms by (auto simp: valid_label_def)
qed

lemma ext_id_valid:
  assumes "DeviceType c \<in> set deviceTypes" "valid_profile_id (ProfileID c)" "valid_human_id hid"
  shows "valid_label (ext_id c hid)"
proof -
  have l: "valid_label (ProfileID c)" "valid_label hid" "valid_label (DeviceType c)"
    "length (DeviceType c) = 3" "length (ProfileID c) = 8" "length hid \<le> 50"
    using assms deviceTypes_label by (auto simp: valid_profile_id_def valid_human_id_def human_id_consts)
  then have "valid_label (ProfileID c @ hyphen # hid)" by (intro valid_label_append) simp_all
  then have "valid_label (DeviceType c @ hyphen # ProfileID c @ hyphen # hid)"
    using l by (intro valid_label_append) simp_all
  then show ?thesis by (simp add: ext_id_def)
qed

lemma ext_id_inj: "ext_id c x = ext_id c y \<longleftrightarrow> x = y"
  by (simp add: ext_id_def)

lemma clean_segs_append: "clean_segs acc (ss @ ts) = clean_segs (clean_segs acc ss) ts"
  by (induction acc ss rule: clean_segs.induct) auto

lemma alnum_not_slash: "\<not> alnum slash"
  by (simp add: alnum_def)

text \<open>A label joins as the last segment of the path.\<close>

lemma join_path_label:
  assumes "valid_label l"
  shows "join_path u l =
    (let p = slash # join_with slash (clean_segs [] (split_on slash (Path u)) @ [l])
     in u\<lparr>Path := if has_prefix (Path u) [slash] then p else tl p\<rparr>)"
proof -
  have s: "slash \<notin> set l" using assms alnum_not_slash by (auto simp: valid_label_def)
  have "l \<noteq> []" using assms by (auto simp: valid_label_def)
  moreover have "l \<noteq> ''.''" "l \<noteq> ''..''" using assms by (auto simp: valid_label_def alnum_def)
  moreover have "\<not> has_suffix l [slash]"
    using s in_set_dropD [of slash "length l - 1" l] by (auto simp: has_suffix_def)
  ultimately show ?thesis
    using s by (simp add: join_path_def clean_segs_append split_on_notin Let_def)
qed

lemma last_join_slash: "slash \<notin> set l \<Longrightarrow> last (split_on slash (join_with slash (ss @ [l]))) = l"
proof (induction ss)
  case (Cons s ss)
  have "join_with slash ((s # ss) @ [l]) = s @ slash # join_with slash (ss @ [l])"
    by (simp add: join_with_Cons)
  with Cons show ?case by (simp add: split_on_append)
qed (simp add: split_on_notin)

lemma last_path_segment:
  assumes "valid_label l"
  shows "last (split_on slash (Path (join_path u l))) = l"
proof -
  have "slash \<notin> set l" using assms alnum_not_slash by (auto simp: valid_label_def)
  then show ?thesis
    using last_join_slash [of l "clean_segs [] (split_on slash (Path u))"]
    by (simp add: join_path_label [OF assms] Let_def)
qed

definition valid_autodev :: "'o autodev_conf \<Rightarrow> bool" where
  "valid_autodev c = (DeviceType c \<in> set deviceTypes \<and> valid_profile_id (ProfileID c) \<and>
     to_lower (Scheme (UpstreamTemplate c)) \<in> {SchemeHTTPS, SchemeQUIC, SchemeTLS})"

section \<open>Properties\<close>

text \<open>
  The segments of a path, without the empty ones and \<open>.\<close>, and with \<open>..\<close> resolved: those of a path
  that is already clean are what lies between its slashes.
\<close>

definition path_segs :: "string \<Rightarrow> string list" where
  "path_segs p = clean_segs [] (split_on slash p)"

lemma clean_segs_plain: "\<forall>s \<in> set ss. s \<notin> {[], ''.'', ''..''} \<Longrightarrow> clean_segs acc ss = acc @ ss"
  by (induction acc ss rule: clean_segs.induct) auto

lemma path_segs_clean:
  assumes "ss \<noteq> []" "\<forall>s \<in> set ss. slash \<notin> set s \<and> s \<notin> {[], ''.'', ''..''}"
  shows "path_segs (slash # join_with slash ss) = ss"
  using assms clean_segs_plain [of ss "[]"] by (simp add: path_segs_def split_join)

text \<open>
  C24: The extended identifier of a client is one label of a host name, so at most 63 bytes.  Over HTTPS
  it is appended to the template's path as its last segment: the path keeps its segments and stays
  rooted or relative.  Over QUIC and TLS it is put before the template's host.  Everything else of the
  template is kept.
\<close>

lemma upstreamURL_ext_id:
  assumes "valid_autodev c" "valid_human_id hid"
  shows "valid_label (ext_id c hid) \<and> upstreamURL c hid = Inr
    (if to_lower (Scheme (UpstreamTemplate c)) = SchemeHTTPS
     then UpstreamTemplate c\<lparr>Path := (if has_prefix (Path (UpstreamTemplate c)) [slash] then [slash] else []) @
       join_with slash (path_segs (Path (UpstreamTemplate c)) @ [ext_id c hid])\<rparr>
     else UpstreamTemplate c\<lparr>Host := ext_id c hid @ dot # Host (UpstreamTemplate c)\<rparr>)"
proof -
  have l: "valid_label (ext_id c hid)" using assms by (intro ext_id_valid) (auto simp: valid_autodev_def)
  then show ?thesis
    using assms(1) by (auto simp: upstreamURL_def valid_autodev_def join_path_label path_segs_def Let_def scheme_defs)
qed

definition demo_conf :: "string \<Rightarrow> string autodev_conf" where
  "demo_conf scheme = \<lparr>UpstreamTemplate = \<lparr>Scheme = scheme, Host = ''d.adguard-dns.com'', Path = ''/dns-query'', url_rest = []\<rparr>,
     Options = [], DeviceType = ''otr'', ProfileID = ''abcd1234''\<rparr>"

lemma demo_conf_valid: "valid_autodev (demo_conf ''quic'')" "valid_autodev (demo_conf ''https'')"
  by code_simp+

lemma upstreamURL_ext_id_witness:
  "upstreamURL (demo_conf ''https'') ''pc'' = Inr (UpstreamTemplate (demo_conf ''https'')\<lparr>Path := ''/dns-query/otr-abcd1234-pc''\<rparr>)"
proof -
  have "valid_human_id ''pc''" by code_simp
  moreover have "to_lower ''https'' = SchemeHTTPS" by code_simp
  moreover have "ext_id (demo_conf ''https'') ''pc'' = ''otr-abcd1234-pc''" by code_simp
  moreover have "Scheme (UpstreamTemplate (demo_conf ''https'')) = ''https''" "Path (UpstreamTemplate (demo_conf ''https'')) = ''/dns-query''"
    by (simp_all add: demo_conf_def)
  moreover have "has_prefix ''/dns-query'' [slash]" "path_segs ''/dns-query'' = [''dns-query'']" by code_simp+
  ultimately show ?thesis using upstreamURL_ext_id [OF demo_conf_valid(2), of "''pc''"] by simp
qed

text \<open>
  Clients with different identifiers get different upstream URLs; with the default source that
  is so for any two different addresses.
\<close>

lemma upstreamURL_distinct:
  assumes "valid_autodev c"
  shows "(valid_human_id x \<and> valid_human_id y \<and> x \<noteq> y \<longrightarrow> upstreamURL c x \<noteq> upstreamURL c y) \<and>
    (plain_addr a \<and> plain_addr b \<and> a \<noteq> b \<longrightarrow>
       upstreamURL c (default_human_id a) \<noteq> upstreamURL c (default_human_id b))"
proof -
  have *: "upstreamURL c x \<noteq> upstreamURL c y" if "valid_human_id x" "valid_human_id y" "x \<noteq> y" for x y
  proof
    assume eq: "upstreamURL c x = upstreamURL c y"
    have l: "valid_label (ext_id c x)" "valid_label (ext_id c y)"
      using assms that by (auto intro!: ext_id_valid simp: valid_autodev_def)
    have "ext_id c x = ext_id c y"
    proof (cases "to_lower (Scheme (UpstreamTemplate c)) = SchemeHTTPS")
      case True
      then have "join_path (UpstreamTemplate c) (ext_id c x) = join_path (UpstreamTemplate c) (ext_id c y)"
        using eq by (simp add: upstreamURL_def Let_def)
      then show ?thesis using last_path_segment [OF l(1)] last_path_segment [OF l(2)] by metis
    next
      case False
      define v where "v = UpstreamTemplate c"
      have "upstreamURL c z = Inr (v\<lparr>Host := ext_id c z @ dot # Host v\<rparr>)" for z
        using False assms by (auto simp: upstreamURL_def valid_autodev_def Let_def v_def)
      then have "v\<lparr>Host := ext_id c x @ dot # Host v\<rparr> = v\<lparr>Host := ext_id c y @ dot # Host v\<rparr>"
        using eq by simp
      then show ?thesis by (cases v) simp
    qed
    with that(3) show False by (simp add: ext_id_inj)
  qed
  then show ?thesis using default_human_id_valid default_human_id_inj by blast
qed

lemma upstreamURL_distinct_witness:
  "upstreamURL (demo_conf ''quic'') (default_human_id (A4 1)) \<noteq> upstreamURL (demo_conf ''quic'') (default_human_id (A4 2))"
proof -
  have "plain_addr (A4 1)" "plain_addr (A4 2)" by (simp_all add: plain_addr_def)
  then show ?thesis
    using upstreamURL_distinct [OF demo_conf_valid(1), of "[]" "[]" "A4 1" "A4 2"] by simp
qed

end
