(* ===== verification/Storage.thy ===== *)
theory Storage
  imports Autodevice
begin

text \<open>
  \<open>internal/client/defaultstorage.go\<close>: the storage of clients.  It finds the static client of a
  question, creates clients on demand, keeps identifiers apart and drops what has expired.  The
  result of \<open>queue.push\<close> is an argument of the operations that call it, and what they pass to
  \<open>queue.done\<close> is a part of their result (the queue itself is \<^theory_text>\<open>OpQueue\<close>); each operation is one
  step.  The source of identifiers is an argument with its state in the storage, a member of the
  interface \<open>human_id_source\<close>.  Closing the upstreams of a dropped client is left by the code to
  a finalizer; the storage records those.
\<close>

section \<open>State\<close>

record 'cc storedClient =
  sc_client :: "'cc client"
  sc_prefix :: prefix
  sc_domain :: string

record identity =
  id_addr :: addr
  id_hid :: vhid

record ('o, 'cc, 's) storage =
  static :: "'cc storedClient list"
  autodevice :: "('o, 'cc) sac list"
  identified :: "(human_id \<times> identity) list"
  source :: 's
  gcDone :: bool
  finalizers :: "'cc list"

type_synonym 'v pushed = "'v option \<times> goerr option"

text \<open>The configuration maps are association lists in the order that the iteration takes.\<close>

record ('o, 'cc) storage_conf =
  Static :: "(prefix \<times> (string \<times> 'cc client) list) list"
  Autodevice :: "(prefix \<times> (string \<times> 'o autodev_conf) list) list"
  CacheEnabled :: bool
  CacheSize :: int

section \<open>Creation\<close>

definition storedClient_compare :: "'cc storedClient \<Rightarrow> 'cc storedClient \<Rightarrow> int" where
  "storedClient_compare c other =
     (if sc_prefix c = PZero then
        if sc_prefix other = PZero then compareDomains (sc_domain c) (sc_domain other) else 1
      else if sc_prefix other = PZero then -1
      else
        let a = is_single_ip (sc_prefix c); b = is_single_ip (sc_prefix other) in
        if a \<noteq> b then if a then -1 else 1
        else
          let res = prefix_compare (sc_prefix c) (sc_prefix other) in
          if res = 0 then compareDomains (sc_domain c) (sc_domain other) else res)"

definition static_clients :: "('o, 'cc) storage_conf \<Rightarrow> 'cc storedClient list" where
  "static_clients c = concat (map (\<lambda>(prefix, conf).
     map (\<lambda>(domain, client). \<lparr>sc_client = client, sc_prefix = prefix, sc_domain = domain\<rparr>) conf) (Static c))"

definition autodevice_clients :: "('o, 'cc) storage_conf \<Rightarrow> ('o, 'cc) sac list" where
  "autodevice_clients c = concat (map (\<lambda>(prefix, conf).
     map (\<lambda>(domain, cliConf). \<lparr>sac_clients = [], sac_conf = cliConf, sac_prefix = prefix,
       sac_domain = domain, sac_cacheSize = CacheSize c, sac_cacheEnabled = CacheEnabled c\<rparr>) conf)
     (Autodevice c))"

definition NewDefaultStorage :: "('o, 'cc) storage_conf \<Rightarrow> 's \<Rightarrow> ('o, 'cc, 's) storage" where
  "NewDefaultStorage c s = \<lparr>
     static = sort_stable storedClient_compare (static_clients c),
     autodevice = sort_stable sac_compare (autodevice_clients c),
     identified = [], source = s, gcDone = False, finalizers = []\<rparr>"

section \<open>Search\<close>

definition storedClient_matches :: "golibs \<Rightarrow> 'cc storedClient \<Rightarrow> addr \<Rightarrow> string \<Rightarrow> bool" where
  "storedClient_matches G c addr domain =
     (if sc_prefix c \<noteq> PZero \<and> \<not> pfx_contains (sc_prefix c) addr then False
      else if \<not> matchesDomain G domain (sc_domain c) then False
      else True)"

fun find_static :: "golibs \<Rightarrow> 'cc storedClient list \<Rightarrow> addr \<Rightarrow> string \<Rightarrow> 'cc client option" where
  "find_static G [] addr domain = None"
| "find_static G (cli # clis) addr domain =
     (if \<not> storedClient_matches G cli addr domain then find_static G clis addr domain
      else Some (sc_client cli))"

definition findStaticClient ::
  "golibs \<Rightarrow> addr \<Rightarrow> string \<Rightarrow> ('o, 'cc, 's) storage \<Rightarrow> 'cc client option" where
  "findStaticClient G addr domain d = find_static G (static d) addr domain"

text \<open>The identification of an address: what is returned, and what is passed to \<open>done\<close>, if called.\<close>

definition identify ::
  "'s identify_fn \<Rightarrow> vhid pushed \<Rightarrow> int \<Rightarrow> addr \<Rightarrow> int \<Rightarrow> ('o, 'cc, 's) storage
     \<Rightarrow> (goerr + vhid) \<times> vhid pushed option \<times> ('o, 'cc, 's) storage" where
  "identify src pushed srcNow addr now d =
     (case pushed of
        (_, Some err) \<Rightarrow> (Inl err, None, d)
      | (Some hid, None) \<Rightarrow> (Inr hid, None, d)
      | (None, None) \<Rightarrow>
          (case src addr srcNow (source d) of
             (Inl err, s) \<Rightarrow>
               let err = EWrap (Msg ''identifying client'') err
               in (Inl err, Some (None, Some err), d\<lparr>source := s\<rparr>)
           | (Inr hid, s) \<Rightarrow>
               let conflict = (case map_of (identified d) (ID hid) of
                     Some existing \<Rightarrow> id_addr existing \<noteq> addr \<and> now < Until (id_hid existing)
                   | None \<Rightarrow> False)
               in if conflict then
                    let err = EWrap (Msg ''identifying address'') ErrDuplicated
                    in (Inl err, Some (None, Some err), d\<lparr>source := s\<rparr>)
                  else (Inr hid, Some (Some hid, None),
                    d\<lparr>source := s, identified := AList.update (ID hid) \<lparr>id_addr = addr, id_hid = hid\<rparr> (identified d)\<rparr>)))"

definition upd_sac :: "nat \<Rightarrow> (('o, 'cc) sac \<Rightarrow> ('o, 'cc) sac) \<Rightarrow> ('o, 'cc, 's) storage \<Rightarrow> ('o, 'cc, 's) storage" where
  "upd_sac i f d = d\<lparr>autodevice := (autodevice d)[i := f (autodevice d ! i)]\<rparr>"

text \<open>The configuration is the one at index \<open>i\<close> of \<open>autodevice\<close>.\<close>

definition findValidAutodeviceClient ::
  "addr \<Rightarrow> nat \<Rightarrow> int \<Rightarrow> ('o, 'cc, 's) storage \<Rightarrow> 'cc client option \<times> ('o, 'cc, 's) storage" where
  "findValidAutodeviceClient addr i now d =
     (case map_of (sac_clients (autodevice d ! i)) addr of
        Some auto \<Rightarrow>
          if now < validUntil auto then (Some (AutoClient auto), d)
          else (None, upd_sac i (\<lambda>c. c\<lparr>sac_clients := AList.delete addr (sac_clients c)\<rparr>)
                 (d\<lparr>finalizers := finalizers d @ [upstreams auto]\<rparr>))
      | None \<Rightarrow> (None, d))"

definition storage_newAutodeviceClient ::
  "golibs \<Rightarrow> ('o, 'u, 'cc) ups_env \<Rightarrow> 's identify_fn \<Rightarrow> vhid pushed \<Rightarrow> int \<Rightarrow> addr \<Rightarrow> nat \<Rightarrow> int
     \<Rightarrow> ('o, 'cc, 's) storage \<Rightarrow> (goerr + 'cc client) \<times> vhid pushed option \<times> ('o, 'cc, 's) storage" where
  "storage_newAutodeviceClient G U src pushed srcNow addr i now d =
     (case identify src pushed srcNow addr now d of
        (Inl err, out, d) \<Rightarrow> (Inl (EWrap (Msg ''identifying client within prefix'') err), out, d)
      | (Inr hid, out, d) \<Rightarrow>
          let c = autodevice d ! i in
          (case newAutodeviceClient G U hid (sac_conf c) (sac_cacheEnabled c) (sac_cacheSize c) of
             Inl err \<Rightarrow> (Inl (EWrap (MsgQ ''creating autodevice'' (sac_domain c)) err), out, d)
           | Inr auto \<Rightarrow> (Inr (AutoClient auto), out,
               upd_sac i (\<lambda>c. c\<lparr>sac_clients := AList.update addr auto (sac_clients c)\<rparr>) d)))"

text \<open>
  The search of an on-demand client: the result, what is passed to the two queues, the state.
\<close>

definition newAutodeviceOrStored ::
  "golibs \<Rightarrow> ('o, 'u, 'cc) ups_env \<Rightarrow> 's identify_fn \<Rightarrow> 'cc client pushed \<Rightarrow> vhid pushed \<Rightarrow> int \<Rightarrow> int
     \<Rightarrow> addr \<Rightarrow> nat \<Rightarrow> ('o, 'cc, 's) storage
     \<Rightarrow> 'cc client option \<times> ('cc client pushed option \<times> vhid pushed option) \<times> ('o, 'cc, 's) storage" where
  "newAutodeviceOrStored G U src sp ip now srcNow addr i d =
     (case sp of
        (_, Some err) \<Rightarrow> (None, (None, None), d)
      | (Some c, None) \<Rightarrow> (Some c, (None, None), d)
      | (None, None) \<Rightarrow>
          (case findValidAutodeviceClient addr i now d of
             (Some c, d) \<Rightarrow> (Some c, (Some (Some c, None), None), d)
           | (None, d) \<Rightarrow>
               (case storage_newAutodeviceClient G U src ip srcNow addr i now d of
                  (Inl err, out, d) \<Rightarrow> (None, (Some (None, Some err), out), d)
                | (Inr c, out, d) \<Rightarrow> (Some c, (Some (Some c, None), out), d))))"

text \<open>The index of the first configuration that matches.\<close>

fun find_index :: "('a \<Rightarrow> bool) \<Rightarrow> 'a list \<Rightarrow> nat option" where
  "find_index P [] = None"
| "find_index P (x # xs) = (if P x then Some 0 else map_option Suc (find_index P xs))"

definition findAutodevice ::
  "golibs \<Rightarrow> ('o, 'u, 'cc) ups_env \<Rightarrow> (addr \<Rightarrow> bool) \<Rightarrow> 's identify_fn \<Rightarrow> 'cc client pushed \<Rightarrow> vhid pushed
     \<Rightarrow> int \<Rightarrow> int \<Rightarrow> addr \<Rightarrow> string \<Rightarrow> ('o, 'cc, 's) storage
     \<Rightarrow> 'cc client option \<times> ('cc client pushed option \<times> vhid pushed option) \<times> ('o, 'cc, 's) storage" where
  "findAutodevice G U identifiable src sp ip now srcNow addr domain d =
     (if autodevice d = [] then (None, (None, None), d)
      else if \<not> identifiable addr then (None, (None, None), d)
      else
        (case find_index (\<lambda>sac. sac_matches G sac addr domain) (autodevice d) of
           Some i \<Rightarrow> newAutodeviceOrStored G U src sp ip now srcNow addr i d
         | None \<Rightarrow> (None, (None, None), d)))"

definition Get ::
  "golibs \<Rightarrow> ('o, 'u, 'cc) ups_env \<Rightarrow> (addr \<Rightarrow> bool) \<Rightarrow> 's identify_fn \<Rightarrow> 'cc client pushed \<Rightarrow> vhid pushed
     \<Rightarrow> int \<Rightarrow> int \<Rightarrow> addr \<Rightarrow> string \<Rightarrow> ('o, 'cc, 's) storage
     \<Rightarrow> 'cc client option \<times> ('cc client pushed option \<times> vhid pushed option) \<times> ('o, 'cc, 's) storage" where
  "Get G U identifiable src sp ip now srcNow addr questionDomain d =
     (case findStaticClient G addr questionDomain d of
        Some c \<Rightarrow> (Some c, (None, None), d)
      | None \<Rightarrow> findAutodevice G U identifiable src sp ip now srcNow addr questionDomain d)"

section \<open>Garbage collection and shutdown\<close>

definition cleanExpiredClients :: "int \<Rightarrow> ('o, 'cc) sac \<Rightarrow> ('o, 'cc) sac \<times> 'cc list" where
  "cleanExpiredClients now c =
     (c\<lparr>sac_clients := filter (\<lambda>(_, client). now < validUntil client) (sac_clients c)\<rparr>,
      map (\<lambda>(_, client). upstreams client) (filter (\<lambda>(_, client). \<not> now < validUntil client) (sac_clients c)))"

text \<open>The loop over the identities deletes by the identifier of the entry, not by its key.\<close>

definition cleanExpired :: "int \<Rightarrow> ('o, 'cc, 's) storage \<Rightarrow> ('o, 'cc, 's) storage" where
  "cleanExpired now d =
     d\<lparr>autodevice := map (fst \<circ> cleanExpiredClients now) (autodevice d),
       finalizers := finalizers d @ concat (map (snd \<circ> cleanExpiredClients now) (autodevice d)),
       identified := fold (\<lambda>(_, ident) m. if Until (id_hid ident) < now then AList.delete (ID (id_hid ident)) m else m)
         (identified d) (identified d)\<rparr>"

datatype gc_event = Tick int | CtxDone | GcDone

text \<open>\<open>runGC\<close> on the events its \<open>select\<close> receives: the state, and whether the loop has returned.\<close>

fun runGC :: "gc_event list \<Rightarrow> ('o, 'cc, 's) storage \<Rightarrow> ('o, 'cc, 's) storage \<times> bool" where
  "runGC [] d = (d, False)"
| "runGC (Tick now # evs) d = runGC evs (cleanExpired now d)"
| "runGC (CtxDone # evs) d = (d, True)"
| "runGC (GcDone # evs) d = (d, True)"

text \<open>\<open>Start\<close>: whether it starts the collector.\<close>

definition Start :: "('o, 'cc, 's) storage \<Rightarrow> bool \<times> goerr option" where
  "Start d = (0 < length (autodevice d), None)"

text \<open>\<open>Shutdown\<close>; closing the channel a second time panics (\<open>None\<close>).\<close>

definition Shutdown ::
  "('o, 'u, 'cc) ups_env \<Rightarrow> ('o, 'cc, 's) storage \<Rightarrow> (goerr option \<times> ('o, 'cc, 's) storage) option" where
  "Shutdown U d =
     (if gcDone d then None
      else Some (errors_join
        (List.map_filter (\<lambda>c. case CloseUpstreams U (Upstreams (sc_client c)) of
             None \<Rightarrow> None
           | Some err \<Rightarrow> Some (Some (EWrap (MsgQ ''closing upstreams'' (sc_domain c)) err))) (static d) @
         List.map_filter (\<lambda>c. case sac_close U c of
             None \<Rightarrow> None
           | Some err \<Rightarrow> Some (Some (EWrap (MsgQ ''closing autodevice client'' (sac_domain c)) err))) (autodevice d)),
        d\<lparr>gcDone := True\<rparr>))"

section \<open>The order of static clients\<close>

definition sc_rank :: "'cc storedClient \<Rightarrow> bool \<times> bool \<times> addr \<times> int \<times> addr" where
  "sc_rank c = (sc_prefix c = PZero, \<not> is_single_ip (sc_prefix c), pfx_key (sc_prefix c))"

interpretation sc_order: cmp_order storedClient_compare "\<lambda>c. non_fqdn (sc_domain c)"
  "\<lambda>c. (sc_prefix c, sc_domain c)"
proof (rule cmp_order_lex [OF domain_order.cmp_order_axioms, where f = sc_rank and g = sc_domain])
  show "storedClient_compare x y = (if sc_rank x = sc_rank y then compareDomains (sc_domain x) (sc_domain y)
      else go_cmp (sc_rank x) (sc_rank y))" for x y :: "'cc storedClient"
    by (auto simp: storedClient_compare_def sc_rank_def prefix_compare_key Let_def go_cmp_def)
qed (simp_all add: sc_rank_def)

lemma find_static_find: "find_static G xs addr domain = map_option sc_client (find (\<lambda>c. storedClient_matches G c addr domain) xs)"
  by (induction xs) auto

lemma find_index_find:
  "find_index P xs = Some i \<Longrightarrow> i < length xs \<and> find P xs = Some (xs ! i)"
  "find_index P xs = None \<longleftrightarrow> find P xs = None"
  by (induction xs arbitrary: i) (auto split: if_splits)

section \<open>Valid configurations\<close>

definition prefixes_disjoint :: "prefix set \<Rightarrow> bool" where
  "prefixes_disjoint ps = (\<forall>p \<in> ps. \<forall>q \<in> ps. p \<noteq> q \<longrightarrow> p \<noteq> PZero \<longrightarrow> q \<noteq> PZero \<longrightarrow> pfx_disjoint p q)"

definition map_wf :: "(prefix \<times> (string \<times> 'a) list) list \<Rightarrow> bool" where
  "map_wf m = (distinct (map fst m) \<and>
     (\<forall>(p, conf) \<in> set m. distinct (map fst conf) \<and> (\<forall>d \<in> fst ` set conf. non_fqdn d)))"

text \<open>What the comment on \<open>DefaultStorageConfig\<close> asks for.\<close>

definition conf_wf :: "('o, 'cc) storage_conf \<Rightarrow> bool" where
  "conf_wf c = (map_wf (Static c) \<and> map_wf (Autodevice c) \<and>
     prefixes_disjoint (fst ` set (Static c)) \<and> prefixes_disjoint (fst ` set (Autodevice c)))"

lemma prefixes_disjoint_mono: "prefixes_disjoint ps \<Longrightarrow> qs \<subseteq> ps \<Longrightarrow> prefixes_disjoint qs"
  unfolding prefixes_disjoint_def by blast

definition map_keys :: "(prefix \<times> (string \<times> 'a) list) list \<Rightarrow> (prefix \<times> string) list" where
  "map_keys m = concat (map (\<lambda>pc. map (\<lambda>dx. (fst pc, fst dx)) (snd pc)) m)"

lemma map_wf_keys:
  assumes "map_wf m"
  shows "distinct (map_keys m)" "\<forall>k \<in> set (map_keys m). fst k \<in> fst ` set m \<and> non_fqdn (snd k)"
proof -
  have "distinct (map_keys m) \<and> (\<forall>k \<in> set (map_keys m). fst k \<in> fst ` set m \<and> non_fqdn (snd k))"
    using assms
  proof (induction m)
    case Nil
    then show ?case by (simp add: map_keys_def)
  next
    case (Cons pc m)
    obtain p conf where pc: "pc = (p, conf)" by (cases pc)
    have d: "distinct (map fst conf)" using Cons.prems pc by (simp add: map_wf_def)
    have "map (\<lambda>dx. (p, fst dx)) conf = map (Pair p) (map fst conf)" by simp
    then have "distinct (map (\<lambda>dx. (p, fst dx)) conf)"
      using d by (simp only: distinct_map) (simp add: inj_on_def)
    moreover have "p \<notin> fst ` set m" "map_wf m" "\<forall>dx \<in> set conf. non_fqdn (fst dx)"
      using Cons.prems pc by (auto simp: map_wf_def)
    moreover have "map_keys (pc # m) = map (\<lambda>dx. (p, fst dx)) conf @ map_keys m"
      using pc by (simp add: map_keys_def)
    ultimately show ?case using Cons.IH pc by (auto, metis fst_conv)
  qed
  then show "distinct (map_keys m)" "\<forall>k \<in> set (map_keys m). fst k \<in> fst ` set m \<and> non_fqdn (snd k)" by simp_all
qed

abbreviation sc_key :: "'cc storedClient \<Rightarrow> prefix \<times> string" where
  "sc_key c \<equiv> (sc_prefix c, sc_domain c)"

abbreviation sac_key :: "('o, 'cc) sac \<Rightarrow> prefix \<times> string" where
  "sac_key c \<equiv> (sac_prefix c, sac_domain c)"

lemma static_keys: "map sc_key (static_clients c) = map_keys (Static c)"
  by (simp add: static_clients_def map_keys_def map_concat comp_def case_prod_unfold)

lemma autodevice_keys: "map sac_key (autodevice_clients c) = map_keys (Autodevice c)"
  by (simp add: autodevice_clients_def map_keys_def map_concat comp_def case_prod_unfold)

lemma key_sets:
  "sc_key ` set (static_clients c) = set (map_keys (Static c))"
  "sac_key ` set (autodevice_clients c) = set (map_keys (Autodevice c))"
  by (simp_all flip: static_keys autodevice_keys)

lemma conf_keys:
  assumes "conf_wf c"
  shows "distinct (map sc_key (static_clients c))" "distinct (map sac_key (autodevice_clients c))"
    "\<forall>k \<in> sc_key ` set (static_clients c). non_fqdn (snd k)"
    "\<forall>k \<in> sac_key ` set (autodevice_clients c). non_fqdn (snd k)"
    "prefixes_disjoint (fst ` sc_key ` set (static_clients c))"
    "prefixes_disjoint (fst ` sac_key ` set (autodevice_clients c))"
proof -
  note s = map_wf_keys [of "Static c"] and a = map_wf_keys [of "Autodevice c"]
  show "distinct (map sc_key (static_clients c))" "distinct (map sac_key (autodevice_clients c))"
    using assms s(1) a(1) by (simp_all add: static_keys autodevice_keys conf_wf_def)
  show "\<forall>k \<in> sc_key ` set (static_clients c). non_fqdn (snd k)"
    "\<forall>k \<in> sac_key ` set (autodevice_clients c). non_fqdn (snd k)"
    using assms s(2) a(2) unfolding key_sets by (simp_all add: conf_wf_def)
  show "prefixes_disjoint (fst ` sc_key ` set (static_clients c))"
    "prefixes_disjoint (fst ` sac_key ` set (autodevice_clients c))"
    unfolding key_sets
    by (rule prefixes_disjoint_mono [where ps = "fst ` set (Static c)"])
      (use assms s(2) in \<open>auto simp: conf_wf_def\<close>,
       rule prefixes_disjoint_mono [where ps = "fst ` set (Autodevice c)"],
       use assms a(2) in \<open>auto simp: conf_wf_def\<close>)
qed

section \<open>The best match\<close>

text \<open>
  The specification of a search: among the entries that match, one of a real prefix before the
  empty one, and of those the one with the most specific domain.
\<close>

definition beats :: "prefix \<times> string \<Rightarrow> prefix \<times> string \<Rightarrow> bool" where
  "beats k l = (if fst k = fst l then length (labels (snd l)) < length (labels (snd k))
     else fst k \<noteq> PZero \<and> fst l = PZero)"

definition key_matches :: "golibs \<Rightarrow> addr \<Rightarrow> string \<Rightarrow> prefix \<times> string \<Rightarrow> bool" where
  "key_matches G addr domain k =
     ((fst k = PZero \<or> pfx_contains (fst k) addr) \<and> matchesDomain G domain (snd k))"

definition best_key :: "golibs \<Rightarrow> addr \<Rightarrow> string \<Rightarrow> (prefix \<times> string) set \<Rightarrow> prefix \<times> string \<Rightarrow> bool" where
  "best_key G addr domain ks k = (k \<in> ks \<and> key_matches G addr domain k \<and>
     (\<forall>l \<in> ks. key_matches G addr domain l \<longrightarrow> l = k \<or> beats k l))"

lemma best_key_unique: "best_key G addr domain ks k \<Longrightarrow> best_key G addr domain ks l \<Longrightarrow> k = l"
  by (fastforce simp: best_key_def beats_def split: if_splits)

lemma storedClient_matches_key:
  "storedClient_matches G c addr domain = key_matches G addr domain (sc_prefix c, sc_domain c)"
  by (simp add: storedClient_matches_def key_matches_def)

lemma sac_matches_key:
  "sac_matches G c addr domain = key_matches G addr domain (sac_prefix c, sac_domain c)"
  by (simp add: sac_matches_def key_matches_def)

text \<open>A comparison that puts the empty prefix last and orders a prefix's entries by domain.\<close>

lemma least_is_best:
  assumes G: "golibs_ok G" "non_fqdn domain"
    and ks: "\<forall>k \<in> ks. non_fqdn (snd k)" "prefixes_disjoint (fst ` ks)"
    and k: "k \<in> ks" "key_matches G addr domain k"
    and least: "\<And>l. l \<in> ks \<Longrightarrow> key_matches G addr domain l \<Longrightarrow>
      (fst l = PZero \<or> fst k \<noteq> PZero) \<and> (fst l = fst k \<longrightarrow> compareDomains (snd k) (snd l) \<le> 0)"
  shows "best_key G addr domain ks k"
proof -
  have "l = k \<or> beats k l" if l: "l \<in> ks" "key_matches G addr domain l" for l
  proof (cases "fst l = fst k")
    case True
    have "snd l = snd k \<or> compareDomains (snd k) (snd l) < 0"
      using compareDomains_0 [of "snd k" "snd l"] least [OF l] True ks(1) k(1) l(1) by force
    then show ?thesis
      using matching_order [OF G(1,2), of "snd k" "snd l"] True ks(1) k l
      by (auto simp: beats_def key_matches_def prod_eq_iff)
  next
    case False
    have "fst l = PZero \<or> fst k = PZero"
    proof (rule ccontr)
      assume *: "\<not> (fst l = PZero \<or> fst k = PZero)"
      then have "pfx_disjoint (fst k) (fst l)"
        using ks(2) k(1) l(1) False unfolding prefixes_disjoint_def by force
      then show False
        using pfx_disjoint_contains [of "fst k" "fst l" addr] k(2) l(2) * by (auto simp: key_matches_def)
    qed
    with False least [OF l] show ?thesis by (auto simp: beats_def)
  qed
  with k show ?thesis by (simp add: best_key_def)
qed

lemma storedClient_compare_le:
  assumes "storedClient_compare c y \<le> 0"
  shows "(sc_prefix y = PZero \<or> sc_prefix c \<noteq> PZero) \<and>
    (sc_prefix y = sc_prefix c \<longrightarrow> compareDomains (sc_domain c) (sc_domain y) \<le> 0)"
  using assms by (auto simp: storedClient_compare_def prefix_compare_key Let_def split: if_splits)

lemma sac_compare_le:
  assumes "sac_compare c y \<le> 0"
  shows "(sac_prefix y = PZero \<or> sac_prefix c \<noteq> PZero) \<and>
    (sac_prefix y = sac_prefix c \<longrightarrow> compareDomains (sac_domain c) (sac_domain y) \<le> 0)"
  using assms by (auto simp: sac_compare_def prefix_compare_key Let_def split: if_splits)

lemma find_best:
  assumes ord: "cmp_order cmp (\<lambda>c. non_fqdn (snd (key c))) key"
    and le: "\<And>c y. cmp c y \<le> 0 \<Longrightarrow> (fst (key y) = PZero \<or> fst (key c) \<noteq> PZero) \<and>
      (fst (key y) = fst (key c) \<longrightarrow> compareDomains (snd (key c)) (snd (key y)) \<le> 0)"
    and xs: "\<forall>k \<in> key ` set xs. non_fqdn (snd k)" "prefixes_disjoint (fst ` key ` set xs)"
    and G: "golibs_ok G" "non_fqdn domain"
    and f: "find (\<lambda>x. key_matches G addr domain (key x)) (sort_stable cmp xs) = Some x"
  shows "x \<in> set xs \<and> best_key G addr domain (key ` set xs) (key x)"
proof -
  have x: "x \<in> set xs" "key_matches G addr domain (key x)" using find_Some_in [OF f] by auto
  have sorted: "sorted_wrt (\<lambda>a b. cmp a b \<le> 0) (sort_stable cmp xs)"
    using xs(1) by (intro cmp_order.sorted_sort_stable [OF ord]) auto
  have least: "cmp x y \<le> 0" if "y \<in> set xs" "key_matches G addr domain (key y)" for y
    using that xs(1) x by (intro cmp_order.find_least [OF ord sorted f]) auto
  have "best_key G addr domain (key ` set xs) (key x)"
  proof (rule least_is_best [OF G xs])
    fix l assume "l \<in> key ` set xs" "key_matches G addr domain l"
    then obtain y where y: "l = key y" "cmp x y \<le> 0" using least by auto
    show "(fst l = PZero \<or> fst (key x) \<noteq> PZero) \<and>
        (fst l = fst (key x) \<longrightarrow> compareDomains (snd (key x)) (snd l) \<le> 0)"
      unfolding y(1) by (rule le [OF y(2)])
  qed (use x in auto)
  with x show ?thesis by simp
qed

lemma find_static_best:
  assumes "conf_wf c" "golibs_ok G" "non_fqdn domain"
    and "find (\<lambda>x. storedClient_matches G x addr domain) (sort_stable storedClient_compare (static_clients c)) = Some x"
  shows "x \<in> set (static_clients c) \<and> best_key G addr domain (sc_key ` set (static_clients c)) (sc_key x)"
  using assms storedClient_compare_le conf_keys [OF assms(1)]
  by (intro find_best [where cmp = storedClient_compare])
    (simp_all add: storedClient_matches_key sc_order.cmp_order_axioms)

lemma find_sac_best:
  assumes "conf_wf c" "golibs_ok G" "non_fqdn domain"
    and "find (\<lambda>x. sac_matches G x addr domain) (sort_stable sac_compare (autodevice_clients c)) = Some x"
  shows "x \<in> set (autodevice_clients c) \<and> best_key G addr domain (sac_key ` set (autodevice_clients c)) (sac_key x)"
  using assms sac_compare_le conf_keys [OF assms(1)]
  by (intro find_best [where cmp = sac_compare])
    (simp_all add: sac_matches_key sac_order.cmp_order_axioms)

section \<open>The invariant\<close>

text \<open>
  What the storage keeps: an identity is stored under its own identifier, which is valid; the
  clients of a configuration are of distinct, identifiable addresses that its prefix contains.
\<close>

definition sac_inv :: "(addr \<Rightarrow> bool) \<Rightarrow> ('o, 'cc) sac \<Rightarrow> bool" where
  "sac_inv identifiable c = (distinct (map fst (sac_clients c)) \<and>
     (\<forall>a \<in> fst ` set (sac_clients c). identifiable a \<and> (sac_prefix c = PZero \<or> pfx_contains (sac_prefix c) a)))"

definition ids_inv :: "(human_id \<times> identity) list \<Rightarrow> bool" where
  "ids_inv m = (distinct (map fst m) \<and> (\<forall>(k, i) \<in> set m. k = ID (id_hid i) \<and> valid_human_id k))"

definition storage_inv :: "('s \<Rightarrow> bool) \<Rightarrow> (addr \<Rightarrow> bool) \<Rightarrow> ('o, 'cc, 's) storage \<Rightarrow> bool" where
  "storage_inv src_inv identifiable d = (src_inv (source d) \<and> ids_inv (identified d) \<and>
     (\<forall>c \<in> set (autodevice d). sac_inv identifiable c))"

lemma storage_invD:
  assumes "storage_inv P identifiable d"
  shows "P (source d)" "ids_inv (identified d)" "c \<in> set (autodevice d) \<Longrightarrow> sac_inv identifiable c"
  using assms by (simp_all add: storage_inv_def)

lemma ids_inv_update:
  assumes "ids_inv m" "k = ID (id_hid i)" "valid_human_id k"
  shows "ids_inv (AList.update k i m)"
proof -
  have "set (AList.update k i m) \<subseteq> insert (k, i) (set m)"
    by (induction m) auto
  moreover have "distinct (map fst (AList.update k i m))"
    using assms(1) by (simp add: ids_inv_def distinct_update)
  ultimately show ?thesis using assms by (fastforce simp: ids_inv_def)
qed

lemma sac_inv_update:
  assumes "sac_inv P c" "P a" "sac_prefix c = PZero \<or> pfx_contains (sac_prefix c) a"
  shows "sac_inv P (c\<lparr>sac_clients := AList.update a x (sac_clients c)\<rparr>)"
  using assms by (auto simp: sac_inv_def distinct_update AList.dom_update)

lemma sac_inv_delete:
  assumes "sac_inv P c"
  shows "sac_inv P (c\<lparr>sac_clients := AList.delete a (sac_clients c)\<rparr>)"
  using assms by (auto simp: sac_inv_def AList.delete_eq intro!: distinct_fst_filter)

lemma upd_sac_simps [simp]:
  "static (upd_sac i f d) = static d" "identified (upd_sac i f d) = identified d"
  "source (upd_sac i f d) = source d" "finalizers (upd_sac i f d) = finalizers d"
  "autodevice (upd_sac i f d) = (autodevice d)[i := f (autodevice d ! i)]"
  by (simp_all add: upd_sac_def)

lemma storage_inv_upd_sac:
  assumes "storage_inv P Q d" "i < length (autodevice d)" "sac_inv Q (f (autodevice d ! i))"
  shows "storage_inv P Q (upd_sac i f d)"
  using assms set_update_subset_insert [of "autodevice d" i "f (autodevice d ! i)"]
  by (auto simp: storage_inv_def)

text \<open>
  The operations, for any source that implements the interface.  The identifier that another
  caller's identification passes through the queue is valid as well.
\<close>

context human_id_source
begin

lemma identify_inv:
  assumes "storage_inv src_inv Q d" "plain_addr addr"
  shows "storage_inv src_inv Q (snd (snd (Storage.identify identify pushed srcNow addr now d)))"
proof -
  obtain res s where eq: "identify addr srcNow (source d) = (res, s)" by (metis surj_pair)
  have s: "src_inv s" using inv_identify [of "source d" addr srcNow] storage_invD(1) [OF assms(1)] eq by simp
  have v: "valid_human_id (ID hid)" if "res = Inr hid" for hid
    using identify_valid [OF storage_invD(1) [OF assms(1)] assms(2)] eq that by simp
  have ids: "ids_inv (AList.update (ID hid) \<lparr>id_addr = addr, id_hid = hid\<rparr> (identified d))"
    if "res = Inr hid" for hid
    using v [OF that] by (intro ids_inv_update [OF storage_invD(2) [OF assms(1)]]) simp_all
  show ?thesis
    using assms(1) eq s ids
    by (auto simp: Storage.identify_def storage_inv_def Let_def split: prod.splits option.splits sum.splits)
qed

lemma identify_result:
  assumes "storage_inv src_inv Q d" "plain_addr addr"
    "fst (Storage.identify identify pushed srcNow addr now d) = Inr hid"
    "\<And>h. pushed = (Some h, None) \<Longrightarrow> valid_human_id (ID h)"
  shows "valid_human_id (ID hid)"
proof -
  obtain res s where eq: "identify addr srcNow (source d) = (res, s)" by (metis surj_pair)
  have v: "valid_human_id (ID hid)" if "res = Inr hid" for hid
    using identify_valid [OF storage_invD(1) [OF assms(1)] assms(2)] eq that by simp
  show ?thesis
    using assms(3,4) eq v
    by (auto simp: Storage.identify_def Let_def split: prod.splits option.splits sum.splits if_splits)
qed

end

lemma identify_frame:
  "autodevice (snd (snd (identify src pushed srcNow addr now d))) = autodevice d"
  "static (snd (snd (identify src pushed srcNow addr now d))) = static d"
  by (auto simp: identify_def Let_def split: prod.splits option.splits sum.splits)

lemma findValid_inv:
  assumes "storage_inv P Q d" "i < length (autodevice d)"
  shows "storage_inv P Q (snd (findValidAutodeviceClient addr i now d))"
proof -
  have "sac_inv Q (autodevice d ! i)" using assms by (intro storage_invD(3) [OF assms(1)]) simp
  then have "storage_inv P Q (upd_sac i (\<lambda>c. c\<lparr>sac_clients := AList.delete addr (sac_clients c)\<rparr>) (d\<lparr>finalizers := x\<rparr>))" for x
    using assms by (intro storage_inv_upd_sac) (simp_all add: storage_inv_def sac_inv_delete)
  with assms(1) show ?thesis by (simp add: findValidAutodeviceClient_def split: option.splits)
qed

lemma findValid_frame:
  "length (autodevice (snd (findValidAutodeviceClient addr i now d))) = length (autodevice d)"
  "i < length (autodevice d) \<Longrightarrow>
    sac_prefix (autodevice (snd (findValidAutodeviceClient addr i now d)) ! i) = sac_prefix (autodevice d ! i)"
  by (simp_all add: findValidAutodeviceClient_def split: option.splits)

context human_id_source
begin

lemma storage_newAutodeviceClient_inv:
  assumes "storage_inv src_inv Q d" "plain_addr addr" "i < length (autodevice d)" "Q addr"
    "sac_prefix (autodevice d ! i) = PZero \<or> pfx_contains (sac_prefix (autodevice d ! i)) addr"
  shows "storage_inv src_inv Q (snd (snd (storage_newAutodeviceClient G U identify ip srcNow addr i now d)))"
proof -
  obtain r out d2 where d2: "Storage.identify identify ip srcNow addr now d = (r, out, d2)" by (metis surj_pair)
  then have inv: "storage_inv src_inv Q d2" "autodevice d2 = autodevice d"
    using identify_inv [OF assms(1,2), of ip srcNow now] identify_frame(1) [of identify ip srcNow addr now d] by simp_all
  then have "sac_inv Q (autodevice d2 ! i)" using assms(3) by (intro storage_invD(3) [OF inv(1)]) simp
  then have "storage_inv src_inv Q (upd_sac i (\<lambda>c. c\<lparr>sac_clients := AList.update addr a (sac_clients c)\<rparr>) d2)" for a
    using inv assms(3-5) by (intro storage_inv_upd_sac sac_inv_update) simp_all
  with inv(1) d2 show ?thesis
    by (simp add: storage_newAutodeviceClient_def Let_def split: sum.splits)
qed

lemma newAutodeviceOrStored_inv:
  assumes "storage_inv src_inv Q d" "plain_addr addr" "i < length (autodevice d)" "Q addr"
    "sac_prefix (autodevice d ! i) = PZero \<or> pfx_contains (sac_prefix (autodevice d ! i)) addr"
  shows "storage_inv src_inv Q (snd (snd (newAutodeviceOrStored G U identify sp ip now srcNow addr i d)))"
proof -
  obtain r d1 where d1: "findValidAutodeviceClient addr i now d = (r, d1)" by (metis surj_pair)
  then have inv: "storage_inv src_inv Q d1"
    using findValid_inv [OF assms(1,3), of addr now] by simp
  have "storage_inv src_inv Q (snd (snd (storage_newAutodeviceClient G U identify ip srcNow addr i now d1)))"
    using assms findValid_frame(1) [of addr i now d] findValid_frame(2) [of i d addr now] d1
    by (intro storage_newAutodeviceClient_inv [OF inv]) simp_all
  with assms(1) inv d1 show ?thesis
    by (auto simp: newAutodeviceOrStored_def split: prod.splits sum.splits option.splits)
qed

lemma Get_inv:
  assumes "storage_inv src_inv Q d" "plain_addr addr"
  shows "storage_inv src_inv Q (snd (snd (Get G U Q identify sp ip now srcNow addr domain d)))"
proof (cases "find_index (\<lambda>sac. sac_matches G sac addr domain) (autodevice d)")
  case (Some i)
  then have i: "i < length (autodevice d)" "sac_matches G (autodevice d ! i) addr domain"
    using find_index_find(1) [OF Some] find_Some_in by fastforce+
  have "storage_inv src_inv Q (snd (snd (newAutodeviceOrStored G U identify sp ip now srcNow addr i d)))" if "Q addr"
    using i(2) by (intro newAutodeviceOrStored_inv [OF assms i(1) that]) (auto simp: sac_matches_def split: if_splits)
  with Some assms(1) show ?thesis by (simp add: Get_def findAutodevice_def split: option.splits)
qed (use assms in \<open>simp add: Get_def findAutodevice_def split: option.splits\<close>)

end

lemma fold_delete_inv: "ids_inv m \<Longrightarrow>
    ids_inv (fold (\<lambda>(_, ident) m. if Until (id_hid ident) < now then AList.delete (ID (id_hid ident)) m else m) xs m)"
proof (induction xs arbitrary: m)
  case (Cons x xs)
  have "ids_inv (AList.delete k m)" for k
    using Cons.prems by (auto simp: ids_inv_def AList.delete_eq intro!: distinct_fst_filter)
  with Cons show ?case by (simp add: case_prod_unfold)
qed simp

lemma cleanExpired_inv:
  assumes "storage_inv P Q d"
  shows "storage_inv P Q (cleanExpired now d)"
proof -
  have "sac_inv Q (fst (cleanExpiredClients now c))" if "sac_inv Q c" for c :: "('o, 'cc) sac"
    using that by (auto simp: sac_inv_def cleanExpiredClients_def intro!: distinct_fst_filter)
  with assms show ?thesis by (auto simp: storage_inv_def cleanExpired_def intro!: fold_delete_inv)
qed

lemma NewDefaultStorage_inv: "P s \<Longrightarrow> storage_inv P Q (NewDefaultStorage c s)"
  by (auto simp: storage_inv_def NewDefaultStorage_def ids_inv_def sac_inv_def autodevice_clients_def)

end
