(* ===== verification/RdnsSource.thy ===== *)
theory RdnsSource
  imports HumanIdSource
begin

text \<open>
  \<open>internal/client/rdnsidsource.go\<close>: the source that names a client by the PTR record of its
  address.  Its state is the cache of answers and the index \<open>existingIDs\<close> of the identifiers in
  use.  The cache is \<open>github.com/patrickmn/go-cache\<close>, the reversed name and the exchange with
  the upstreams are \<open>golibs\<close>, \<open>miekg/dns\<close> and \<open>dnsproxy\<close>: parameters of the model, with the
  documented behaviour of the cache as \<open>gocache_ok\<close>.  The key \<open>addr.String()\<close> of the cache is
  the address itself, since \<open>String\<close> is injective.  The cache has a clock of its own, which is a
  part of its state; times and durations are in nanoseconds.
\<close>

section \<open>The parameters\<close>

text \<open>
  \<open>Get\<close>, \<open>Set\<close> and the janitor's \<open>DeleteExpired\<close> with the items that it gives to the
  \<open>OnEvicted\<close> callback, and the passing of time, by which items expire but stay until the janitor
  removes them.  A cached \<open>None\<close> is the nil \<open>*ValidHumanID\<close>.
\<close>

record 'c gocache =
  cget :: "'c \<Rightarrow> addr \<Rightarrow> vhid option option"
  cset :: "'c \<Rightarrow> addr \<Rightarrow> vhid option \<Rightarrow> int \<Rightarrow> 'c"
  cevict :: "'c \<Rightarrow> (addr \<times> vhid option) list \<times> 'c"
  cwait :: "int \<Rightarrow> 'c \<Rightarrow> 'c"

definition gocache_ok :: "'c gocache \<Rightarrow> bool" where
  "gocache_ok E = (
     (\<forall>c k v d k' x. cget E (cset E c k v d) k' = Some x \<longrightarrow>
        (if k' = k then x = v else cget E c k' = Some x)) \<and>
     (\<forall>c k v d. 0 < d \<longrightarrow> cget E (cset E c k v d) k = Some v) \<and>
     (\<forall>c k x. cget E (snd (cevict E c)) k = Some x \<longrightarrow> cget E c k = Some x) \<and>
     (\<forall>c d k x. 0 \<le> d \<longrightarrow> cget E (cwait E d c) k = Some x \<longrightarrow> cget E c k = Some x))"

text \<open>Setting an item leaves those of the other keys.\<close>

definition gocache_keeps :: "'c gocache \<Rightarrow> bool" where
  "gocache_keeps E = (\<forall>c k v d k'. k' \<noteq> k \<longrightarrow> cget E (cset E c k v d) k' = cget E c k')"

text \<open>A resource record of the answer (\<open>dns.RR\<close>): a PTR record, or another one.\<close>

datatype rr = PTR (rr_ttl: "32 word") (rr_ptr: string) | OtherRR

record dns_msg =
  Rcode :: int
  Answer :: "rr list"

text \<open>The reversed name of an address, \<open>dns.Fqdn\<close>, and the exchange of a PTR query.\<close>

record dns_net =
  reversed_addr :: "addr \<Rightarrow> goerr + string"
  dns_fqdn :: "string \<Rightarrow> string"
  exchange :: "string \<Rightarrow> goerr + dns_msg"

section \<open>The source\<close>

record 'c rdns =
  cache :: 'c
  existingIDs :: "human_id \<rightharpoonup> int"

definition second :: int where "second = 1000000000"

definition defaultCacheTTL :: int where "defaultCacheTTL = 5 * 60 * second"

definition NewRDNSIDSource :: "'c \<Rightarrow> 'c rdns" where
  "NewRDNSIDSource c = \<lparr>cache = c, existingIDs = Map.empty\<rparr>"

text \<open>The \<open>OnEvicted\<close> callback, and the janitor that calls it for every item it removes.\<close>

definition on_evicted :: "addr \<times> vhid option \<Rightarrow> 'c rdns \<Rightarrow> 'c rdns" where
  "on_evicted item r =
     (case snd item of
        None \<Rightarrow> r
      | Some v \<Rightarrow> r\<lparr>existingIDs := (existingIDs r)(ID v := None)\<rparr>)"

definition delete_expired :: "'c gocache \<Rightarrow> 'c rdns \<Rightarrow> 'c rdns" where
  "delete_expired E r =
     (let (items, c) = cevict E (cache r) in fold on_evicted items (r\<lparr>cache := c\<rparr>))"

definition replyFromCache :: "'c gocache \<Rightarrow> addr \<Rightarrow> 'c rdns \<Rightarrow> vhid option \<times> bool" where
  "replyFromCache E addr r =
     (case cget E (cache r) addr of None \<Rightarrow> (None, False) | Some v \<Rightarrow> (v, True))"

definition checkDuplicates ::
  "human_id \<Rightarrow> int \<Rightarrow> int \<Rightarrow> 'c rdns \<Rightarrow> goerr option \<times> 'c rdns" where
  "checkDuplicates hid now ttl r =
     (if (case existingIDs r hid of Some until \<Rightarrow> now < until | None \<Rightarrow> False)
      then (Some ErrDuplicated, r)
      else (None, r\<lparr>existingIDs := (existingIDs r)(hid \<mapsto> now + ttl)\<rparr>))"

text \<open>\<open>time.Duration(ptr.Hdr.Ttl) * time.Second\<close>, in 64 signed bits.\<close>

definition ttl_duration :: "32 word \<Rightarrow> int" where
  "ttl_duration t = sint (ucast t * 1000000000 :: 64 word)"

definition humanIDFromPTR ::
  "golibs \<Rightarrow> 32 word \<Rightarrow> string \<Rightarrow> int \<Rightarrow> 'c rdns \<Rightarrow> (goerr + human_id \<times> int) \<times> 'c rdns" where
  "humanIDFromPTR G hdr_ttl ptr now r =
     (let ttl = ttl_duration hdr_ttl in
      case v_not_empty G ''ptr ttl'' (ttl = 0) of
        Some err \<Rightarrow> (Inl err, r)
      | None \<Rightarrow>
          (case fqdnToHumanID G ptr of
             Inl err \<Rightarrow> (Inl (EWrap (Msg ''converting fqdn'') err), r)
           | Inr hid \<Rightarrow>
               (case checkDuplicates hid now ttl r of
                  (Some err, r') \<Rightarrow> (Inl (EWrap (MsgQ ''human id'' hid) err), r')
                | (None, r') \<Rightarrow> (Inr (hid, ttl), r'))))"

text \<open>
  The loop of \<open>humanIDFromResponse\<close> over the answers from index \<open>i\<close>: the first record that gives
  an identifier ends it.
\<close>

fun answers_loop ::
  "golibs \<Rightarrow> 'c gocache \<Rightarrow> addr \<Rightarrow> int \<Rightarrow> nat \<Rightarrow> goerr option list \<Rightarrow> rr list \<Rightarrow> 'c rdns
     \<Rightarrow> (goerr option list + vhid) \<times> 'c rdns" where
  "answers_loop G E addr now i errs [] r = (Inl errs, r)"
| "answers_loop G E addr now i errs (OtherRR # as) r = answers_loop G E addr now (Suc i) errs as r"
| "answers_loop G E addr now i errs (PTR t p # as) r =
     (case humanIDFromPTR G t p now r of
        (Inl err, r') \<Rightarrow>
          answers_loop G E addr now (Suc i) (errs @ [Some (EWrap (MsgAt ''answer'' i) err)]) as r'
      | (Inr (hid, ttl), r') \<Rightarrow>
          let v = \<lparr>Until = now + ttl, ID = hid\<rparr>
          in (Inr v, r'\<lparr>cache := cset E (cache r') addr (Some v) ttl\<rparr>))"

definition humanIDFromResponse ::
  "golibs \<Rightarrow> 'c gocache \<Rightarrow> dns_msg \<Rightarrow> addr \<Rightarrow> int \<Rightarrow> 'c rdns \<Rightarrow> (goerr + vhid) \<times> 'c rdns" where
  "humanIDFromResponse G E resp addr now r =
     (case answers_loop G E addr now 0 [] (Answer resp) r of
        (Inr v, r') \<Rightarrow> (Inr v, r')
      | (Inl errs, r') \<Rightarrow>
          let r'' = r'\<lparr>cache := cset E (cache r') addr None defaultCacheTTL\<rparr>;
              err = (case errors_join errs of None \<Rightarrow> ErrNoValue | Some err \<Rightarrow> err)
          in (Inl (EWrap (Msg ''ptr responses'') err), r''))"

definition sendDNSRequest ::
  "golibs \<Rightarrow> 'c gocache \<Rightarrow> dns_net \<Rightarrow> addr \<Rightarrow> 'c rdns \<Rightarrow> (goerr + dns_msg) \<times> 'c rdns" where
  "sendDNSRequest G E N addr r =
     (case reversed_addr N addr of
        Inl err \<Rightarrow> (Inl (EWrap (Msg ''reversing addr'') err), r)
      | Inr rAddr \<Rightarrow>
          (case exchange N (dns_fqdn N rAddr) of
             Inl err \<Rightarrow> (Inl (EWrap (Msg ''sending ptr dns request'') err), r)
           | Inr resp \<Rightarrow>
               (case v_equal G ''response code'' (Rcode resp) 0 of
                  Some err \<Rightarrow> (Inl err, r\<lparr>cache := cset E (cache r) addr None defaultCacheTTL\<rparr>)
                | None \<Rightarrow> (Inr resp, r))))"

definition rdns_identify ::
  "golibs \<Rightarrow> 'c gocache \<Rightarrow> dns_net \<Rightarrow> 'c rdns identify_fn" where
  "rdns_identify G E N addr now r =
     (case replyFromCache E addr r of
        (None, True) \<Rightarrow> (Inl (ErrOther ''no valid response was received from dns''), r)
      | (Some v, True) \<Rightarrow> (Inr v, r)
      | (_, False) \<Rightarrow>
          (case sendDNSRequest G E N addr r of
             (Inl err, r') \<Rightarrow> (Inl err, r')
           | (Inr resp, r') \<Rightarrow> humanIDFromResponse G E resp addr now r'))"

section \<open>Durations\<close>

lemma ttl_duration_eq: "ttl_duration t = uint t * second"
proof -
  have "0 \<le> uint t" "uint t < 2 ^ 32" using uint_lt2p [of t] by simp_all
  then have *: "uint t * 1000000000 < 2 ^ 63" by simp
  have "ucast t * 1000000000 = (word_of_int (uint t * 1000000000) :: 64 word)" by simp
  then have "ttl_duration t = sint (word_of_int (uint t * 1000000000) :: 64 word)"
    by (simp only: ttl_duration_def)
  also have "\<dots> = signed_take_bit 63 (uint t * 1000000000)"
    unfolding signed_of_int by simp
  also have "\<dots> = uint t * 1000000000"
    using * \<open>0 \<le> uint t\<close> by (intro signed_take_bit_int_eq_self; linarith)
  finally show ?thesis by (simp add: second_def)
qed

lemma ttl_duration_pos: "0 \<le> ttl_duration t" "ttl_duration t \<noteq> 0 \<Longrightarrow> 0 < ttl_duration t"
  using uint_nonnegative [of t] by (simp_all add: ttl_duration_eq second_def, linarith)

section \<open>What one request does to the state\<close>

definition live :: "int \<Rightarrow> human_id \<Rightarrow> 'c rdns \<Rightarrow> bool" where
  "live now hid r = (case existingIDs r hid of Some until \<Rightarrow> now < until | None \<Rightarrow> False)"

text \<open>The identifier that one record of an answer gives, if any.\<close>

definition usable :: "golibs \<Rightarrow> int \<Rightarrow> 'c rdns \<Rightarrow> rr \<Rightarrow> vhid option" where
  "usable G now r a =
     (case a of
        OtherRR \<Rightarrow> None
      | PTR t p \<Rightarrow>
          (case fqdnToHumanID G p of
             Inl _ \<Rightarrow> None
           | Inr hid \<Rightarrow>
               if t = 0 \<or> live now hid r then None
               else Some \<lparr>Until = now + uint t * second, ID = hid\<rparr>))"

lemma ttl_duration_0: "ttl_duration t = 0 \<longleftrightarrow> t = 0"
  by (simp add: ttl_duration_eq second_def unsigned_eq_0_iff)

text \<open>A record that gives no identifier leaves the state; one that does is indexed.\<close>

lemma humanIDFromPTR_cases:
  fixes now :: int
  assumes "golibs_ok G"
  shows "case usable G now r (PTR t p) of
      None \<Rightarrow> (\<exists>err. humanIDFromPTR G t p now r = (Inl err, r))
    | Some v \<Rightarrow> humanIDFromPTR G t p now r = (Inr (ID v, uint t * second), r\<lparr>existingIDs := (existingIDs r)(ID v \<mapsto> Until v)\<rparr>)
        \<and> Until v = now + uint t * second \<and> 0 < uint t \<and> \<not> live now (ID v) r \<and> valid_human_id (ID v)"
proof -
  have z: "v_not_empty G ''ptr ttl'' (ttl_duration t = 0) = None \<longleftrightarrow> t \<noteq> 0"
    using validate_simps(5) [OF golibs_okD(2) [OF assms]] by (simp add: ttl_duration_0)
  have v: "fqdnToHumanID G p = Inr hid \<Longrightarrow> valid_human_id hid" for hid
    using fqdnToHumanID_Inr [OF assms] .
  show ?thesis
  proof (cases "t = 0")
    case True
    then show ?thesis using z
      by (cases "v_not_empty G ''ptr ttl'' (ttl_duration t = 0)")
        (auto simp: humanIDFromPTR_def usable_def Let_def split: sum.splits)
  next
    case False
    then have "v_not_empty G ''ptr ttl'' (ttl_duration t = 0) = None" "0 < uint t"
      using z by (simp, metis uint_0_iff uint_nonnegative less_le)
    with False v show ?thesis
      by (auto simp: humanIDFromPTR_def usable_def Let_def checkDuplicates_def live_def ttl_duration_eq
          split: sum.splits option.splits)
  qed
qed

lemma answers_loop_usable:
  assumes "golibs_ok G"
  shows "case List.map_filter (usable G now r) as of
      [] \<Rightarrow> (\<exists>errs'. answers_loop G E addr now i errs as r = (Inl errs', r))
    | v # _ \<Rightarrow> answers_loop G E addr now i errs as r =
        (Inr v, r\<lparr>cache := cset E (cache r) addr (Some v) (Until v - now),
           existingIDs := (existingIDs r)(ID v \<mapsto> Until v)\<rparr>)"
proof (induction as arbitrary: i errs)
  case (Cons a as)
  show ?case
  proof (cases a)
    case (PTR t p)
    show ?thesis
    proof (cases "usable G now r a")
      case None
      then obtain err where "humanIDFromPTR G t p now r = (Inl err, r)"
        using humanIDFromPTR_cases [OF assms, where now = now and r = r and t = t and p = p] PTR by auto
      with None PTR Cons.IH [where i = "Suc i" and errs = "errs @ [Some (EWrap (MsgAt ''answer'' i) err)]"] show ?thesis
        by (auto simp: map_filter_simps split: list.splits)
    next
      case (Some v)
      then have "humanIDFromPTR G t p now r = (Inr (ID v, uint t * second), r\<lparr>existingIDs := (existingIDs r)(ID v \<mapsto> Until v)\<rparr>)"
        "Until v = now + uint t * second"
        using humanIDFromPTR_cases [OF assms, where now = now and r = r and t = t and p = p] PTR by auto
      then have "humanIDFromPTR G t p now r = (Inr (ID v, Until v - now), r\<lparr>existingIDs := (existingIDs r)(ID v \<mapsto> Until v)\<rparr>)"
        "now + (Until v - now) = Until v" by simp_all
      then show ?thesis
        using Some PTR by (cases r; cases v) (simp add: map_filter_simps Let_def)
    qed
  next
    case OtherRR
    then have "usable G now r a = None" by (simp add: usable_def)
    with OtherRR Cons.IH [of "Suc i" errs] show ?thesis
      by (auto simp: map_filter_simps split: list.splits)
  qed
qed (simp add: map_filter_simps)

lemma usable_SomeD:
  assumes "golibs_ok G" "usable G now r a = Some v"
  shows "\<not> live now (ID v) r \<and> valid_human_id (ID v) \<and> now < Until v"
proof (cases a)
  case (PTR t p)
  then show ?thesis
    using humanIDFromPTR_cases [OF assms(1), where now = now and r = r and t = t and p = p] assms(2) by (simp add: second_def)
qed (use assms in \<open>simp add: usable_def\<close>)

lemma map_filter_hd: "List.map_filter f xs = v # vs \<Longrightarrow> \<exists>x \<in> set xs. f x = Some v"
  by (induction xs) (auto simp: map_filter_simps split: option.splits)

text \<open>The three outcomes of a request: from the cache or with no change; negative; a new identifier.\<close>

lemma rdns_identify_cases:
  assumes "golibs_ok G" "rdns_identify G E N addr now r = (res, r')"
  obtains (cached) v where "res = Inr v" "r' = r" "cget E (cache r) addr = Some (Some v)"
  | (negative) err where "res = Inl err" "r' = r"
  | (stored) err where "res = Inl err" "r' = r\<lparr>cache := cset E (cache r) addr None defaultCacheTTL\<rparr>"
  | (fresh) v where "res = Inr v" "\<not> live now (ID v) r" "valid_human_id (ID v)" "now < Until v"
      "r' = r\<lparr>cache := cset E (cache r) addr (Some v) (Until v - now),
         existingIDs := (existingIDs r)(ID v \<mapsto> Until v)\<rparr>"
proof (cases "cget E (cache r) addr")
  case (Some c)
  then show ?thesis using assms(2) that(1,2)
    by (auto simp: rdns_identify_def replyFromCache_def split: option.splits)
next
  case None
  show ?thesis
  proof (cases "sendDNSRequest G E N addr r")
    case (Pair q r1)
    show ?thesis
    proof (cases q)
      case (Inl err)
      then show ?thesis using assms(2) None Pair that(2,3)
        by (auto simp: rdns_identify_def replyFromCache_def sendDNSRequest_def
            split: sum.splits option.splits)
    next
      case (Inr resp)
      then have "r1 = r" using Pair by (auto simp: sendDNSRequest_def split: sum.splits option.splits)
      then have res: "(res, r') = humanIDFromResponse G E resp addr now r"
        using assms(2) None Pair Inr by (simp add: rdns_identify_def replyFromCache_def)
      show ?thesis
      proof (cases "List.map_filter (usable G now r) (Answer resp)")
        case Nil
        then obtain errs where "answers_loop G E addr now 0 [] (Answer resp) r = (Inl errs, r)"
          using answers_loop_usable [OF assms(1), where now = now and r = r and as = "Answer resp" and E = E and addr = addr and i = 0 and errs = "[]"] by auto
        then show ?thesis using res that(3) by (simp add: humanIDFromResponse_def Let_def)
      next
        case (Cons v vs)
        then have "answers_loop G E addr now 0 [] (Answer resp) r =
            (Inr v, r\<lparr>cache := cset E (cache r) addr (Some v) (Until v - now),
               existingIDs := (existingIDs r)(ID v \<mapsto> Until v)\<rparr>)"
          using answers_loop_usable [OF assms(1), where now = now and r = r and as = "Answer resp" and E = E and addr = addr and i = 0 and errs = "[]"] by simp
        then have eqs: "res = Inr v" "r' = r\<lparr>cache := cset E (cache r) addr (Some v) (Until v - now),
               existingIDs := (existingIDs r)(ID v \<mapsto> Until v)\<rparr>"
          using res by (simp_all add: humanIDFromResponse_def)
        obtain a where "usable G now r a = Some v" using map_filter_hd [OF Cons] by blast
        then show ?thesis
          using usable_SomeD [OF assms(1), where a = a] by (intro that(4) [OF eqs(1) _ _ _ eqs(2)]) blast+
      qed
    qed
  qed
qed

text \<open>An identifier that is not from the cache is made from a PTR record of the answer for the address.\<close>

lemma rdns_answer:
  assumes "golibs_ok G" "rdns_identify G E N a t r = (Inr v, r')" "cget E (cache r) a = None"
  obtains name resp ttl p where "reversed_addr N a = Inr name" "exchange N (dns_fqdn N name) = Inr resp"
    "PTR ttl p \<in> set (Answer resp)" "fqdnToHumanID G p = Inr (ID v)" "t < Until v"
    "cache r' = cset E (cache r) a (Some v) (Until v - t)"
proof -
  obtain name resp where s: "reversed_addr N a = Inr name" "exchange N (dns_fqdn N name) = Inr resp"
      "humanIDFromResponse G E resp a t r = (Inr v, r')"
    using assms(2,3) by (auto simp: rdns_identify_def replyFromCache_def sendDNSRequest_def split: prod.splits sum.splits option.splits)
  note loop = answers_loop_usable [OF assms(1), where now = t and r = r and as = "Answer resp" and E = E and addr = a and i = 0 and errs = "[]"]
  obtain us where us: "List.map_filter (usable G t r) (Answer resp) = v # us"
      "cache r' = cset E (cache r) a (Some v) (Until v - t)"
    using loop s(3) by (auto simp: humanIDFromResponse_def Let_def split: list.splits prod.splits sum.splits)
  obtain x where x: "x \<in> set (Answer resp)" "usable G t r x = Some v" using map_filter_hd [OF us(1)] by blast
  obtain ttl p where p: "x = PTR ttl p" "fqdnToHumanID G p = Inr (ID v)"
    using x(2) by (auto simp: usable_def split: rr.splits sum.splits if_splits)
  show thesis using that [OF s(1,2)] x(1) p us(2) usable_SomeD [OF assms(1) x(2)] by blast
qed

section \<open>The interface of a source\<close>

definition rdns_inv :: "golibs \<Rightarrow> 'c gocache \<Rightarrow> 'c rdns \<Rightarrow> bool" where
  "rdns_inv G E r = (golibs_ok G \<and> gocache_ok E \<and>
     (\<forall>a v. cget E (cache r) a = Some (Some v) \<longrightarrow> valid_human_id (ID v)))"

lemma gocache_okD:
  assumes "gocache_ok E"
  shows "cget E (cset E c k v d) k' = Some x \<Longrightarrow> (if k' = k then x = v else cget E c k' = Some x)"
    "0 < d \<Longrightarrow> cget E (cset E c k v d) k = Some v"
    "cget E (snd (cevict E c)) k = Some x \<Longrightarrow> cget E c k = Some x"
    "0 \<le> w \<Longrightarrow> cget E (cwait E w c) k = Some x \<Longrightarrow> cget E c k = Some x"
  using assms unfolding gocache_ok_def by blast+

text \<open>What a request leaves in the cache was there before or is its own answer.\<close>

lemma rdns_cache_new:
  assumes "golibs_ok G" "gocache_ok E" "rdns_identify G E N a t r = (res, r')" "cget E (cache r') b = Some (Some w)"
  shows "cget E (cache r) b = Some (Some w) \<or> b = a \<and> res = Inr w"
  using assms(1,3)
proof (cases rule: rdns_identify_cases)
  case (stored err)
  with assms(4) gocache_okD(1) [OF assms(2), of "cache r" a None defaultCacheTTL b "Some w"] show ?thesis
    by (cases "b = a") simp_all
next
  case (fresh v)
  with assms(4) gocache_okD(1) [OF assms(2), of "cache r" a "Some v" "Until v - t" b "Some w"] show ?thesis
    by (cases "b = a") simp_all
qed (use assms(4) in simp_all)

lemma rdns_inv_set:
  assumes "rdns_inv G E r" "\<forall>v. x = Some v \<longrightarrow> valid_human_id (ID v)"
  shows "rdns_inv G E (r\<lparr>cache := cset E (cache r) addr x d, existingIDs := m\<rparr>)"
proof -
  have "valid_human_id (ID v)" if "cget E (cset E (cache r) addr x d) a = Some (Some v)" for a v
  proof (cases "a = addr")
    case True
    then show ?thesis
      using that gocache_okD(1) [of E "cache r" addr x d a "Some v"] assms by (auto simp: rdns_inv_def)
  next
    case False
    then have "cget E (cache r) a = Some (Some v)"
      using that gocache_okD(1) [of E "cache r" addr x d a "Some v"] assms by (auto simp: rdns_inv_def)
    then show ?thesis using assms(1) by (simp add: rdns_inv_def)
  qed
  with assms(1) show ?thesis by (simp add: rdns_inv_def)
qed

interpretation rdns_src: human_id_source "rdns_identify G E N" "rdns_inv G E" for G E N
proof
  fix s and a now
  assume *: "rdns_inv G E s"
  obtain res s' where eq: "rdns_identify G E N a now s = (res, s')" by (metis surj_pair)
  have G: "golibs_ok G" using * by (simp add: rdns_inv_def)
  from G eq have "rdns_inv G E s'"
  proof (cases rule: rdns_identify_cases)
    case (stored err)
    have "s\<lparr>cache := c\<rparr> = s\<lparr>cache := c, existingIDs := existingIDs s\<rparr>" for c by simp
    with stored * rdns_inv_set [OF *, where x = None and addr = a and d = defaultCacheTTL and m = "existingIDs s"] show ?thesis by simp
  next
    case (fresh v)
    with * rdns_inv_set [OF *, where x = "Some v"] show ?thesis by simp
  qed (use * in simp_all)
  with eq show "rdns_inv G E (snd (rdns_identify G E N a now s))" by simp
next
  fix s and a now v s'
  assume *: "rdns_inv G E s" and eq: "rdns_identify G E N a now s = (Inr v, s')"
  have "golibs_ok G" using * by (simp add: rdns_inv_def)
  from this eq show "valid_human_id (ID v)"
    by (cases rule: rdns_identify_cases) (use * in \<open>auto simp: rdns_inv_def\<close>)
qed

section \<open>No two addresses with one identifier\<close>

text \<open>
  What the index is for: an identifier that the cache holds for an address is indexed for at
  least as long, and no two addresses hold one identifier at the same time.
\<close>

definition rdns_uniq :: "'c gocache \<Rightarrow> int \<Rightarrow> 'c rdns \<Rightarrow> bool" where
  "rdns_uniq E now r = (
     (\<forall>a v. cget E (cache r) a = Some (Some v) \<longrightarrow> now < Until v \<longrightarrow>
        (\<exists>u. existingIDs r (ID v) = Some u \<and> Until v \<le> u)) \<and>
     (\<forall>a b v w. cget E (cache r) a = Some (Some v) \<longrightarrow> cget E (cache r) b = Some (Some w) \<longrightarrow>
        ID v = ID w \<longrightarrow> now < Until v \<longrightarrow> now < Until w \<longrightarrow> a = b))"

lemma rdns_uniqD:
  assumes "rdns_uniq E now r" "cget E (cache r) a = Some (Some v)" "now < Until v"
  shows "\<exists>u. existingIDs r (ID v) = Some u \<and> Until v \<le> u"
    "cget E (cache r) b = Some (Some w) \<Longrightarrow> ID v = ID w \<Longrightarrow> now < Until w \<Longrightarrow> a = b"
  using assms unfolding rdns_uniq_def by blast+

lemma rdns_uniq_later:
  assumes "rdns_uniq E now r" "now \<le> t"
  shows "rdns_uniq E t r"
  using assms unfolding rdns_uniq_def by (meson le_less_trans)

lemma rdns_uniq_fresh:
  assumes "gocache_ok E" "rdns_uniq E now r" "\<not> live now (ID v) r" "now < Until v"
  shows "rdns_uniq E now (r\<lparr>cache := cset E (cache r) addr (Some v) d,
    existingIDs := (existingIDs r)(ID v \<mapsto> Until v)\<rparr>)" (is "rdns_uniq E now ?r")
proof -
  have old: "cget E (cache ?r) a = Some (Some w) \<Longrightarrow> a = addr \<and> w = v \<or> cget E (cache r) a = Some (Some w) \<and> a \<noteq> addr"
    for a w using gocache_okD(1) [OF assms(1), of "cache r" addr "Some v" d a "Some w"]
    by (auto split: if_splits)
  have other: "ID w \<noteq> ID v" if "cget E (cache r) a = Some (Some w)" "now < Until w" for a w
  proof
    assume "ID w = ID v"
    with rdns_uniqD(1) [OF assms(2) that] that(2)
    have "\<exists>u. existingIDs r (ID v) = Some u \<and> now < u" by (metis less_le_trans)
    with assms(3) show False by (auto simp: live_def)
  qed
  show ?thesis
    unfolding rdns_uniq_def
  proof (intro conjI allI impI)
    fix a w assume *: "cget E (cache ?r) a = Some (Some w)" "now < Until w"
    show "\<exists>u. existingIDs ?r (ID w) = Some u \<and> Until w \<le> u"
      using old [OF *(1)] other [of a w] rdns_uniqD(1) [OF assms(2), of a w] *(2) by auto
  next
    fix a b w x
    assume *: "cget E (cache ?r) a = Some (Some w)" "cget E (cache ?r) b = Some (Some x)" "ID w = ID x"
      "now < Until w" "now < Until x"
    show "a = b"
      using old [OF *(1)] old [OF *(2)] other [of a w] other [of b x] *(3-5)
        rdns_uniqD(2) [OF assms(2), of a w b x] by auto
  qed
qed

lemma rdns_uniq_stored:
  assumes "gocache_ok E" "rdns_uniq E now r"
  shows "rdns_uniq E now (r\<lparr>cache := cset E (cache r) addr None d\<rparr>)"
proof -
  have "cget E (cset E (cache r) addr None d) a = Some (Some w) \<Longrightarrow> cget E (cache r) a = Some (Some w)" for a w
    using gocache_okD(1) [OF assms(1), of "cache r" addr None d a "Some w"] by (auto split: if_splits)
  then show ?thesis using assms(2) unfolding rdns_uniq_def by simp blast
qed

lemma rdns_uniq_identify:
  assumes "golibs_ok G" "gocache_ok E" "rdns_uniq E now r" "now \<le> t"
  shows "rdns_uniq E t (snd (rdns_identify G E N addr t r))"
proof -
  obtain res r' where eq: "rdns_identify G E N addr t r = (res, r')" by (metis surj_pair)
  note u = rdns_uniq_later [OF assms(3,4)]
  from assms(1) eq have "rdns_uniq E t r'"
    by (cases rule: rdns_identify_cases)
      (use u rdns_uniq_fresh [OF assms(2) u] rdns_uniq_stored [OF assms(2) u] in simp_all)
  with eq show ?thesis by simp
qed

text \<open>
  The callback drops the index entry of an evicted identifier.  That is right when no address
  that stays in the cache holds the identifier.
\<close>

definition evict_safe :: "'c gocache \<Rightarrow> int \<Rightarrow> 'c rdns \<Rightarrow> bool" where
  "evict_safe E now r = (\<forall>k v b w. (k, Some v) \<in> set (fst (cevict E (cache r))) \<longrightarrow>
     cget E (snd (cevict E (cache r))) b = Some (Some w) \<longrightarrow> ID w = ID v \<longrightarrow> Until w \<le> now)"

lemma evict_safeD:
  assumes "evict_safe E now r" "(k, Some v) \<in> set (fst (cevict E (cache r)))"
    "cget E (snd (cevict E (cache r))) b = Some (Some w)" "ID w = ID v"
  shows "Until w \<le> now"
  using assms unfolding evict_safe_def by blast

lemma fold_on_evicted:
  "cache (fold on_evicted items r) = cache r \<and>
   existingIDs (fold on_evicted items r) hid =
     (if \<exists>k v. (k, Some v) \<in> set items \<and> ID v = hid then None else existingIDs r hid)"
proof (induction items arbitrary: r)
  case (Cons item items)
  show ?case
    using Cons.IH [of "on_evicted item r"]
    by (cases item) (auto simp: on_evicted_def split: option.splits)
qed simp

lemma rdns_uniq_evict:
  assumes "gocache_ok E" "rdns_uniq E now r" "evict_safe E now r"
  shows "rdns_uniq E now (delete_expired E r)"
proof -
  let ?items = "fst (cevict E (cache r))" and ?c = "snd (cevict E (cache r))"
  let ?r = "delete_expired E r"
  have c: "cache ?r = ?c" by (simp add: delete_expired_def case_prod_beta fold_on_evicted)
  have ex: "existingIDs ?r hid = (if \<exists>k v. (k, Some v) \<in> set ?items \<and> ID v = hid then None else existingIDs r hid)" for hid
    using fold_on_evicted [of ?items "r\<lparr>cache := ?c\<rparr>"]
    by (auto simp: delete_expired_def case_prod_beta)
  show ?thesis
    unfolding rdns_uniq_def
  proof (intro conjI allI impI)
    fix a w assume *: "cget E (cache ?r) a = Some (Some w)" "now < Until w"
    have "cget E (cache r) a = Some (Some w)"
      using *(1) unfolding c by (rule gocache_okD(3) [OF assms(1)])
    moreover have "\<not> (\<exists>k v. (k, Some v) \<in> set ?items \<and> ID v = ID w)"
    proof
      assume "\<exists>k v. (k, Some v) \<in> set ?items \<and> ID v = ID w"
      then obtain k v where kv: "(k, Some v) \<in> set ?items" "ID v = ID w" by blast
      have "cget E ?c a = Some (Some w)" using *(1) unfolding c .
      then have "Until w \<le> now" by (rule evict_safeD [OF assms(3) kv(1) _ kv(2) [symmetric]])
      with *(2) show False by simp
    qed
    ultimately show "\<exists>u. existingIDs ?r (ID w) = Some u \<and> Until w \<le> u"
      using rdns_uniqD(1) [OF assms(2)] *(2) by (simp add: ex)
  next
    fix a b w x
    assume *: "cget E (cache ?r) a = Some (Some w)" "cget E (cache ?r) b = Some (Some x)" "ID w = ID x"
      "now < Until w" "now < Until x"
    have "cget E (cache r) a = Some (Some w)"
      using *(1) unfolding c by (rule gocache_okD(3) [OF assms(1)])
    moreover have "cget E (cache r) b = Some (Some x)"
      using *(2) unfolding c by (rule gocache_okD(3) [OF assms(1)])
    ultimately show "a = b" using rdns_uniqD(2) [OF assms(2)] *(3-5) by blast
  qed
qed

lemma rdns_uniq_clock:
  assumes "rdns_uniq E now r" "\<forall>k x. cget E c k = Some x \<longrightarrow> cget E (cache r) k = Some x"
  shows "rdns_uniq E now (r\<lparr>cache := c\<rparr>)"
  using assms unfolding rdns_uniq_def by simp blast

text \<open>
  The runs of the source: requests at times that do not decrease, evictions, and the passing of
  time in the cache, by which items expire.  A request is one step; with \<open>safe\<close> the evictions
  are restricted to those of identifiers that no other address holds.
\<close>

inductive rdns_run :: "golibs \<Rightarrow> 'c gocache \<Rightarrow> bool \<Rightarrow> int \<Rightarrow> 'c rdns \<Rightarrow> bool"
  for G :: golibs and E :: "'c gocache" and safe :: bool where
  init: "\<forall>a. cget E c a = None \<Longrightarrow> rdns_run G E safe now (NewRDNSIDSource c)"
| request: "rdns_run G E safe now r \<Longrightarrow> now \<le> t \<Longrightarrow>
    rdns_run G E safe t (snd (rdns_identify G E N addr t r))"
| evict: "rdns_run G E safe now r \<Longrightarrow> now \<le> t \<Longrightarrow> safe \<longrightarrow> evict_safe E t r \<Longrightarrow>
    rdns_run G E safe t (delete_expired E r)"
| clock: "rdns_run G E safe now r \<Longrightarrow> now \<le> t \<Longrightarrow> 0 \<le> d \<Longrightarrow>
    rdns_run G E safe t (r\<lparr>cache := cwait E d (cache r)\<rparr>)"

lemma rdns_run_uniq:
  assumes "rdns_run G E True now r" "golibs_ok G" "gocache_ok E"
  shows "rdns_uniq E now r"
  using assms
proof (induction rule: rdns_run.induct)
  case (init c now)
  then show ?case by (simp add: rdns_uniq_def NewRDNSIDSource_def)
next
  case (request now r t N addr)
  then show ?case by (auto intro: rdns_uniq_identify)
next
  case (evict now r t)
  then show ?case by (auto intro: rdns_uniq_evict rdns_uniq_later)
next
  case (clock now r t d)
  then have "rdns_uniq E t r" by (blast intro: rdns_uniq_later)
  then show ?case by (rule rdns_uniq_clock) (use gocache_okD(4) [OF clock.prems(2) clock.hyps(3)] in blast)
qed

section \<open>A concrete cache\<close>

text \<open>
  A cache with the documented behaviour for concrete runs: the wall clock and the items with
  their expiry, one for each key.
\<close>

type_synonym ref_cache = "int \<times> (addr \<times> vhid option \<times> int) list"

definition ref_live :: "ref_cache \<Rightarrow> addr \<Rightarrow> bool" where
  "ref_live c k = (case map_of (snd c) k of None \<Rightarrow> False | Some (v, e) \<Rightarrow> fst c < e)"

definition ref_gocache :: "ref_cache gocache" where
  "ref_gocache = \<lparr>
     cget = (\<lambda>c k. if ref_live c k then map_option fst (map_of (snd c) k) else None),
     cset = (\<lambda>c k v d. (fst c, (k, v, fst c + d) # filter (\<lambda>(k', _). k' \<noteq> k) (snd c))),
     cevict = (\<lambda>c. (map (\<lambda>(k, v, e). (k, v)) (filter (\<lambda>(k, _). \<not> ref_live c k) (snd c)),
       (fst c, filter (\<lambda>(k, _). ref_live c k) (snd c)))),
     cwait = (\<lambda>d c. (fst c + d, snd c)) \<rparr>"

definition wait_cache :: "int \<Rightarrow> ref_cache rdns \<Rightarrow> ref_cache rdns" where
  "wait_cache d r = r\<lparr>cache := cwait ref_gocache d (cache r)\<rparr>"

lemma map_of_filter_fst: "map_of (filter (\<lambda>(k, _). P k) items) k = (if P k then map_of items k else None)"
  by (induction items) auto

lemma ref_gocache_ok: "gocache_ok ref_gocache"
  by (auto simp: gocache_ok_def ref_gocache_def ref_live_def map_of_filter_fst split: option.splits if_splits)

lemma ref_gocache_keeps: "gocache_keeps ref_gocache"
  by (auto simp: gocache_keeps_def ref_gocache_def ref_live_def map_of_filter_fst split: option.splits)

definition ref_net :: "string \<Rightarrow> 32 word \<Rightarrow> dns_net" where
  "ref_net name t = \<lparr>reversed_addr = (\<lambda>_. Inr ''in-addr.arpa''), dns_fqdn = (\<lambda>s. s @ [dot]),
     exchange = (\<lambda>_. Inr \<lparr>Rcode = 0, Answer = [PTR t name]\<rparr>)\<rparr>"

section \<open>Properties\<close>

text \<open>
  The \<open>time.Duration\<close> of a TTL, computed in 64 signed bits, never wraps: it is the TTL in
  nanoseconds.
\<close>

lemma ptr_ttl_exact: "ttl_duration t = uint t * 1000000000"
  by (simp add: ttl_duration_eq second_def)

text \<open>
  The first PTR record of an answer that has a TTL, converts to an identifier and is not taken
  by a live entry of the index names the address until its TTL; the identifier is indexed and
  cached.  With no such record the request fails, the index stays and the failure is cached for
  five minutes.
\<close>

lemma humanIDFromResponse_first:
  assumes "golibs_ok G"
  shows "case List.map_filter (usable G now r) (Answer resp) of
      [] \<Rightarrow> (\<exists>err. humanIDFromResponse G E resp addr now r =
        (Inl err, r\<lparr>cache := cset E (cache r) addr None defaultCacheTTL\<rparr>))
    | v # _ \<Rightarrow> humanIDFromResponse G E resp addr now r =
        (Inr v, r\<lparr>cache := cset E (cache r) addr (Some v) (Until v - now),
           existingIDs := (existingIDs r)(ID v \<mapsto> Until v)\<rparr>)"
  using answers_loop_usable [OF assms, where now = now and r = r and as = "Answer resp" and E = E
      and addr = addr and i = 0 and errs = "[]"]
  by (auto simp: humanIDFromResponse_def Let_def split: list.splits)

lemma humanIDFromResponse_first_witness:
  "fst (humanIDFromResponse ref_golibs ref_gocache
      \<lparr>Rcode = 0, Answer = [OtherRR, PTR 0 ''a.lan.'', PTR 60 ''b.lan.'', PTR 60 ''c.lan.'']\<rparr>
      (A4 0xC0A80001) 0 (NewRDNSIDSource (0, [])))
    = Inr \<lparr>Until = 60000000000, ID = ''b-lan''\<rparr>"
proof -
  have *: "List.map_filter (usable ref_golibs 0 (NewRDNSIDSource (0 :: int, [])))
      (Answer \<lparr>Rcode = 0, Answer = [OtherRR, PTR 0 ''a.lan.'', PTR 60 ''b.lan.'', PTR 60 ''c.lan.'']\<rparr>)
    = [\<lparr>Until = 60000000000, ID = ''b-lan''\<rparr>, \<lparr>Until = 60000000000, ID = ''c-lan''\<rparr>]"
    by code_simp
  show ?thesis
    using humanIDFromResponse_first [OF ref_golibs_ok, where now = 0 and r = "NewRDNSIDSource (0, [])"
        and resp = "\<lparr>Rcode = 0, Answer = [OtherRR, PTR 0 ''a.lan.'', PTR 60 ''b.lan.'', PTR 60 ''c.lan.'']\<rparr>"
        and E = ref_gocache and addr = "A4 0xC0A80001"]
    unfolding * by simp
qed

text \<open>
  After a request whose result is stored the next request for the address makes no exchange,
  whatever the network would answer: an identifier is returned again with the same expiry, and a
  failure fails at once, with the state left alone.
\<close>

lemma rdns_identify_again:
  assumes "golibs_ok G" "gocache_ok E" "rdns_identify G E N addr now r = (res, r')" "r' \<noteq> r"
  shows "rdns_identify G E N' addr now' r' =
    (case res of Inr v \<Rightarrow> Inr v
     | Inl _ \<Rightarrow> Inl (ErrOther ''no valid response was received from dns''), r')"
  using assms(1,3)
proof (cases rule: rdns_identify_cases)
  case (stored err)
  then show ?thesis
    using gocache_okD(2) [OF assms(2), of defaultCacheTTL "cache r" addr None]
    by (simp add: rdns_identify_def replyFromCache_def defaultCacheTTL_def second_def)
next
  case (fresh v)
  then show ?thesis
    using gocache_okD(2) [OF assms(2), of "Until v - now" "cache r" addr "Some v"]
    by (simp add: rdns_identify_def replyFromCache_def)
qed (use assms(4) in simp_all)

text \<open>
  As long as the janitor never evicts an identifier that another address holds, no two
  addresses hold one identifier at the same time, whatever the answers of the network.
\<close>

lemma rdns_ids_unique:
  assumes "rdns_run G E True now r" "golibs_ok G" "gocache_ok E"
    "cget E (cache r) a = Some (Some v)" "cget E (cache r) b = Some (Some w)" "a \<noteq> b"
    "now < Until v" "now < Until w"
  shows "ID v \<noteq> ID w"
  using rdns_uniqD(2) [OF rdns_run_uniq [OF assms(1-3)] assms(4,7)] assms(5-8) by blast


text \<open>Two addresses named at time 0, in two requests.\<close>

definition ref_request :: "addr \<Rightarrow> string \<Rightarrow> 32 word \<Rightarrow> int \<Rightarrow> ref_cache rdns \<Rightarrow> ref_cache rdns" where
  "ref_request addr name t now r = snd (rdns_identify ref_golibs ref_gocache (ref_net name t) addr now r)"

lemma rdns_run_ref_request:
  "rdns_run ref_golibs ref_gocache safe now r \<Longrightarrow> now \<le> t \<Longrightarrow>
    rdns_run ref_golibs ref_gocache safe t (ref_request addr name ttl t r)"
  unfolding ref_request_def by (rule rdns_run.request)

lemma rdns_run_wait:
  assumes "rdns_run ref_golibs ref_gocache safe now r" "0 \<le> d"
  shows "rdns_run ref_golibs ref_gocache safe (now + d) (wait_cache d r)"
  unfolding wait_cache_def by (rule rdns_run.clock [OF assms(1) _ assms(2)]) (use assms(2) in simp)

lemma rdns_run_ref_init: "rdns_run ref_golibs ref_gocache safe now (NewRDNSIDSource (0, []))"
  by (rule rdns_run.init) (simp add: ref_gocache_def ref_live_def)

lemma rdns_ids_unique_witness: "''a-lan'' \<noteq> ''b-lan'' \<and>
  rdns_run ref_golibs ref_gocache True 0
    (ref_request (A4 2) ''b.lan.'' 60 0 (ref_request (A4 1) ''a.lan.'' 60 0 (NewRDNSIDSource (0, []))))"
    (is "_ \<and> rdns_run _ _ _ _ ?r")
proof -
  have run: "rdns_run ref_golibs ref_gocache True 0 ?r"
    by (intro rdns_run_ref_request [OF rdns_run_ref_request [OF rdns_run_ref_init [where now = 0]]]) simp_all
  have "cget ref_gocache (cache ?r) (A4 1) = Some (Some \<lparr>Until = 60000000000, ID = ''a-lan''\<rparr>)" by code_simp
  moreover have "cget ref_gocache (cache ?r) (A4 2) = Some (Some \<lparr>Until = 60000000000, ID = ''b-lan''\<rparr>)" by code_simp
  ultimately show ?thesis
    using rdns_ids_unique [OF run ref_golibs_ok ref_gocache_ok] run by fastforce
qed

lemma rdns_identify_again_witness:
  "fst (rdns_identify ref_golibs ref_gocache (ref_net ''other.lan.'' 5) (A4 1) 7
     (ref_request (A4 1) ''a.lan.'' 60 0 (NewRDNSIDSource (0, [])))) = Inr \<lparr>Until = 60000000000, ID = ''a-lan''\<rparr>"
proof -
  have 1: "fst (rdns_identify ref_golibs ref_gocache (ref_net ''a.lan.'' 60) (A4 1) 0 (NewRDNSIDSource (0, [])))
      = Inr \<lparr>Until = 60000000000, ID = ''a-lan''\<rparr>" by code_simp
  have "snd (cache (ref_request (A4 1) ''a.lan.'' 60 0 (NewRDNSIDSource (0, [])))) \<noteq> []" by code_simp
  then have 2: "snd (rdns_identify ref_golibs ref_gocache (ref_net ''a.lan.'' 60) (A4 1) 0 (NewRDNSIDSource (0, [])))
      \<noteq> NewRDNSIDSource (0, [])" by (auto simp: ref_request_def NewRDNSIDSource_def)
  show ?thesis
    using rdns_identify_again [OF ref_golibs_ok ref_gocache_ok prod.collapse [symmetric] 2]
    by (simp add: 1 ref_request_def)
qed

text \<open>A request whose answer has one PTR record.\<close>

lemma identify_one_record:
  assumes "golibs_ok G" "cget E (cache r) a = None" "reversed_addr N a = Inr ra"
    "exchange N (dns_fqdn N ra) = Inr \<lparr>Rcode = 0, Answer = [PTR ttl name]\<rparr>"
    "fqdnToHumanID G name = Inr hid" "ttl \<noteq> 0"
  shows "if live now hid r then \<exists>err r'. rdns_identify G E N a now r = (Inl err, r')
    else let v = \<lparr>Until = now + uint ttl * second, ID = hid\<rparr> in
      rdns_identify G E N a now r = (Inr v, r\<lparr>cache := cset E (cache r) a (Some v) (Until v - now),
        existingIDs := (existingIDs r)(hid \<mapsto> Until v)\<rparr>)"
proof -
  have v: "v_equal G ''response code'' (0 :: int) 0 = None" using validate_simps [OF golibs_okD(2) [OF assms(1)]] by simp
  have u: "usable G now r (PTR ttl name) = (if live now hid r then None else Some \<lparr>Until = now + uint ttl * second, ID = hid\<rparr>)"
    using assms(5,6) by (simp add: usable_def)
  have "rdns_identify G E N a now r = humanIDFromResponse G E \<lparr>Rcode = 0, Answer = [PTR ttl name]\<rparr> a now r"
    using assms(2-4) v by (simp add: rdns_identify_def replyFromCache_def sendDNSRequest_def)
  with u humanIDFromResponse_first [OF assms(1), where now = now and r = r and resp = "\<lparr>Rcode = 0, Answer = [PTR ttl name]\<rparr>"
      and E = E and addr = a]
  show ?thesis by (auto simp: map_filter_simps Let_def)
qed

text \<open>What the janitor leaves.\<close>

lemma delete_expired_state:
  "cache (delete_expired E r) = snd (cevict E (cache r))"
  "existingIDs (delete_expired E r) hid =
     (if \<exists>k v. (k, Some v) \<in> set (fst (cevict E (cache r))) \<and> ID v = hid then None else existingIDs r hid)"
  using fold_on_evicted [of "fst (cevict E (cache r))" "r\<lparr>cache := snd (cevict E (cache r))\<rparr>"]
  by (auto simp: delete_expired_def case_prod_beta)

text \<open>
  C23: The index does not keep identifiers apart once the janitor, which runs once a minute, evicts
  the expired item of an address whose identifier another address has taken since.  Until then, in a
  run without such an eviction, a request for the address of a third device that answers with this
  name is refused.  The eviction drops the index entry of the second address, and the same request then
  gives the third address the identifier, while the second one still holds it.
\<close>

lemma rdns_late_eviction:
  assumes "golibs_ok G" "gocache_ok E" "gocache_keeps E" "rdns_run G E True now r"
    "(a1, Some v1) \<in> set (fst (cevict E (cache r)))"
    "cget E (snd (cevict E (cache r))) a2 = Some (Some v2)" "ID v2 = ID v1" "now < Until v2"
    "cget E (cache r) a3 = None" "reversed_addr N a3 = Inr ra"
    "exchange N (dns_fqdn N ra) = Inr \<lparr>Rcode = 0, Answer = [PTR ttl name]\<rparr>"
    "fqdnToHumanID G name = Inr (ID v1)" "ttl \<noteq> 0"
  shows "(\<exists>err r'. rdns_identify G E N a3 now r = (Inl err, r')) \<and>
    existingIDs r (ID v2) \<noteq> None \<and> existingIDs (delete_expired E r) (ID v2) = None \<and>
    (\<exists>v3 r'. rdns_identify G E N a3 now (delete_expired E r) = (Inr v3, r') \<and> ID v3 = ID v2 \<and> a3 \<noteq> a2 \<and>
       cget E (cache r') a2 = Some (Some v2) \<and> now < Until v2 \<and> cget E (cache r') a3 = Some (Some v3) \<and> now < Until v3)"
proof -
  let ?d = "delete_expired E r" and ?v3 = "\<lparr>Until = now + uint ttl * second, ID = ID v1\<rparr>"
  have a2: "cget E (cache r) a2 = Some (Some v2)" by (rule gocache_okD(3) [OF assms(2,6)])
  have u: "rdns_uniq E now r" by (rule rdns_run_uniq [OF assms(4,1,2)])
  obtain until where until: "existingIDs r (ID v2) = Some until" "Until v2 \<le> until"
    using rdns_uniqD(1) [OF u a2 assms(8)] by blast
  then have "live now (ID v1) r" using assms(7,8) by (simp add: live_def)
  with identify_one_record [OF assms(1,9-13), of now] have refused: "\<exists>err r'. rdns_identify G E N a3 now r = (Inl err, r')" by simp
  have gone: "existingIDs ?d (ID v1) = None" using assms(5) by (auto simp: delete_expired_state(2))
  have "cget E (cache ?d) a3 = None"
    using gocache_okD(3) [OF assms(2), of "cache r" a3] assms(9) by (cases "cget E (cache ?d) a3") (auto simp: delete_expired_state(1))
  from identify_one_record [OF assms(1) this assms(10-13), of now] gone
  have id3: "rdns_identify G E N a3 now ?d = (Inr ?v3, ?d\<lparr>cache := cset E (cache ?d) a3 (Some ?v3) (Until ?v3 - now),
      existingIDs := (existingIDs ?d)(ID v1 \<mapsto> Until ?v3)\<rparr>)" by (simp add: live_def Let_def)
  have "0 < uint ttl" using assms(13) by (simp add: order_less_le unsigned_eq_0_iff)
  then have pos: "now < Until ?v3" by (simp add: second_def)
  have ne: "a3 \<noteq> a2" using a2 assms(9) by auto
  have "cget E (cset E (cache ?d) a3 (Some ?v3) (Until ?v3 - now)) a2 = Some (Some v2)"
    using assms(3,6) ne by (simp add: gocache_keeps_def delete_expired_state(1))
  moreover have "cget E (cset E (cache ?d) a3 (Some ?v3) (Until ?v3 - now)) a3 = Some (Some ?v3)"
    using pos by (intro gocache_okD(2) [OF assms(2)]) simp
  ultimately show ?thesis
    using refused until gone id3 pos ne assms(7,8) by (intro conjI exI [of _ ?v3] exI [of _ "snd (rdns_identify G E N a3 now ?d)"]) auto
qed

lemma rdns_late_eviction_witness:
  "\<exists>r v3 r'. rdns_run ref_golibs ref_gocache True (60 * second) r \<and>
     rdns_identify ref_golibs ref_gocache (ref_net ''pc.lan.'' 600) (A4 3) (60 * second) (delete_expired ref_gocache r) = (Inr v3, r') \<and>
     ID v3 = ''pc-lan'' \<and> cget ref_gocache (cache r') (A4 2) = Some (Some \<lparr>Until = 615 * second, ID = ''pc-lan''\<rparr>)"
proof -
  define r1 where "r1 = wait_cache (15 * second) (ref_request (A4 1) ''pc.lan.'' 10 0 (NewRDNSIDSource (0, [])))"
  define r where "r = wait_cache (45 * second) (ref_request (A4 2) ''pc.lan.'' 600 (15 * second) r1)"
  let ?v1 = "\<lparr>Until = 10 * second, ID = ''pc-lan''\<rparr>" and ?v2 = "\<lparr>Until = 615 * second, ID = ''pc-lan''\<rparr>"
  have sec: "0 \<le> second" by (simp add: second_def)
  have "rdns_run ref_golibs ref_gocache True (0 + 15 * second) r1"
    unfolding r1_def using sec
    by (intro rdns_run_wait [OF rdns_run_ref_request [OF rdns_run_ref_init [where now = 0]]]) simp_all
  then have "rdns_run ref_golibs ref_gocache True (15 * second + 45 * second) r"
    unfolding r_def using sec by (intro rdns_run_wait rdns_run_ref_request [where now = "0 + 15 * second"]) simp_all
  then have run: "rdns_run ref_golibs ref_gocache True (60 * second) r" by simp
  have c: "fst (cevict ref_gocache (cache r)) = [(A4 1, Some ?v1)]"
    "cget ref_gocache (snd (cevict ref_gocache (cache r))) (A4 2) = Some (Some ?v2)"
    "cget ref_gocache (cache r) (A4 3) = None" "fqdnToHumanID ref_golibs ''pc.lan.'' = Inr ''pc-lan''"
    unfolding r_def r1_def by code_simp+
  have "(\<exists>v3 r'. rdns_identify ref_golibs ref_gocache (ref_net ''pc.lan.'' 600) (A4 3) (60 * second) (delete_expired ref_gocache r) = (Inr v3, r') \<and>
      ID v3 = ID ?v2 \<and> A4 3 \<noteq> A4 2 \<and> cget ref_gocache (cache r') (A4 2) = Some (Some ?v2) \<and> 60 * second < Until ?v2 \<and>
      cget ref_gocache (cache r') (A4 3) = Some (Some v3) \<and> 60 * second < Until v3)"
    by (rule rdns_late_eviction [where ?a1.0 = "A4 1" and ?v1.0 = ?v1 and ra = "''in-addr.arpa''" and ttl = 600 and name = "''pc.lan.''",
          OF ref_golibs_ok ref_gocache_ok ref_gocache_keeps run, THEN conjunct2, THEN conjunct2, THEN conjunct2])
      (use c in \<open>simp_all add: ref_net_def second_def\<close>)
  with run show ?thesis by auto
qed

end
