(* ===== verification/StorageProps.thy ===== *)
theory StorageProps
  imports Storage RdnsSource
begin

text \<open>
  What the storage of \<^theory_text>\<open>Storage\<close> promises: the best match independent of the iteration order of
  the configuration maps, the invariant of every run with the program's source of identifiers,
  exclusive identifiers, the contract of the queues, and a garbage collection that no caller can
  observe.
\<close>

section \<open>Search\<close>

definition demo_static :: "(string, nat) storage_conf" where
  "demo_static = \<lparr>Static = [(PZero, [([], StaticClient 1), (''example.com'', StaticClient 2)]),
       (P4 0x0A000000 8, [([], StaticClient 3), (''lan'', StaticClient 4)])],
     Autodevice = [], CacheEnabled = False, CacheSize = 0\<rparr>"

lemma demo_static_wf: "conf_wf demo_static"
  by code_simp

lemma find_static_correct:
  assumes "conf_wf c" "golibs_ok G" "non_fqdn domain" "static d = static (NewDefaultStorage c s)"
  shows "(findStaticClient G addr domain d = Some cl \<longleftrightarrow>
      (\<exists>x \<in> set (static_clients c). sc_client x = cl \<and>
         best_key G addr domain (sc_key ` set (static_clients c)) (sc_key x))) \<and>
    (findStaticClient G addr domain d = None \<longleftrightarrow>
      (\<forall>x \<in> set (static_clients c). \<not> storedClient_matches G x addr domain))"
proof -
  let ?xs = "static_clients c"
  let ?find = "find (\<lambda>x. storedClient_matches G x addr domain) (sort_stable storedClient_compare ?xs)"
  have f: "findStaticClient G addr domain d = map_option sc_client ?find"
    by (simp add: findStaticClient_def assms(4) NewDefaultStorage_def find_static_find)
  have none: "?find = None \<longleftrightarrow> (\<forall>x \<in> set ?xs. \<not> storedClient_matches G x addr domain)"
    by (auto simp: find_None_iff)
  have some: "?find = Some x" if x: "x \<in> set ?xs" "best_key G addr domain (sc_key ` set ?xs) (sc_key x)" for x
  proof -
    have "storedClient_matches G x addr domain" using x(2) by (simp add: best_key_def storedClient_matches_key)
    then obtain y where y: "?find = Some y" using none x(1) by (cases ?find) auto
    have *: "y \<in> set ?xs \<and> best_key G addr domain (sc_key ` set ?xs) (sc_key y)"
      by (rule find_static_best [OF assms(1-3) y])
    then have "sc_key y = sc_key x" by (intro best_key_unique [OF _ x(2)]) simp
    then have "y = x"
      using conf_keys(1) [OF assms(1)] * x(1) by (simp add: distinct_map inj_on_def)
    with y show ?thesis by simp
  qed
  have "findStaticClient G addr domain d = Some cl \<longleftrightarrow>
      (\<exists>x \<in> set ?xs. sc_client x = cl \<and> best_key G addr domain (sc_key ` set ?xs) (sc_key x))"
  proof
    assume "findStaticClient G addr domain d = Some cl"
    then obtain x where "?find = Some x" "sc_client x = cl" unfolding f by auto
    with find_static_best [OF assms(1-3), of addr x]
    show "\<exists>x \<in> set ?xs. sc_client x = cl \<and> best_key G addr domain (sc_key ` set ?xs) (sc_key x)" by blast
  next
    assume "\<exists>x \<in> set ?xs. sc_client x = cl \<and> best_key G addr domain (sc_key ` set ?xs) (sc_key x)"
    then show "findStaticClient G addr domain d = Some cl" using some unfolding f by auto
  qed
  then show ?thesis using none unfolding f by simp
qed

text \<open>
  C2: For prefixes that do not overlap the static client of a question is that of the best
  matching entry: one whose prefix contains the address before the entries with no prefix, and
  among those the one with the most specific domain; there is none exactly if no entry matches.
\<close>

lemma findStaticClient_best:
  assumes "conf_wf c" "golibs_ok G" "non_fqdn domain" "static d = static (NewDefaultStorage c s)"
  shows "(findStaticClient G addr domain d = Some cl \<longleftrightarrow>
      (\<exists>x \<in> set (static_clients c). sc_client x = cl \<and>
         best_key G addr domain (sc_key ` set (static_clients c)) (sc_key x))) \<and>
    (findStaticClient G addr domain d = None \<longleftrightarrow>
      (\<forall>x \<in> set (static_clients c). \<not> storedClient_matches G x addr domain))"
  by (rule find_static_correct [OF assms])

lemma findStaticClient_best_witness:
  "findStaticClient ref_golibs (A4 0x0A000001) ''www.example.com'' (NewDefaultStorage demo_static ()) = Some (StaticClient 3)"
proof -
  let ?ks = "{(PZero, []), (PZero, ''example.com''), (P4 0x0A000000 8, []), (P4 0x0A000000 8, ''lan'')}"
  have dom: "non_fqdn ''www.example.com''" by code_simp
  have ks: "sc_key ` set (static_clients demo_static) = ?ks"
    by (auto simp: demo_static_def static_clients_def)
  have "best_key ref_golibs (A4 0x0A000001) ''www.example.com'' ?ks (P4 0x0A000000 8, [])"
    unfolding best_key_def
    by (simp add: key_matches_def matchesDomain_def beats_def ref_golibs_def has_suffix_def labels_def)
  then have "\<exists>x \<in> set (static_clients demo_static). sc_client x = StaticClient 3 \<and>
      best_key ref_golibs (A4 0x0A000001) ''www.example.com'' (sc_key ` set (static_clients demo_static)) (sc_key x)"
    unfolding ks by (simp add: demo_static_def static_clients_def)
  then show ?thesis
    by (rule iffD2 [OF conjunct1 [OF findStaticClient_best [OF demo_static_wf ref_golibs_ok dom refl]]])
qed

text \<open>
  The storage does not depend on the order in which Go iterates over the configuration maps:
  any two orders give the same sorted lists.
\<close>

lemma storage_map_order:
  assumes "conf_wf c" "mset (static_clients c') = mset (static_clients c)"
    "mset (autodevice_clients c') = mset (autodevice_clients c)"
  shows "NewDefaultStorage c' s = NewDefaultStorage c s"
proof -
  have "sort_stable storedClient_compare (static_clients c) = sort_stable storedClient_compare (static_clients c')"
    using assms(2) conf_keys(1,3) [OF assms(1)]
    by (intro sc_order.sort_stable_perm) auto
  moreover have "sort_stable sac_compare (autodevice_clients c) = sort_stable sac_compare (autodevice_clients c')"
    using assms(3) conf_keys(2,4) [OF assms(1)]
    by (intro sac_order.sort_stable_perm) auto
  ultimately show ?thesis by (simp add: NewDefaultStorage_def)
qed

lemma storage_map_order_witness:
  "NewDefaultStorage (demo_static\<lparr>Static := rev (map (\<lambda>(p, m). (p, rev m)) (Static demo_static))\<rparr>) ()
     = NewDefaultStorage demo_static ()"
  using demo_static_wf
  by (intro storage_map_order) (simp_all add: demo_static_def static_clients_def autodevice_clients_def)

text \<open>Of two prefixes that have an address in common, the one that is sorted first has no more bits.\<close>

lemma unat_push_drop:
  fixes w :: "'a::len word"
  shows "unat (push_bit n (drop_bit n w)) = unat w div 2 ^ n * 2 ^ n"
proof -
  have w: "unat w < 2 ^ LENGTH('a)" by (rule unsigned_less)
  have "unat w div 2 ^ n * 2 ^ n < 2 ^ LENGTH('a)" by (rule le_less_trans [OF div_times_less_eq_dividend w])
  moreover have "unat (push_bit n (drop_bit n w)) = take_bit LENGTH('a) (push_bit n (drop_bit n (take_bit LENGTH('a) (unat w))))"
    by (simp only: unsigned_push_bit_eq unsigned_drop_bit_eq)
  ultimately show ?thesis by (simp add: push_bit_eq_mult drop_bit_eq_div take_bit_nat_eq_self w)
qed

lemma push_drop_le:
  fixes w :: "'a::len word"
  assumes "n \<le> m"
  shows "unat (push_bit m (drop_bit m w)) \<le> unat (push_bit n (drop_bit n w))"
proof -
  have p: "(2 :: nat) ^ m = 2 ^ n * 2 ^ (m - n)" using assms by (simp flip: power_add)
  have "unat w div 2 ^ m * 2 ^ m = (unat w div 2 ^ n div 2 ^ (m - n) * 2 ^ (m - n)) * 2 ^ n"
    unfolding p by (simp add: div_mult2_eq)
  also have "\<dots> \<le> unat w div 2 ^ n * 2 ^ n" by (intro mult_right_mono div_times_less_eq_dividend) simp
  finally show ?thesis by (simp add: unat_push_drop)
qed

lemma compare_contains:
  assumes "pfx_contains p a" "pfx_contains q a" "prefix_compare p q \<le> 0"
  shows "pfx_bits p \<le> pfx_bits q"
proof (rule ccontr)
  assume less: "\<not> pfx_bits p \<le> pfx_bits q"
  have key: "pfx_key p \<le> pfx_key q" using assms(3) by (auto simp: prefix_compare_key go_cmp_def split: if_splits)
  have le: "pfx_addr (masked q) \<le> pfx_addr (masked p)"
  proof (cases a)
    case (A4 b)
    then obtain v n w m where e: "p = P4 v n" "q = P4 w m" using assms(1,2) by (cases p; cases q) auto
    with A4 assms(1,2) less push_drop_le [of "32 - n" "32 - m" b] show ?thesis by (simp add: less_eq_addr_def)
  next
    case (A6 b z)
    then obtain v n w m where e: "p = P6 v n" "q = P6 w m" using assms(1,2) by (cases p; cases q) auto
    with A6 assms(1,2) less push_drop_le [of "128 - n" "128 - m" b] show ?thesis by (simp add: less_eq_addr_def)
  qed (use assms(1) in \<open>cases p; simp\<close>)
  from key le less show False by (auto simp: pfx_key_def)
qed

text \<open>
  C26: With overlapping prefixes, which the constructor asks not to be given but does not check, a broader
  prefix hides the narrower ones.  When an entry with a prefix matches the question, the client that is
  found belongs to an entry whose prefix is a single address or has at most as many bits: an entry of a
  narrower prefix that matches as well is never found, even if its name is more specific.
\<close>

lemma overlapping_prefixes_hide:
  assumes "map_wf (Static c)" "x \<in> set (static_clients c)" "sc_prefix x \<noteq> PZero" "storedClient_matches G x addr domain"
  shows "\<exists>z \<in> set (static_clients c). findStaticClient G addr domain (NewDefaultStorage c s) = Some (sc_client z) \<and>
    storedClient_matches G z addr domain \<and> sc_prefix z \<noteq> PZero \<and>
    (is_single_ip (sc_prefix z) \<or> pfx_bits (sc_prefix z) \<le> pfx_bits (sc_prefix x)) \<and>
    (\<forall>q. pfx_bits (sc_prefix x) < pfx_bits q \<and> \<not> is_single_ip q \<longrightarrow> sc_prefix z \<noteq> q)"
proof -
  let ?xs = "static_clients c"
  have ok: "\<forall>x \<in> set ?xs. non_fqdn (sc_domain x)"
  proof
    fix x assume "x \<in> set ?xs"
    then have "sc_key x \<in> set (map_keys (Static c))" unfolding key_sets(1) [symmetric] by (rule imageI)
    with map_wf_keys(2) [OF assms(1)] show "non_fqdn (sc_domain x)" by force
  qed
  have sorted: "sorted_wrt (\<lambda>a b. storedClient_compare a b \<le> 0) (sort_stable storedClient_compare ?xs)"
    by (rule sc_order.sorted_sort_stable [OF ok])
  have "find (\<lambda>x. storedClient_matches G x addr domain) (sort_stable storedClient_compare ?xs) \<noteq> None"
    using assms(2,4) by (auto simp: find_None_iff)
  then obtain z where f: "find (\<lambda>x. storedClient_matches G x addr domain) (sort_stable storedClient_compare ?xs) = Some z" by blast
  have z: "z \<in> set ?xs" "storedClient_matches G z addr domain" using find_Some_in [OF f] by auto
  have cmp: "storedClient_compare z x \<le> 0"
    using assms(2,4) ok z(1) by (intro cmp_order.find_least [OF sc_order.cmp_order_axioms sorted f]) auto
  have nz: "sc_prefix z \<noteq> PZero" using cmp assms(3) by (auto simp: storedClient_compare_def split: if_splits)
  have "is_single_ip (sc_prefix z) \<or> pfx_bits (sc_prefix z) \<le> pfx_bits (sc_prefix x)"
  proof (rule disjCI)
    assume s: "\<not> pfx_bits (sc_prefix z) \<le> pfx_bits (sc_prefix x)"
    have "pfx_contains (sc_prefix z) addr" "pfx_contains (sc_prefix x) addr"
      using z(2) assms(3,4) nz by (auto simp: storedClient_matches_def split: if_splits)
    with s compare_contains have "\<not> prefix_compare (sc_prefix z) (sc_prefix x) \<le> 0" by blast
    with cmp nz assms(3) show "is_single_ip (sc_prefix z)"
      by (auto simp: storedClient_compare_def Let_def split: if_splits)
  qed
  with f z nz show ?thesis
    by (intro bexI [of _ z]) (auto simp: findStaticClient_def NewDefaultStorage_def find_static_find)
qed

lemma overlapping_prefixes_hide_witness:
  "\<exists>y. y \<in> set (static_clients (demo_static\<lparr>Static := [(P4 0x0A010000 16, [(''lan'', StaticClient 16)]), (P4 0x0A000000 8, [([], StaticClient 8)])]\<rparr>)) \<and>
     storedClient_matches ref_golibs y (A4 0x0A010001) ''pc.lan'' \<and> sc_client y = StaticClient 16 \<and>
   findStaticClient ref_golibs (A4 0x0A010001) ''pc.lan''
     (NewDefaultStorage (demo_static\<lparr>Static := [(P4 0x0A010000 16, [(''lan'', StaticClient 16)]), (P4 0x0A000000 8, [([], StaticClient 8)])]\<rparr>) ())
   = Some (StaticClient 8)"
proof -
  let ?c = "demo_static\<lparr>Static := [(P4 0x0A010000 16, [(''lan'', StaticClient 16)]), (P4 0x0A000000 8, [([], StaticClient 8)])]\<rparr>"
  let ?x = "\<lparr>sc_client = StaticClient (8 :: nat), sc_prefix = P4 0x0A000000 8, sc_domain = []\<rparr>"
  let ?y = "\<lparr>sc_client = StaticClient (16 :: nat), sc_prefix = P4 0x0A010000 16, sc_domain = ''lan''\<rparr>"
  have wf: "map_wf (Static ?c)" by code_simp
  have set: "static_clients ?c = [?y, ?x]" by (simp add: demo_static_def static_clients_def)
  have m: "storedClient_matches ref_golibs ?x (A4 0x0A010001) ''pc.lan''" "storedClient_matches ref_golibs ?y (A4 0x0A010001) ''pc.lan''"
    by code_simp+
  have b: "pfx_bits (sc_prefix ?x) < pfx_bits (sc_prefix ?y) \<and> \<not> is_single_ip (sc_prefix ?y)" by simp
  have x: "?x \<in> set (static_clients ?c)" "sc_prefix ?x \<noteq> PZero" by (simp_all add: set)
  from overlapping_prefixes_hide [OF wf x m(1), where s = "()"] obtain z where
    z: "z \<in> set (static_clients ?c)" "findStaticClient ref_golibs (A4 0x0A010001) ''pc.lan'' (NewDefaultStorage ?c ()) = Some (sc_client z)"
      "\<forall>q. pfx_bits (sc_prefix ?x) < pfx_bits q \<and> \<not> is_single_ip q \<longrightarrow> sc_prefix z \<noteq> q"
    by blast
  from z(3) b have "sc_prefix z \<noteq> sc_prefix ?y" by blast
  with z(1) have "z = ?x" unfolding set by auto
  with z(2) m(2) show ?thesis unfolding set by (intro exI [of _ ?y]) simp
qed

section \<open>Runs with the program's source\<close>

interpretation program_src: human_id_source
  "consequent_identify [rdns_identify G E N, default_identify ivl]" "rdns_inv G E" for G E N ivl
  by (rule consequent_source)
    (use rdns_src.human_id_source_axioms default_src.human_id_source_axioms in auto)

text \<open>The runs of a storage: requests for plain addresses and collections, in any order.\<close>

inductive storage_run ::
  "golibs \<Rightarrow> ('o, 'u, 'cc) ups_env \<Rightarrow> (addr \<Rightarrow> bool) \<Rightarrow> 's identify_fn \<Rightarrow> ('s \<Rightarrow> bool) \<Rightarrow> ('o, 'cc) storage_conf
     \<Rightarrow> ('o, 'cc, 's) storage \<Rightarrow> bool"
  for G :: golibs and U :: "('o, 'u, 'cc) ups_env" and Q :: "addr \<Rightarrow> bool" and src :: "'s identify_fn"
    and P :: "'s \<Rightarrow> bool" and c :: "('o, 'cc) storage_conf" where
  init: "P s \<Longrightarrow> storage_run G U Q src P c (NewDefaultStorage c s)"
| get: "storage_run G U Q src P c d \<Longrightarrow> plain_addr addr \<Longrightarrow>
    storage_run G U Q src P c (snd (snd (Get G U Q src sp ip now srcNow addr domain d)))"
| gc: "storage_run G U Q src P c d \<Longrightarrow> storage_run G U Q src P c (cleanExpired now d)"

context human_id_source
begin

lemma storage_run_inv: "storage_run G U Q identify src_inv c d \<Longrightarrow> storage_inv src_inv Q d"
  by (induction rule: storage_run.induct) (auto intro: NewDefaultStorage_inv Get_inv cleanExpired_inv)

end

text \<open>
  C16: With the program's source (reverse DNS, then the name of the address) every run of requests, whose
  addresses are valid, unmapped and without a zone, and of collections keeps the invariant: an identity is
  stored under its own identifier, all identifiers are valid, and each on-demand client belongs to one
  identifiable address that its configuration's prefix contains.
\<close>

lemma program_storage_inv:
  assumes "storage_run G U IsIdentifiable (consequent_identify [rdns_identify G E N, default_identify ivl])
    (rdns_inv G E) c d"
  shows "storage_inv (rdns_inv G E) IsIdentifiable d"
  using assms by (rule program_src.storage_run_inv)

definition demo_ups :: "(string, string, nat \<times> string list) ups_env" where
  "demo_ups = \<lparr>url_string = (\<lambda>u. Scheme u @ ''://'' @ Host u @ Path u), AddressToUpstream = (\<lambda>s _. Inr s),
     NewCustomUpstreamConfig = (\<lambda>us _ n _. (nat n, us)), CloseUpstreams = (\<lambda>_. None)\<rparr>"

definition demo_auto :: "(string, nat \<times> string list) storage_conf" where
  "demo_auto = \<lparr>Static = [], Autodevice = [(PZero, [([], demo_conf ''quic'')])], CacheEnabled = True, CacheSize = 4096\<rparr>"

text \<open>Two devices ask and a collection drops the client of the first, whose name has a short life.\<close>

lemma program_storage_inv_witness:
  "\<exists>(d :: (string, nat \<times> string list, ref_cache rdns) storage) i c.
     storage_inv (rdns_inv ref_golibs ref_gocache) IsIdentifiable d \<and>
     map_of (identified d) ''dev-10-0-0-2'' = Some i \<and> id_addr i = A4 0x0A000002 \<and>
     map fst (sac_clients (autodevice d ! 0)) = [A4 0x0A000002] \<and> finalizers d = [c]"
proof -
  let ?src = "consequent_identify [rdns_identify ref_golibs ref_gocache (ref_net ''a.lan.'' 1), default_identify (2 * second)]"
  let ?s = "NewRDNSIDSource (0, []) :: ref_cache rdns"
  let ?get = "\<lambda>a d. snd (snd (Get ref_golibs demo_ups IsIdentifiable ?src (None, None) (None, None) 0 0 a ''example.com'' d))"
  let ?d = "cleanExpired second (?get (A4 0x0A000002) (?get (A4 0x0A000001) (NewDefaultStorage demo_auto ?s)))"
  have "rdns_inv ref_golibs ref_gocache ?s"
    using ref_golibs_ok ref_gocache_ok
    by (simp add: rdns_inv_def NewRDNSIDSource_def) (simp add: ref_gocache_def ref_live_def)
  then have "storage_run ref_golibs demo_ups IsIdentifiable ?src (rdns_inv ref_golibs ref_gocache) demo_auto ?d"
    by (intro storage_run.init storage_run.get storage_run.gc) (simp_all add: plain_addr_def)
  then have "storage_inv (rdns_inv ref_golibs ref_gocache) IsIdentifiable ?d" by (rule program_storage_inv)
  moreover have "map_of (identified ?d) ''dev-10-0-0-2'' =
      Some \<lparr>id_addr = A4 0x0A000002, id_hid = \<lparr>Until = 2000000000, ID = ''dev-10-0-0-2''\<rparr>\<rparr>" by code_simp
  moreover have "map fst (sac_clients (autodevice ?d ! 0)) = [A4 0x0A000002]" by code_simp
  moreover have "finalizers ?d = [(4096, [''quic://otr-abcd1234-a-lan.d.adguard-dns.com/dns-query''])]" by code_simp
  ultimately show ?thesis by (intro exI [of _ ?d]) simp
qed

section \<open>Identification\<close>

text \<open>
  An identifier is given to an address only if no other address holds it until after the time
  of the search; it is then held by the address until its expiry and no other identity changes.
  A failed identification, a conflict included, leaves the identities alone.
\<close>

lemma identify_exclusive:
  assumes "identify src (None, None) srcNow addr now d = (res, out, d')"
  shows "(case res of
      Inr hid \<Rightarrow>
        (\<forall>i. map_of (identified d) (ID hid) = Some i \<longrightarrow> id_addr i = addr \<or> Until (id_hid i) \<le> now) \<and>
        map_of (identified d') = (map_of (identified d))(ID hid \<mapsto> \<lparr>id_addr = addr, id_hid = hid\<rparr>)
    | Inl err \<Rightarrow> identified d' = identified d) \<and>
    autodevice d' = autodevice d \<and> source d' = snd (src addr srcNow (source d))"
  using assms
  by (auto simp: identify_def Let_def AList.update_conv' split: prod.splits sum.splits option.splits if_splits)

lemma identify_exclusive_witness:
  "identified (snd (snd (identify (default_identify 5) (None, None) 0 (A4 1) 0
     (NewDefaultStorage demo_auto (0 :: int))))) = [(''dev-0-0-0-1'', \<lparr>id_addr = A4 1, id_hid = \<lparr>Until = 5, ID = ''dev-0-0-0-1''\<rparr>\<rparr>)]"
proof -
  obtain res out d' where eq: "identify (default_identify 5) (None, None) 0 (A4 1) 0
     (NewDefaultStorage demo_auto (0 :: int)) = (res, out, d')" by (metis surj_pair)
  moreover have "identified (snd (snd (identify (default_identify 5) (None, None) 0 (A4 1) 0
     (NewDefaultStorage demo_auto (0 :: int))))) = [(''dev-0-0-0-1'', \<lparr>id_addr = A4 1, id_hid = \<lparr>Until = 5, ID = ''dev-0-0-0-1''\<rparr>\<rparr>)]"
    by code_simp
  ultimately show ?thesis using identify_exclusive [OF eq] by simp
qed

lemma identify_publishes:
  "case identify src ip srcNow addr now d of (r, out, d') \<Rightarrow>
    if ip = (None, None)
    then out = Some (case r of Inl err \<Rightarrow> (None, Some err) | Inr hid \<Rightarrow> (Some hid, None))
    else out = None \<and> d' = d"
  by (auto simp: identify_def Let_def split: prod.splits sum.splits option.splits)

lemma search_publishes:
  "case newAutodeviceOrStored G U src sp ip now srcNow addr i d of (c, out, d') \<Rightarrow>
    if sp = (None, None) then \<exists>err. fst out = Some (c, err) \<and> (c = None \<longleftrightarrow> err \<noteq> None)
    else fst out = None \<and> c = (if snd sp = None then fst sp else None) \<and> d' = d"
proof (cases "sp = (None, None)")
  case True
  obtain r d1 where 1: "findValidAutodeviceClient addr i now d = (r, d1)" by (metis surj_pair)
  obtain q out d2 where 2: "storage_newAutodeviceClient G U src ip srcNow addr i now d1 = (q, out, d2)"
    by (metis surj_pair)
  from True 1 2 show ?thesis
    by (cases r; cases q) (simp_all add: newAutodeviceOrStored_def)
next
  case False
  then show ?thesis
    by (cases sp; cases "fst sp"; cases "snd sp") (simp_all add: newAutodeviceOrStored_def)
qed

text \<open>
  The contract of \<^theory_text>\<open>OpQueue\<close>: an operation that \<open>push\<close> made the leader passes a result or an
  error to \<open>done\<close>, exactly what it returns; one that was not calls \<open>done\<close> on no queue of its own.
\<close>

lemma storage_publishes:
  "(case newAutodeviceOrStored G U src sp ip now srcNow addr i d of (c, out, d') \<Rightarrow>
      if sp = (None, None) then \<exists>err. fst out = Some (c, err) \<and> (c = None \<longleftrightarrow> err \<noteq> None)
      else fst out = None \<and> c = (if snd sp = None then fst sp else None) \<and> d' = d) \<and>
   (case identify src ip srcNow addr now d of (r, out, d') \<Rightarrow>
      if ip = (None, None)
      then out = Some (case r of Inl err \<Rightarrow> (None, Some err) | Inr hid \<Rightarrow> (Some hid, None))
      else out = None \<and> d' = d)"
  by (rule conjI [OF search_publishes identify_publishes])

section \<open>Garbage collection\<close>

text \<open>
  The storage as the abstract specification sees it at a time: the clients and the identities that
  are live.  Two storages with the same live part are indistinguishable from then on.
\<close>

definition live_clients :: "int \<Rightarrow> ('o, 'cc) sac \<Rightarrow> addr \<rightharpoonup> 'cc auto_client" where
  "live_clients now c a = (case map_of (sac_clients c) a of
     None \<Rightarrow> None | Some x \<Rightarrow> if now < validUntil x then Some x else None)"

definition live_ids :: "int \<Rightarrow> (human_id \<times> identity) list \<Rightarrow> human_id \<rightharpoonup> identity" where
  "live_ids now m k = (case map_of m k of
     None \<Rightarrow> None | Some i \<Rightarrow> if now < Until (id_hid i) then Some i else None)"

definition sac_settings :: "('o, 'cc) sac \<Rightarrow> ('o, 'cc) sac" where
  "sac_settings c = c\<lparr>sac_clients := []\<rparr>"

definition same_live :: "int \<Rightarrow> ('o, 'cc, 's) storage \<Rightarrow> ('o, 'cc, 's) storage \<Rightarrow> bool" where
  "same_live now d e = (static d = static e \<and> source d = source e \<and>
     live_ids now (identified d) = live_ids now (identified e) \<and>
     map sac_settings (autodevice d) = map sac_settings (autodevice e) \<and>
     map (live_clients now) (autodevice d) = map (live_clients now) (autodevice e))"

lemma same_liveD:
  assumes "same_live now d e"
  shows "static d = static e" "source d = source e" "live_ids now (identified d) = live_ids now (identified e)"
    "length (autodevice d) = length (autodevice e)"
    "i < length (autodevice d) \<Longrightarrow> sac_settings (autodevice d ! i) = sac_settings (autodevice e ! i)"
    "i < length (autodevice d) \<Longrightarrow> live_clients now (autodevice d ! i) = live_clients now (autodevice e ! i)"
proof -
  note s = assms[unfolded same_live_def]
  from s show "static d = static e" "source d = source e"
    "live_ids now (identified d) = live_ids now (identified e)" by simp_all
  from s show l: "length (autodevice d) = length (autodevice e)" by (metis length_map)
  show "sac_settings (autodevice d ! i) = sac_settings (autodevice e ! i)" if "i < length (autodevice d)"
    using s l that by (metis nth_map)
  show "live_clients now (autodevice d ! i) = live_clients now (autodevice e ! i)" if "i < length (autodevice d)"
    using s l that by (metis nth_map)
qed

lemma live_later:
  assumes "now \<le> t"
  shows "live_clients t c a = (case live_clients now c a of None \<Rightarrow> None | Some x \<Rightarrow> if t < validUntil x then Some x else None)"
    "live_ids t m k = (case live_ids now m k of None \<Rightarrow> None | Some i \<Rightarrow> if t < Until (id_hid i) then Some i else None)"
  using assms by (auto simp: live_clients_def live_ids_def split: option.splits)

lemma same_live_later:
  fixes d e :: "('a, 'b, 'c) storage"
  assumes "same_live now d e" "now \<le> t"
  shows "same_live t d e"
proof -
  define h where "h = (\<lambda>(m :: addr \<rightharpoonup> 'b auto_client) a. case m a of
    None \<Rightarrow> None | Some x \<Rightarrow> if t < validUntil x then Some x else None)"
  have "live_clients t c = h (live_clients now c)" for c :: "('a, 'b) sac"
    using live_later(1) [OF assms(2), of c] by (simp add: h_def fun_eq_iff)
  then have c: "map (live_clients t) xs = map h (map (live_clients now) xs)" for xs :: "('a, 'b) sac list"
    by simp
  have i: "live_ids t m = (\<lambda>k. case live_ids now m k of None \<Rightarrow> None | Some i \<Rightarrow> if t < Until (id_hid i) then Some i else None)" for m
    using live_later(2) [OF assms(2), of m] by (simp add: fun_eq_iff)
  show ?thesis using assms(1) unfolding same_live_def c i by simp
qed

lemma settings_key: "sac_settings c = sac_settings e \<Longrightarrow> sac_matches G c a q = sac_matches G e a q"
  by (cases c; cases e) (simp add: sac_settings_def sac_matches_def)

lemma find_index_settings:
  "map sac_settings xs = map sac_settings ys \<Longrightarrow>
    find_index (\<lambda>c. sac_matches G c a q) xs = find_index (\<lambda>c. sac_matches G c a q) ys"
proof (induction xs arbitrary: ys)
  case (Cons x xs)
  then obtain y ys' where "ys = y # ys'" "sac_settings x = sac_settings y" by (cases ys) auto
  with Cons settings_key [of x y] show ?case by simp
qed simp

text \<open>A step that changes only the clients of one configuration.\<close>

lemma same_live_upd:
  assumes "same_live now d e" "i < length (autodevice d)"
    "\<And>c. sac_settings (f c) = sac_settings c"
    "live_clients now (f (autodevice d ! i)) = live_clients now (f (autodevice e ! i))"
  shows "same_live now (upd_sac i f d) (upd_sac i f e)"
  using assms same_liveD(4) [OF assms(1)] same_liveD(5) [OF assms(1,2)]
  by (auto simp: same_live_def map_update)

lemma map_upd_same: "i < length xs \<Longrightarrow> g c = g (xs ! i) \<Longrightarrow> map g (xs[i := c]) = map g xs"
  by (simp add: map_update list_update_same_conv)

lemma same_live_find:
  fixes d e :: "('o, 'cc, 's) storage"
  assumes "same_live now d e" "i < length (autodevice d)"
  shows "fst (findValidAutodeviceClient addr i now d) = fst (findValidAutodeviceClient addr i now e)"
    "same_live now (snd (findValidAutodeviceClient addr i now d)) (snd (findValidAutodeviceClient addr i now e))"
proof -
  have r: "fst (findValidAutodeviceClient addr i now x) = map_option AutoClient (live_clients now (autodevice x ! i) addr)"
    for x :: "('o, 'cc, 's) storage"
    by (simp add: findValidAutodeviceClient_def live_clients_def split: option.splits)
  show "fst (findValidAutodeviceClient addr i now d) = fst (findValidAutodeviceClient addr i now e)"
    using same_liveD(6) [OF assms] by (simp add: r)
  have s: "same_live now x (snd (findValidAutodeviceClient addr i now x))"
    if "i < length (autodevice x)" for x :: "('o, 'cc, 's) storage"
  proof -
    have "live_clients now ((autodevice x ! i)\<lparr>sac_clients := AList.delete addr (sac_clients (autodevice x ! i))\<rparr>)
        = live_clients now (autodevice x ! i)"
      if "map_of (sac_clients (autodevice x ! i)) addr = Some a" "\<not> now < validUntil a" for a
      using that by (auto simp: live_clients_def fun_eq_iff AList.delete_conv')
    then show ?thesis
      using that
      by (auto simp: findValidAutodeviceClient_def same_live_def sac_settings_def map_upd_same
          split: option.splits)
  qed
  have trans: "same_live now a b \<Longrightarrow> same_live now b c \<Longrightarrow> same_live now a c"
    and sym: "same_live now a b \<Longrightarrow> same_live now b a" for a b c :: "('o, 'cc, 's) storage"
    by (simp_all add: same_live_def)
  show "same_live now (snd (findValidAutodeviceClient addr i now d)) (snd (findValidAutodeviceClient addr i now e))"
    using s [of d] s [of e] assms same_liveD(4) [OF assms(1)] trans sym by metis
qed

lemma same_live_identify:
  assumes "same_live now d e"
  shows "fst (identify src ip srcNow addr now d) = fst (identify src ip srcNow addr now e)"
    "fst (snd (identify src ip srcNow addr now d)) = fst (snd (identify src ip srcNow addr now e))"
    "same_live now (snd (snd (identify src ip srcNow addr now d))) (snd (snd (identify src ip srcNow addr now e)))"
proof -
  have conf: "(case map_of (identified x) k of Some existing \<Rightarrow> id_addr existing \<noteq> addr \<and> now < Until (id_hid existing) | None \<Rightarrow> False)
      = (case live_ids now (identified x) k of Some existing \<Rightarrow> id_addr existing \<noteq> addr | None \<Rightarrow> False)"
    for x :: "('o, 'cc, 's) storage" and k
    by (auto simp: live_ids_def split: option.splits)
  have upd: "live_ids now (AList.update k i m) = live_ids now (AList.update k i m')"
    if "live_ids now m = live_ids now m'" for k i m m'
    using that by (auto simp: live_ids_def fun_eq_iff AList.update_conv')
  note eqs = same_liveD(2,3) [OF assms]
  show "fst (identify src ip srcNow addr now d) = fst (identify src ip srcNow addr now e)"
    "fst (snd (identify src ip srcNow addr now d)) = fst (snd (identify src ip srcNow addr now e))"
    unfolding identify_def conf by (auto simp: eqs Let_def split: prod.splits sum.splits option.splits)
  show "same_live now (snd (snd (identify src ip srcNow addr now d))) (snd (snd (identify src ip srcNow addr now e)))"
    using assms upd [OF eqs(2)] unfolding identify_def conf
    by (auto simp: eqs same_live_def Let_def split: prod.splits sum.splits option.splits)
qed

lemma same_live_new:
  assumes "same_live now d e" "i < length (autodevice d)"
  shows "fst (storage_newAutodeviceClient G U src ip srcNow addr i now d)
      = fst (storage_newAutodeviceClient G U src ip srcNow addr i now e)"
    "fst (snd (storage_newAutodeviceClient G U src ip srcNow addr i now d))
      = fst (snd (storage_newAutodeviceClient G U src ip srcNow addr i now e))"
    "same_live now (snd (snd (storage_newAutodeviceClient G U src ip srcNow addr i now d)))
      (snd (snd (storage_newAutodeviceClient G U src ip srcNow addr i now e)))"
proof -
  obtain r out d1 where d1: "identify src ip srcNow addr now d = (r, out, d1)" by (metis surj_pair)
  obtain e1 where e1: "identify src ip srcNow addr now e = (r, out, e1)"
    using same_live_identify(1,2) [OF assms(1), of src ip srcNow addr] d1
    by (metis fst_conv prod.collapse snd_conv)
  have s: "same_live now d1 e1"
    using same_live_identify(3) [OF assms(1), of src ip srcNow addr] d1 e1 by simp
  have i: "i < length (autodevice d1)"
    using assms(2) identify_frame(1) [of src ip srcNow addr now d] d1 by simp
  note same = same_liveD(5,6) [OF s i]
  have c: "sac_conf (autodevice d1 ! i) = sac_conf (autodevice e1 ! i)"
    "sac_cacheEnabled (autodevice d1 ! i) = sac_cacheEnabled (autodevice e1 ! i)"
    "sac_cacheSize (autodevice d1 ! i) = sac_cacheSize (autodevice e1 ! i)"
    "sac_domain (autodevice d1 ! i) = sac_domain (autodevice e1 ! i)"
    using same(1) by (cases "autodevice d1 ! i"; cases "autodevice e1 ! i"; simp add: sac_settings_def)+
  have u: "same_live now (upd_sac i (\<lambda>c. c\<lparr>sac_clients := AList.update addr a (sac_clients c)\<rparr>) d1)
      (upd_sac i (\<lambda>c. c\<lparr>sac_clients := AList.update addr a (sac_clients c)\<rparr>) e1)" for a
  proof (rule same_live_upd [OF s i])
    show "live_clients now ((autodevice d1 ! i)\<lparr>sac_clients := AList.update addr a (sac_clients (autodevice d1 ! i))\<rparr>)
        = live_clients now ((autodevice e1 ! i)\<lparr>sac_clients := AList.update addr a (sac_clients (autodevice e1 ! i))\<rparr>)"
      using same(2) by (auto simp: live_clients_def fun_eq_iff AList.update_conv')
  qed (simp add: sac_settings_def)
  show "fst (storage_newAutodeviceClient G U src ip srcNow addr i now d)
      = fst (storage_newAutodeviceClient G U src ip srcNow addr i now e)"
    "fst (snd (storage_newAutodeviceClient G U src ip srcNow addr i now d))
      = fst (snd (storage_newAutodeviceClient G U src ip srcNow addr i now e))"
    "same_live now (snd (snd (storage_newAutodeviceClient G U src ip srcNow addr i now d)))
      (snd (snd (storage_newAutodeviceClient G U src ip srcNow addr i now e)))"
    using s u by (simp_all add: storage_newAutodeviceClient_def d1 e1 c Let_def split: sum.splits)
qed

lemma same_live_search:
  assumes "same_live now d e" "i < length (autodevice d)"
  shows "fst (newAutodeviceOrStored G U src sp ip now srcNow addr i d)
      = fst (newAutodeviceOrStored G U src sp ip now srcNow addr i e)"
    "fst (snd (newAutodeviceOrStored G U src sp ip now srcNow addr i d))
      = fst (snd (newAutodeviceOrStored G U src sp ip now srcNow addr i e))"
    "same_live now (snd (snd (newAutodeviceOrStored G U src sp ip now srcNow addr i d)))
      (snd (snd (newAutodeviceOrStored G U src sp ip now srcNow addr i e)))"
proof -
  obtain r d1 where d1: "findValidAutodeviceClient addr i now d = (r, d1)" by (metis surj_pair)
  obtain e1 where e1: "findValidAutodeviceClient addr i now e = (r, e1)"
    using same_live_find(1) [OF assms, of addr] d1 by (metis fst_conv prod.collapse)
  have s: "same_live now d1 e1" using same_live_find(2) [OF assms, of addr] d1 e1 by simp
  have i: "i < length (autodevice d1)"
    using assms(2) findValid_frame(1) [of addr i now d] d1 by simp
  obtain q out d2 where d2: "storage_newAutodeviceClient G U src ip srcNow addr i now d1 = (q, out, d2)"
    by (metis surj_pair)
  obtain e2 where e2: "storage_newAutodeviceClient G U src ip srcNow addr i now e1 = (q, out, e2)"
    using same_live_new(1,2) [OF s i, of G U src ip srcNow addr] d2 by (metis fst_conv prod.collapse snd_conv)
  have s2: "same_live now d2 e2" using same_live_new(3) [OF s i, of G U src ip srcNow addr] d2 e2 by simp
  show "fst (newAutodeviceOrStored G U src sp ip now srcNow addr i d)
      = fst (newAutodeviceOrStored G U src sp ip now srcNow addr i e)"
    "fst (snd (newAutodeviceOrStored G U src sp ip now srcNow addr i d))
      = fst (snd (newAutodeviceOrStored G U src sp ip now srcNow addr i e))"
    "same_live now (snd (snd (newAutodeviceOrStored G U src sp ip now srcNow addr i d)))
      (snd (snd (newAutodeviceOrStored G U src sp ip now srcNow addr i e)))"
    using assms(1) s s2
    by (simp_all add: newAutodeviceOrStored_def d1 e1 d2 e2 split: prod.splits option.splits sum.splits)
qed

lemma same_live_Get:
  assumes "same_live now d e"
  shows "fst (Get G U Q src sp ip now srcNow addr domain d) = fst (Get G U Q src sp ip now srcNow addr domain e)"
    "fst (snd (Get G U Q src sp ip now srcNow addr domain d)) = fst (snd (Get G U Q src sp ip now srcNow addr domain e))"
    "same_live now (snd (snd (Get G U Q src sp ip now srcNow addr domain d)))
      (snd (snd (Get G U Q src sp ip now srcNow addr domain e)))"
proof -
  have st: "findStaticClient G addr domain d = findStaticClient G addr domain e"
    by (simp add: findStaticClient_def same_liveD(1) [OF assms])
  have len: "autodevice d = [] \<longleftrightarrow> autodevice e = []"
    using same_liveD(4) [OF assms] by auto
  have ix: "find_index (\<lambda>c. sac_matches G c addr domain) (autodevice d)
      = find_index (\<lambda>c. sac_matches G c addr domain) (autodevice e)"
    using assms by (intro find_index_settings) (simp add: same_live_def)
  have l: "i < length (autodevice d)"
    if "find_index (\<lambda>c. sac_matches G c addr domain) (autodevice e) = Some i" for i
    using find_index_find(1) [OF that] same_liveD(4) [OF assms] by simp
  have s: "fst (newAutodeviceOrStored G U src sp ip now srcNow addr i d)
        = fst (newAutodeviceOrStored G U src sp ip now srcNow addr i e)"
      "fst (snd (newAutodeviceOrStored G U src sp ip now srcNow addr i d))
        = fst (snd (newAutodeviceOrStored G U src sp ip now srcNow addr i e))"
      "same_live now (snd (snd (newAutodeviceOrStored G U src sp ip now srcNow addr i d)))
        (snd (snd (newAutodeviceOrStored G U src sp ip now srcNow addr i e)))"
    if "find_index (\<lambda>c. sac_matches G c addr domain) (autodevice e) = Some i" for i
    by (rule same_live_search [OF assms l [OF that]])+
  show "fst (Get G U Q src sp ip now srcNow addr domain d) = fst (Get G U Q src sp ip now srcNow addr domain e)"
    "fst (snd (Get G U Q src sp ip now srcNow addr domain d)) = fst (snd (Get G U Q src sp ip now srcNow addr domain e))"
    "same_live now (snd (snd (Get G U Q src sp ip now srcNow addr domain d)))
      (snd (snd (Get G U Q src sp ip now srcNow addr domain e)))"
    using assms s by (simp_all add: Get_def findAutodevice_def st len ix split: option.splits)
qed

text \<open>Deleting the expired identities by their identifiers filters them.\<close>

lemma fold_delete_filter:
  assumes "\<forall>(k, i) \<in> set xs. k = ID (id_hid i)"
  shows "map_of (fold (\<lambda>(_, ident) m. if Until (id_hid ident) < now then AList.delete (ID (id_hid ident)) m else m) xs m) k
    = (if \<exists>i. (k, i) \<in> set xs \<and> Until (id_hid i) < now then None else map_of m k)"
  using assms
proof (induction xs arbitrary: m)
  case (Cons x xs)
  obtain l i where x: "x = (l, i)" by (cases x)
  have "map_of (AList.delete l m) k = (if k = l then None else map_of m k)" by (simp add: AList.delete_conv')
  with Cons x show ?case by auto
qed simp

lemma cleanExpired_ids:
  assumes "ids_inv (identified d)"
  shows "map_of (identified (cleanExpired now d)) k = (case map_of (identified d) k of
      None \<Rightarrow> None | Some i \<Rightarrow> if Until (id_hid i) < now then None else Some i)"
proof -
  have "map_of (identified (cleanExpired now d)) k
      = (if \<exists>i. (k, i) \<in> set (identified d) \<and> Until (id_hid i) < now then None else map_of (identified d) k)"
    using fold_delete_filter [of "identified d" now "identified d" k] assms
    by (force simp: cleanExpired_def ids_inv_def)
  moreover have "(k, i) \<in> set (identified d) \<longleftrightarrow> map_of (identified d) k = Some i" for i
    using assms by (simp add: ids_inv_def)
  ultimately show ?thesis by (auto split: option.splits)
qed

lemma cleanExpired_clients:
  assumes "sac_inv Q c"
  shows "map_of (sac_clients (fst (cleanExpiredClients now c))) = live_clients now c"
proof
  fix a
  have "distinct (map fst (sac_clients c))" using assms by (simp add: sac_inv_def)
  then show "map_of (sac_clients (fst (cleanExpiredClients now c))) a = live_clients now c a"
    using map_of_filter_distinct [of "sac_clients c" "\<lambda>_ x. now < validUntil x" a]
    by (simp add: cleanExpiredClients_def live_clients_def)
qed

lemma same_live_cleanExpired:
  assumes "storage_inv P Q d"
  shows "same_live now (cleanExpired now d) d"
proof -
  have "live_clients now (fst (cleanExpiredClients now c)) = live_clients now c"
    if "c \<in> set (autodevice d)" for c
    using cleanExpired_clients [OF storage_invD(3) [OF assms that], of now]
    by (auto simp: live_clients_def fun_eq_iff split: option.splits)
  moreover have "sac_settings (fst (cleanExpiredClients now c)) = sac_settings c" for c :: "('b, 'c) sac"
    by (simp add: sac_settings_def cleanExpiredClients_def)
  moreover have "live_ids now (identified (cleanExpired now d)) = live_ids now (identified d)"
    using cleanExpired_ids [OF storage_invD(2) [OF assms], of now]
    by (auto simp: live_ids_def fun_eq_iff split: option.splits)
  ultimately show ?thesis by (simp add: same_live_def cleanExpired_def comp_def)
qed

text \<open>
  A collection removes from each configuration exactly the clients whose time has come, and
  exactly the identities that expired before; all of the removed clients get a finalizer.
\<close>

lemma cleanExpired_exact:
  assumes "storage_inv P Q d"
  shows "map_of (identified (cleanExpired now d)) k = (case map_of (identified d) k of
      None \<Rightarrow> None | Some i \<Rightarrow> if Until (id_hid i) < now then None else Some i) \<and>
    (\<forall>i < length (autodevice d).
       map_of (sac_clients (autodevice (cleanExpired now d) ! i)) = live_clients now (autodevice d ! i) \<and>
       (\<forall>(a, c) \<in> set (sac_clients (autodevice d ! i)). validUntil c \<le> now \<longrightarrow>
          upstreams c \<in> set (finalizers (cleanExpired now d))))"
proof -
  have "map_of (sac_clients (autodevice (cleanExpired now d) ! i)) = live_clients now (autodevice d ! i)"
    if "i < length (autodevice d)" for i
    using cleanExpired_clients [OF storage_invD(3) [OF assms]] that by (simp add: cleanExpired_def)
  moreover have "upstreams c \<in> set (finalizers (cleanExpired now d))"
    if "i < length (autodevice d)" "(a, c) \<in> set (sac_clients (autodevice d ! i))" "validUntil c \<le> now" for i a c
    using that by (force simp: cleanExpired_def cleanExpiredClients_def)
  ultimately show ?thesis using cleanExpired_ids [OF storage_invD(2) [OF assms]] by auto
qed

definition demo_stored :: "(string, nat \<times> string list, unit) storage" where
  "demo_stored = snd (snd (Get ref_golibs demo_ups (\<lambda>_. True) (default_identify 5) (None, None) (None, None) 0 0
     (A4 0x0A000001) ''example.com'' (NewDefaultStorage demo_auto ())))"

lemma demo_stored_inv: "storage_inv (\<lambda>_. True) (\<lambda>_. True) demo_stored"
  unfolding demo_stored_def
  by (rule default_src.Get_inv [OF NewDefaultStorage_inv]) (simp_all add: plain_addr_def)

lemma cleanExpired_exact_witness:
  "map_of (identified demo_stored) ''dev-10-0-0-1'' \<noteq> None \<and>
   map_of (identified (cleanExpired 6 demo_stored)) ''dev-10-0-0-1'' = None"
proof -
  have "map_of (identified demo_stored) ''dev-10-0-0-1''
      = Some \<lparr>id_addr = A4 0x0A000001, id_hid = \<lparr>Until = 5, ID = ''dev-10-0-0-1''\<rparr>\<rparr>"
    by code_simp
  then show ?thesis
    using cleanExpired_exact [OF demo_stored_inv, where now = 6 and k = "''dev-10-0-0-1''"] by simp
qed

text \<open>
  C12: No caller can tell whether a collection has run: a later search returns the same client,
  publishes the same results and leaves storages that stay indistinguishable.
\<close>

lemma gc_unobservable:
  assumes "storage_inv P Q d" "now \<le> t"
  shows "fst (Get G U Q src sp ip t srcNow addr domain (cleanExpired now d)) = fst (Get G U Q src sp ip t srcNow addr domain d) \<and>
    fst (snd (Get G U Q src sp ip t srcNow addr domain (cleanExpired now d))) = fst (snd (Get G U Q src sp ip t srcNow addr domain d)) \<and>
    same_live t (snd (snd (Get G U Q src sp ip t srcNow addr domain (cleanExpired now d))))
      (snd (snd (Get G U Q src sp ip t srcNow addr domain d)))"
proof -
  have s: "same_live t (cleanExpired now d) d"
    by (rule same_live_later [OF same_live_cleanExpired [OF assms(1)] assms(2)])
  show ?thesis by (intro conjI same_live_Get [OF s])
qed

lemma gc_unobservable_witness:
  "fst (Get ref_golibs demo_ups (\<lambda>_. True) (default_identify 5) (None, None) (None, None) 6 6
      (A4 0x0A000001) ''example.com'' (cleanExpired 6 demo_stored))
   = fst (Get ref_golibs demo_ups (\<lambda>_. True) (default_identify 5) (None, None) (None, None) 6 6
      (A4 0x0A000001) ''example.com'' demo_stored)"
  by (rule conjunct1 [OF gc_unobservable [OF demo_stored_inv order_refl]])

text \<open>
  Once a search has found or created an on-demand client, every later search for the same
  address and configuration before its expiry returns that same client and changes nothing,
  whatever the source of identifiers would answer.
\<close>

lemma search_again:
  assumes "newAutodeviceOrStored G U src (None, None) ip now srcNow addr i d = (Some (AutoClient c), out, d')"
    "i < length (autodevice d)" "now \<le> t" "t < validUntil c"
  shows "newAutodeviceOrStored G U src' (None, None) ip' t srcNow' addr i d'
    = (Some (AutoClient c), (Some (Some (AutoClient c), None), None), d')"
proof -
  have "map_of (sac_clients (autodevice d' ! i)) addr = Some c"
  proof (cases "findValidAutodeviceClient addr i now d")
    case (Pair r d1)
    show ?thesis
    proof (cases r)
      case (Some x)
      then show ?thesis using Pair assms(1)
        by (auto simp: newAutodeviceOrStored_def findValidAutodeviceClient_def split: option.splits if_splits)
    next
      case None
      obtain q o2 d2 where 2: "identify src ip srcNow addr now d1 = (q, o2, d2)" by (metis surj_pair)
      have "i < length (autodevice d2)"
        using assms(2) findValid_frame(1) [of addr i now d] identify_frame(1) [of src ip srcNow addr now d1] Pair 2
        by simp
      with None Pair 2 assms(1) show ?thesis
        by (auto simp: newAutodeviceOrStored_def storage_newAutodeviceClient_def Let_def AList.update_conv'
            split: sum.splits)
    qed
  qed
  with assms(4) show ?thesis by (simp add: newAutodeviceOrStored_def findValidAutodeviceClient_def)
qed

lemma search_again_witness:
  "\<exists>c. fst (newAutodeviceOrStored ref_golibs demo_ups empty_identify (None, None) (None, None) 4 4 (A4 0x0A000001) 0 demo_stored)
     = Some (AutoClient c)"
proof -
  have eq: "newAutodeviceOrStored ref_golibs demo_ups (default_identify 5) (None, None) (None, None) 0 0 (A4 0x0A000001) 0
      (NewDefaultStorage demo_auto ()) = (Some (AutoClient \<lparr>upstreams = (4096, [''quic://otr-abcd1234-dev-10-0-0-1.d.adguard-dns.com/dns-query'']), validUntil = 5\<rparr>),
        fst (snd (newAutodeviceOrStored ref_golibs demo_ups (default_identify 5) (None, None) (None, None) 0 0 (A4 0x0A000001) 0
          (NewDefaultStorage demo_auto ()))), demo_stored)" (is "?l = ?r")
  proof -
    have "fst ?l = fst ?r" by code_simp
    moreover have "snd (snd ?l) = demo_stored"
      unfolding demo_stored_def Get_def findAutodevice_def
      by (simp add: findStaticClient_def NewDefaultStorage_def demo_auto_def static_clients_def autodevice_clients_def
          sac_matches_def matchesDomain_def)
    ultimately show ?thesis by (simp add: prod_eq_iff)
  qed
  have "0 < length (autodevice (NewDefaultStorage demo_auto ()))" by code_simp
  with search_again [OF eq, of 4] show ?thesis by simp
qed

section \<open>The collector and the shutdown\<close>

text \<open>
  The collector cleans at every tick before the first end of its context or of the storage,
  ends there, and does nothing after it.
\<close>

lemma runGC_until_done:
  assumes "e = CtxDone \<or> e = GcDone"
  shows "runGC (map Tick ts @ e # evs) d = (fold cleanExpired ts d, True) \<and>
    runGC (map Tick ts) d = (fold cleanExpired ts d, False)"
  using assms by (induction ts arbitrary: d) auto

lemma runGC_until_done_witness:
  "runGC [Tick 1, GcDone, Tick 2] demo_stored = (cleanExpired 1 demo_stored, True)"
  using runGC_until_done [where e = GcDone and ts = "[1]" and evs = "[Tick 2]" and d = demo_stored] by simp

text \<open>
  A shutdown closes the upstreams of all static and on-demand clients and succeeds exactly if
  every one of them closes; it stops the collector, and a second one panics.
\<close>

lemma Shutdown_result:
  assumes "\<not> gcDone d"
  shows "\<exists>res d'. Shutdown U d = Some (res, d') \<and> gcDone d' \<and> Shutdown U d' = None \<and>
    (res = None \<longleftrightarrow> (\<forall>c \<in> set (static d). CloseUpstreams U (Upstreams (sc_client c)) = None) \<and>
       (\<forall>c \<in> set (autodevice d). \<forall>(a, x) \<in> set (sac_clients c). CloseUpstreams U (upstreams x) = None))"
proof -
  have f: "(\<forall>e \<in> set (List.map_filter (\<lambda>c. case g c of None \<Rightarrow> None | Some err \<Rightarrow> Some (Some (h c err))) xs). e = None)
      \<longleftrightarrow> (\<forall>c \<in> set xs. g c = None)" for g :: "'x \<Rightarrow> goerr option" and h :: "'x \<Rightarrow> goerr \<Rightarrow> goerr" and xs
    by (induction xs) (auto simp: map_filter_simps split: option.splits)
  have c: "sac_close U c = None \<longleftrightarrow> (\<forall>(a, x) \<in> set (sac_clients c). CloseUpstreams U (upstreams x) = None)" for c
    unfolding sac_close_def errors_join_None case_prod_unfold by (subst f) simp
  show ?thesis
    using assms by (simp add: Shutdown_def ball_Un f c)
qed

lemma Shutdown_result_witness: "\<exists>d'. Shutdown demo_ups demo_stored = Some (None, d')"
proof -
  have "\<not> gcDone demo_stored" by code_simp
  then show ?thesis using Shutdown_result [of demo_stored demo_ups] by (auto simp: demo_ups_def)
qed

end
