(* ===== verification/OpQueue.thy ===== *)
theory OpQueue
  imports Prelude
begin

text \<open>
  \<open>internal/client/queue.go\<close>: the queue that lets one caller per key work while the others wait
  for its result.  The state is the synchronised map from keys to cells and the cells
  (\<open>queueResult\<close>); threads interleave at every atomic operation of the map and of the channel.
  A caller that \<open>push\<close> gives a zero value and no error is the one that works and calls \<open>done\<close>.
\<close>

section \<open>State\<close>

record 'v qresult =
  closed :: bool
  qres :: "'v option"
  qerr :: "goerr option"

text \<open>
  Where a thread is: outside of the queue; in the \<open>select\<close> of \<open>push\<close>; leading, between \<open>push\<close> and
  \<open>done\<close>; in \<open>done\<close> after \<open>Load\<close>, after the assignment, after \<open>close\<close>; back with a result; or
  panicking.
\<close>

datatype ('k, 'v) pc =
    Idle
  | Waiting 'k nat
  | Leading 'k
  | Loaded 'k nat "'v option" "goerr option"
  | Written 'k nat
  | Closed 'k
  | Returned "'v option" "goerr option"
  | Panicked

text \<open>\<open>published\<close> records the calls of \<open>done\<close> with the cells they found; the code has no such field.\<close>

record ('k, 'v) queue =
  qmap :: "'k \<rightharpoonup> nat"
  cells :: "nat \<Rightarrow> 'v qresult"
  fresh :: nat
  pcs :: "nat \<Rightarrow> ('k, 'v) pc"
  published :: "(nat \<times> 'v option \<times> goerr option) list"

definition newQueue :: "('k, 'v) queue" where
  "newQueue = \<lparr>qmap = Map.empty, cells = (\<lambda>_. \<lparr>closed = False, qres = None, qerr = None\<rparr>), fresh = 0,
     pcs = (\<lambda>_. Idle), published = []\<rparr>"

definition goto :: "nat \<Rightarrow> ('k, 'v) pc \<Rightarrow> ('k, 'v) queue \<Rightarrow> ('k, 'v) queue" where
  "goto t p q = q\<lparr>pcs := (pcs q)(t := p)\<rparr>"

section \<open>Operations\<close>

text \<open>\<open>push\<close> up to \<open>LoadOrStore\<close>.\<close>

definition push :: "nat \<Rightarrow> 'k \<Rightarrow> ('k, 'v) queue \<Rightarrow> ('k, 'v) queue" where
  "push t key q =
     (case qmap q key of
        Some c \<Rightarrow> goto t (Waiting key c) q
      | None \<Rightarrow> goto t (Leading key)
          (q\<lparr>qmap := (qmap q)(key \<mapsto> fresh q), fresh := Suc (fresh q),
             cells := (cells q)(fresh q := \<lparr>closed = False, qres = None, qerr = None\<rparr>)\<rparr>))"

text \<open>
  The two cases of the \<open>select\<close>.  The caller takes a zero value with no error for its turn to lead.
\<close>

definition push_received :: "nat \<Rightarrow> 'k \<Rightarrow> nat \<Rightarrow> ('k, 'v) queue \<Rightarrow> ('k, 'v) queue" where
  "push_received t key c q =
     (let r = cells q c in
      goto t (if qres r = None \<and> qerr r = None then Leading key else Returned (qres r) (qerr r)) q)"

definition push_cancelled :: "nat \<Rightarrow> ('k, 'v) queue \<Rightarrow> ('k, 'v) queue" where
  "push_cancelled t q = goto t (Returned None (Some ErrCtxDone)) q"

text \<open>\<open>done\<close>: \<open>Load\<close>, the assignment, \<open>close\<close> and \<open>Delete\<close>.\<close>

definition done_load ::
  "nat \<Rightarrow> 'k \<Rightarrow> 'v option \<Rightarrow> goerr option \<Rightarrow> ('k, 'v) queue \<Rightarrow> ('k, 'v) queue" where
  "done_load t key res err q =
     (case qmap q key of
        None \<Rightarrow> goto t Panicked q
      | Some c \<Rightarrow> goto t (Loaded key c res err) (q\<lparr>published := (c, res, err) # published q\<rparr>))"

definition done_write ::
  "nat \<Rightarrow> 'k \<Rightarrow> nat \<Rightarrow> 'v option \<Rightarrow> goerr option \<Rightarrow> ('k, 'v) queue \<Rightarrow> ('k, 'v) queue" where
  "done_write t key c res err q =
     goto t (Written key c) (q\<lparr>cells := (cells q)(c := (cells q c)\<lparr>qres := res, qerr := err\<rparr>)\<rparr>)"

definition done_close :: "nat \<Rightarrow> 'k \<Rightarrow> nat \<Rightarrow> ('k, 'v) queue \<Rightarrow> ('k, 'v) queue" where
  "done_close t key c q =
     (if closed (cells q c) then goto t Panicked q
      else goto t (Closed key) (q\<lparr>cells := (cells q)(c := (cells q c)\<lparr>closed := True\<rparr>)\<rparr>))"

definition done_delete :: "nat \<Rightarrow> 'k \<Rightarrow> ('k, 'v) queue \<Rightarrow> ('k, 'v) queue" where
  "done_delete t key q = goto t Idle (q\<lparr>qmap := (qmap q)(key := None)\<rparr>)"

text \<open>
  The steps of a thread.  The contract of the callers: \<open>done\<close> is given a result or an error, and
  is called once by a caller that leads.
\<close>

inductive qstep :: "nat \<Rightarrow> ('k, 'v) queue \<Rightarrow> ('k, 'v) queue \<Rightarrow> bool" for t :: nat where
  enter: "pcs q t = Idle \<Longrightarrow> qstep t q (push t key q)"
| receive: "pcs q t = Waiting key c \<Longrightarrow> closed (cells q c) \<Longrightarrow> qstep t q (push_received t key c q)"
| cancel: "pcs q t = Waiting key c \<Longrightarrow> qstep t q (push_cancelled t q)"
| load: "pcs q t = Leading key \<Longrightarrow> res \<noteq> None \<or> err \<noteq> None \<Longrightarrow> qstep t q (done_load t key res err q)"
| assign: "pcs q t = Loaded key c res err \<Longrightarrow> qstep t q (done_write t key c res err q)"
| close: "pcs q t = Written key c \<Longrightarrow> qstep t q (done_close t key c q)"
| delete: "pcs q t = Closed key \<Longrightarrow> qstep t q (done_delete t key q)"
| leave: "pcs q t = Returned res err \<Longrightarrow> qstep t q (goto t Idle q)"

inductive qreach :: "('k, 'v) queue \<Rightarrow> bool" where
  start: "qreach newQueue"
| step: "qreach q \<Longrightarrow> qstep t q q' \<Longrightarrow> qreach q'"

inductive_cases qstep_cases: "qstep t q q'"

section \<open>The invariant\<close>

fun leads :: "('k, 'v) pc \<Rightarrow> 'k option" where
  "leads (Leading k) = Some k"
| "leads (Loaded k _ _ _) = Some k"
| "leads (Written k _) = Some k"
| "leads (Closed k) = Some k"
| "leads _ = None"

text \<open>
  What holds of a thread by itself: a leader's key is in the map with an open cell (closed from
  \<open>close\<close> on); \<open>done\<close> works on that cell; a waiting thread's cell was made, and it is published
  if it is closed.
\<close>

fun pc_ok :: "('k, 'v) queue \<Rightarrow> ('k, 'v) pc \<Rightarrow> bool" where
  "pc_ok q Idle = True"
| "pc_ok q (Waiting k c) =
     (c < fresh q \<and> (closed (cells q c) \<or> qmap q k = Some c))"
| "pc_ok q (Leading k) = (\<exists>c. qmap q k = Some c \<and> \<not> closed (cells q c) \<and> c \<notin> fst ` set (published q))"
| "pc_ok q (Loaded k c res err) = (qmap q k = Some c \<and> \<not> closed (cells q c) \<and> (c, res, err) \<in> set (published q))"
| "pc_ok q (Written k c) = (qmap q k = Some c \<and> \<not> closed (cells q c) \<and>
     (c, qres (cells q c), qerr (cells q c)) \<in> set (published q))"
| "pc_ok q (Closed k) = (\<exists>c. qmap q k = Some c \<and> closed (cells q c))"
| "pc_ok q (Returned _ _) = True"
| "pc_ok q Panicked = False"

definition qinv :: "('k, 'v) queue \<Rightarrow> bool" where
  "qinv q = (
     (\<forall>t. pc_ok q (pcs q t)) \<and>
     (\<forall>t u k. leads (pcs q t) = Some k \<longrightarrow> leads (pcs q u) = Some k \<longrightarrow> t = u) \<and>
     (\<forall>k c. qmap q k = Some c \<longrightarrow> c < fresh q \<and> (\<exists>t. leads (pcs q t) = Some k)) \<and>
     (\<forall>k l c. qmap q k = Some c \<longrightarrow> qmap q l = Some c \<longrightarrow> k = l) \<and>
     (\<forall>c. closed (cells q c) \<longrightarrow> (c, qres (cells q c), qerr (cells q c)) \<in> set (published q)) \<and>
     (\<forall>c res err. (c, res, err) \<in> set (published q) \<longrightarrow> c < fresh q \<and> (res \<noteq> None \<or> err \<noteq> None)) \<and>
     distinct (map fst (published q)))"

lemma qinvD:
  assumes "qinv q"
  shows "pc_ok q (pcs q t)"
    "leads (pcs q t) = Some k \<Longrightarrow> leads (pcs q u) = Some k \<Longrightarrow> t = u"
    "qmap q k = Some c \<Longrightarrow> c < fresh q \<and> (\<exists>t. leads (pcs q t) = Some k)"
    "qmap q k = Some c \<Longrightarrow> qmap q l = Some c \<Longrightarrow> k = l"
    "closed (cells q c) \<Longrightarrow> (c, qres (cells q c), qerr (cells q c)) \<in> set (published q)"
    "(c, res, err) \<in> set (published q) \<Longrightarrow> c < fresh q \<and> (res \<noteq> None \<or> err \<noteq> None)"
    "distinct (map fst (published q))"
  using assms unfolding qinv_def by blast+

lemma qinv_new: "qinv newQueue"
  by (simp add: qinv_def newQueue_def)

text \<open>A thread keeps its part of the invariant when what it refers to stays.\<close>

lemma pc_ok_frame:
  assumes "pc_ok q p" "fresh q \<le> fresh q'" "set (published q) \<subseteq> set (published q')"
    "\<And>k c. leads p = Some k \<Longrightarrow> qmap q k = Some c \<Longrightarrow> qmap q' k = Some c \<and> cells q' c = cells q c \<and>
       (c \<in> fst ` set (published q') \<longrightarrow> c \<in> fst ` set (published q))"
    "\<And>k c. p = Waiting k c \<Longrightarrow> closed (cells q' c) \<or> qmap q' k = Some c"
  shows "pc_ok q' p"
proof (cases p)
  case (Leading k)
  then obtain c where c: "qmap q k = Some c" "\<not> closed (cells q c)" "c \<notin> fst ` set (published q)"
    using assms(1) by auto
  with assms(4) [of k c] Leading show ?thesis by auto
next
  case (Closed k)
  then obtain c where c: "qmap q k = Some c" "closed (cells q c)" using assms(1) by auto
  with assms(4) [of k c] Closed show ?thesis by auto
next
  case (Loaded k c res err)
  then show ?thesis using assms(1,3) assms(4) [of k c] by auto
next
  case (Written k c)
  then show ?thesis using assms(1,3) assms(4) [of k c] by auto
next
  case (Waiting k c)
  then show ?thesis using assms(1,2) assms(5) [of k c] by auto
qed (use assms(1) in auto)

lemma qinv_goto:
  assumes "qinv q" "leads (pcs q t) = None" "leads p = None" "pc_ok q p"
  shows "qinv (goto t p q)"
proof -
  have *: "pc_ok (goto t p q) x = pc_ok q x" for x
    by (cases x) (simp_all add: goto_def)
  have l: "leads (pcs (goto t p q) u) = leads (pcs q u)" for u using assms by (simp add: goto_def)
  have "pc_ok q (pcs (goto t p q) u)" for u
    using assms(4) qinvD(1) [OF assms(1), of u] by (simp add: goto_def)
  then show ?thesis using assms(1) unfolding qinv_def * l by (simp add: goto_def)
qed

lemma qinv_push:
  assumes "qinv q" "pcs q t = Idle"
  shows "qinv (push t key q)"
proof (cases "qmap q key")
  case (Some c)
  then have "qinv (goto t (Waiting key c) q)"
    using assms qinvD(3) [OF assms(1)] by (intro qinv_goto) simp_all
  with Some show ?thesis by (simp add: push_def)
next
  case None
  let ?q = "push t key q"
  have q': "qmap ?q = (qmap q)(key \<mapsto> fresh q)" "fresh ?q = Suc (fresh q)" "published ?q = published q"
    "cells ?q = (cells q)(fresh q := \<lparr>closed = False, qres = None, qerr = None\<rparr>)"
    "pcs ?q = (pcs q)(t := Leading key)"
    using None by (simp_all add: push_def goto_def)
  have new: "qmap q k \<noteq> Some (fresh q)" for k using qinvD(3) [OF assms(1)] by blast
  have pub: "(fresh q, res, err) \<notin> set (published q)" for res err using qinvD(6) [OF assms(1)] by blast
  have led: "leads (pcs q u) \<noteq> Some key" for u
    using qinvD(1) [OF assms(1), of u] None by (cases "pcs q u") auto
  have "pc_ok ?q (pcs ?q u)" for u
  proof (cases "u = t")
    case True
    then show ?thesis using pub by (auto simp: q')
  next
    case False
    have "pc_ok ?q (pcs q u)"
    proof (rule pc_ok_frame [OF qinvD(1) [OF assms(1)]])
      fix k c assume *: "pcs q u = Waiting k c"
      then have "c < fresh q" "closed (cells q c) \<or> qmap q k = Some c"
        using qinvD(1) [OF assms(1), of u] by simp_all
      then show "closed (cells ?q c) \<or> qmap ?q k = Some c" using None by (auto simp: q')
    next
      fix k c assume "leads (pcs q u) = Some k" "qmap q k = Some c"
      then show "qmap ?q k = Some c \<and> cells ?q c = cells q c \<and>
          (c \<in> fst ` set (published ?q) \<longrightarrow> c \<in> fst ` set (published q))"
        using led [of u] new [of k] by (auto simp: q')
    qed (simp_all add: q')
    with False show ?thesis by (simp add: q')
  qed
  moreover have "u = v" if "leads (pcs ?q u) = Some k" "leads (pcs ?q v) = Some k" for u v k
    using that led qinvD(2) [OF assms(1)] by (auto simp: q' split: if_splits)
  moreover have "c < fresh ?q \<and> (\<exists>t. leads (pcs ?q t) = Some k)" if "qmap ?q k = Some c" for k c
  proof (cases "k = key")
    case True
    then show ?thesis using that by (auto simp: q' intro!: exI [of _ t])
  next
    case False
    with that have "qmap q k = Some c" by (simp add: q')
    then obtain u where "leads (pcs q u) = Some k" "c < fresh q"
      using qinvD(3) [OF assms(1)] by blast
    moreover from this have "u \<noteq> t" using assms(2) by auto
    ultimately show ?thesis by (auto simp: q' intro!: exI [of _ u])
  qed
  moreover have "k = l" if "qmap ?q k = Some c" "qmap ?q l = Some c" for k l c
    using that new qinvD(4) [OF assms(1)] by (auto simp: q' split: if_splits)
  moreover have "(c, qres (cells ?q c), qerr (cells ?q c)) \<in> set (published ?q)" if "closed (cells ?q c)" for c
    using that qinvD(5) [OF assms(1)] by (auto simp: q' split: if_splits)
  moreover have "c < fresh ?q \<and> (res \<noteq> None \<or> err \<noteq> None)" if "(c, res, err) \<in> set (published ?q)" for c res err
    using that qinvD(6) [OF assms(1), of c res err] by (simp add: q')
  moreover have "distinct (map fst (published ?q))" using qinvD(7) [OF assms(1)] by (simp add: q')
  ultimately show ?thesis unfolding qinv_def by blast
qed

text \<open>A step of the leader of a key on its cell.\<close>

lemma qinv_lead:
  assumes "qinv q" "leads (pcs q t) = Some key" "qmap q key = Some c"
    and q': "qmap q' = qmap q" "fresh q' = fresh q" "cells q' = (cells q)(c := x)" "pcs q' = (pcs q)(t := p)"
    and p: "leads p = Some key" "pc_ok q' p"
    and x: "closed (cells q c) \<longrightarrow> closed x" "closed x \<longrightarrow> (c, qres x, qerr x) \<in> set (published q')"
    and pub: "published q' = published q \<or>
      (\<exists>res err. published q' = (c, res, err) # published q \<and> c \<notin> fst ` set (published q) \<and> (res \<noteq> None \<or> err \<noteq> None))"
  shows "qinv q'"
proof -
  have "pc_ok q' (pcs q' u)" for u
  proof (cases "u = t")
    case False
    have "pc_ok q' (pcs q u)"
    proof (rule pc_ok_frame [OF qinvD(1) [OF assms(1)]])
      fix k d assume *: "leads (pcs q u) = Some k" "qmap q k = Some d"
      then have "k \<noteq> key" using qinvD(2) [OF assms(1)] assms(2) False by blast
      then have "d \<noteq> c" using qinvD(4) [OF assms(1)] assms(3) *(2) by blast
      with * pub show "qmap q' k = Some d \<and> cells q' d = cells q d \<and>
          (d \<in> fst ` set (published q') \<longrightarrow> d \<in> fst ` set (published q))" by (auto simp: q')
    next
      fix k d assume "pcs q u = Waiting k d"
      then show "closed (cells q' d) \<or> qmap q' k = Some d"
        using qinvD(1) [OF assms(1), of u] x(1) by (auto simp: q')
    qed (use pub q' in auto)
    with False show ?thesis by (simp add: q')
  qed (use p q' in simp)
  moreover have l: "leads (pcs q' u) = leads (pcs q u)" for u using assms(2) p(1) by (simp add: q')
  moreover have "d < fresh q' \<and> (\<exists>t. leads (pcs q' t) = Some k)" if "qmap q' k = Some d" for k d
  proof -
    have "qmap q k = Some d" using that by (simp only: q')
    then show ?thesis using qinvD(3) [OF assms(1)] unfolding l by (simp only: q')
  qed
  moreover have "(d, qres (cells q' d), qerr (cells q' d)) \<in> set (published q')" if "closed (cells q' d)" for d
    using that qinvD(5) [OF assms(1), of d] x(2) pub by (auto simp: q' split: if_splits)
  moreover have "d < fresh q' \<and> (res \<noteq> None \<or> err \<noteq> None)" if "(d, res, err) \<in> set (published q')" for d res err
    using that pub qinvD(6) [OF assms(1), of d res err] qinvD(3) [OF assms(1,3)] by (auto simp: q')
  moreover have "distinct (map fst (published q'))" using pub qinvD(7) [OF assms(1)] by auto
  moreover have "u = v" if "leads (pcs q' u) = Some k" "leads (pcs q' v) = Some k" for u v k
    using that unfolding l by (rule qinvD(2) [OF assms(1)])
  moreover have "k = k'" if "qmap q' k = Some d" "qmap q' k' = Some d" for k k' d
    using that unfolding q' by (rule qinvD(4) [OF assms(1)])
  ultimately show ?thesis unfolding qinv_def by blast
qed

lemma qinv_done_load:
  assumes "qinv q" "pcs q t = Leading key" "res \<noteq> None \<or> err \<noteq> None"
  shows "qinv (done_load t key res err q)"
proof -
  obtain c where c: "qmap q key = Some c" "\<not> closed (cells q c)" "c \<notin> fst ` set (published q)"
    using qinvD(1) [OF assms(1), of t] assms(2) by auto
  let ?q = "done_load t key res err q"
  have "?q = goto t (Loaded key c res err) (q\<lparr>published := (c, res, err) # published q\<rparr>)"
    using c by (simp add: done_load_def)
  then show ?thesis
    by (intro qinv_lead [where q = q and t = t and key = key and c = c and q' = ?q
        and x = "cells q c" and p = "Loaded key c res err"]) (use c assms in \<open>auto simp: goto_def\<close>)
qed

lemma qinv_done_write:
  assumes "qinv q" "pcs q t = Loaded key c res err"
  shows "qinv (done_write t key c res err q)"
  by (rule qinv_lead [where q = q and t = t and key = key and c = c
        and x = "(cells q c)\<lparr>qres := res, qerr := err\<rparr>" and p = "Written key c"])
    (use assms qinvD(1) [OF assms(1), of t] in \<open>simp_all add: done_write_def goto_def\<close>)

lemma qinv_done_close:
  assumes "qinv q" "pcs q t = Written key c"
  shows "qinv (done_close t key c q)"
  by (rule qinv_lead [where q = q and t = t and key = key and c = c
        and x = "(cells q c)\<lparr>closed := True\<rparr>" and p = "Closed key"])
    (use assms qinvD(1) [OF assms(1), of t] in \<open>simp_all add: done_close_def goto_def\<close>)

lemma qinv_done_delete:
  assumes "qinv q" "pcs q t = Closed key"
  shows "qinv (done_delete t key q)"
proof -
  let ?q = "done_delete t key q"
  obtain c where c: "qmap q key = Some c" "closed (cells q c)"
    using qinvD(1) [OF assms(1), of t] assms(2) by auto
  have q': "qmap ?q = (qmap q)(key := None)" "fresh ?q = fresh q" "cells ?q = cells q"
    "pcs ?q = (pcs q)(t := Idle)" "published ?q = published q"
    by (simp_all add: done_delete_def goto_def)
  have led: "k \<noteq> key" if "leads (pcs q u) = Some k" "u \<noteq> t" for u k
    using that assms(2) qinvD(2) [OF assms(1), of u k t] by auto
  have "pc_ok ?q (pcs ?q u)" for u
  proof (cases "u = t")
    case False
    have "pc_ok ?q (pcs q u)"
    proof (rule pc_ok_frame [OF qinvD(1) [OF assms(1)]])
      fix k d assume "pcs q u = Waiting k d"
      then show "closed (cells ?q d) \<or> qmap ?q k = Some d"
        using qinvD(1) [OF assms(1), of u] c by (auto simp: q')
    qed (use led False in \<open>auto simp: q'\<close>)
    with False show ?thesis by (simp add: q')
  qed (simp add: q')
  moreover have "d < fresh ?q \<and> (\<exists>u. leads (pcs ?q u) = Some k)" if *: "qmap ?q k = Some d" for k d
  proof -
    have k: "k \<noteq> key" "qmap q k = Some d" using * by (auto simp: q' split: if_splits)
    then obtain u where u: "leads (pcs q u) = Some k" "d < fresh q" using qinvD(3) [OF assms(1)] by blast
    then have "u \<noteq> t" using k(1) assms(2) by auto
    with u show ?thesis by (auto simp: q' intro!: exI [of _ u])
  qed
  moreover have "u = v" if "leads (pcs ?q u) = Some k" "leads (pcs ?q v) = Some k" for u v k
    using that qinvD(2) [OF assms(1)] by (auto simp: q' split: if_splits)
  moreover have "k = l" if "qmap ?q k = Some d" "qmap ?q l = Some d" for k l d
    using that qinvD(4) [OF assms(1)] by (auto simp: q' split: if_splits)
  ultimately show ?thesis
    using qinvD(5,6,7) [OF assms(1)] unfolding qinv_def q'(2,3,5) by blast
qed

lemma qinv_step: "qstep t q q' \<Longrightarrow> qinv q \<Longrightarrow> qinv q'"
proof (induction rule: qstep.induct)
  case (receive q key c)
  then have "(c, qres (cells q c), qerr (cells q c)) \<in> set (published q)" by (auto dest: qinvD(5))
  then have "qres (cells q c) \<noteq> None \<or> qerr (cells q c) \<noteq> None" using receive by (auto dest: qinvD(6))
  with receive show ?case by (auto simp: push_received_def Let_def intro!: qinv_goto)
qed (auto simp: push_cancelled_def intro: qinv_push qinv_done_load qinv_done_write qinv_done_close
    qinv_done_delete intro!: qinv_goto)

lemma qreach_inv: "qreach q \<Longrightarrow> qinv q"
  by (induction rule: qreach.induct) (auto intro: qinv_new qinv_step)

section \<open>A concrete run\<close>

text \<open>Thread 0 leads a key, thread 1 waits for it, and thread 0 closes the cell with a result.\<close>

definition demo_waiting :: "(string, nat) queue" where
  "demo_waiting = push 1 ''a'' (push 0 ''a'' newQueue)"

definition demo_closed :: "(string, nat) queue" where
  "demo_closed = done_close 0 ''a'' 0 (done_write 0 ''a'' 0 (Some 7) None
     (done_load 0 ''a'' (Some 7) None demo_waiting))"

lemmas demo_simps = demo_waiting_def demo_closed_def push_def newQueue_def goto_def done_load_def
  done_write_def done_close_def

lemma demo_waiting_reach: "qreach demo_waiting"
  unfolding demo_waiting_def
  by (rule qreach.step [where t = 1], rule qreach.step [where t = 0], rule qreach.start)
    (rule qstep.enter, simp add: demo_simps)+

lemma demo_closed_reach: "qreach demo_closed"
proof -
  have "qreach (done_load 0 ''a'' (Some 7) None demo_waiting)"
    by (rule qreach.step [OF demo_waiting_reach qstep.load]) (simp_all add: demo_simps)
  then have "qreach (done_write 0 ''a'' 0 (Some 7) None (done_load 0 ''a'' (Some 7) None demo_waiting))"
    by (rule qreach.step [OF _ qstep.assign]) (simp add: demo_simps)
  then show ?thesis
    unfolding demo_closed_def by (rule qreach.step [OF _ qstep.close]) (simp add: demo_simps)
qed

section \<open>Properties\<close>

text \<open>
  C15: At most one caller leads a key at a time, and \<open>done\<close> never panics: it finds its key and
  closes an open channel, in every interleaving of callers that pass a result or an error to
  \<open>done\<close>.
\<close>

lemma queue_one_leader:
  assumes "qreach q"
  shows "pcs q t \<noteq> Panicked \<and>
    (leads (pcs q t) = Some k \<and> leads (pcs q u) = Some k \<longrightarrow> t = u)"
  using qinvD(1,2) [OF qreach_inv [OF assms]] by (metis pc_ok.simps(8))

lemma queue_one_leader_witness: "pcs demo_closed 0 \<noteq> Panicked \<and> leads (pcs demo_closed 1) = None"
  using queue_one_leader [OF demo_closed_reach, of 0 "''a''" 1] by (simp add: demo_simps)

text \<open>
  C22: A caller that waited gets exactly what the leader of its cell passed to \<open>done\<close>, which is a
  result or an error, so it never takes itself for a leader; no cell is published twice.
\<close>

lemma queue_waiter_result:
  assumes "qreach q" "pcs q t = Waiting key c" "closed (cells q c)"
  shows "\<exists>res err. (c, res, err) \<in> set (published q) \<and> pcs (push_received t key c q) t = Returned res err \<and>
    (res \<noteq> None \<or> err \<noteq> None) \<and> distinct (map fst (published q))"
proof -
  note inv = qreach_inv [OF assms(1)]
  have p: "(c, qres (cells q c), qerr (cells q c)) \<in> set (published q)" using qinvD(5) [OF inv assms(3)] .
  with qinvD(6,7) [OF inv] show ?thesis by (auto simp: push_received_def Let_def goto_def)
qed

lemma queue_waiter_result_witness:
  "\<exists>res err. (0, res, err) \<in> set (published demo_closed) \<and>
     pcs (push_received 1 ''a'' 0 demo_closed) 1 = Returned res err \<and> res = Some 7"
  using queue_waiter_result [OF demo_closed_reach, of 1 "''a''" 0]
  by (simp add: demo_simps push_received_def)

text \<open>
  A waiting caller is not forgotten: its cell is closed, or another thread leads its key and can
  take the next step of the call of \<open>done\<close> that will close it.
\<close>

lemma queue_waiter_progress:
  assumes "qreach q" "pcs q t = Waiting key c"
  shows "closed (cells q c) \<or>
    (\<exists>u q'. u \<noteq> t \<and> leads (pcs q u) = Some key \<and> qmap q key = Some c \<and> qstep u q q')"
proof (cases "closed (cells q c)")
  case False
  note inv = qreach_inv [OF assms(1)]
  have m: "qmap q key = Some c" using qinvD(1) [OF inv, of t] assms(2) False by simp
  then obtain u where u: "leads (pcs q u) = Some key" using qinvD(3) [OF inv] by blast
  moreover have "u \<noteq> t" using u assms(2) by auto
  moreover have "\<exists>q'. qstep u q q'"
    using u by (cases "pcs q u") (auto intro: qstep.intros)
  ultimately show ?thesis using m by blast
qed simp

lemma queue_waiter_progress_witness:
  "\<exists>u q'. u \<noteq> 1 \<and> leads (pcs demo_waiting u) = Some ''a'' \<and> qstep u demo_waiting q'"
proof -
  have "pcs demo_waiting 1 = Waiting ''a'' 0" "\<not> closed (cells demo_waiting 0)"
    by (simp_all add: demo_simps)
  then show ?thesis using queue_waiter_progress [OF demo_waiting_reach] by blast
qed

end
