(* ===== verification/StorageConc.thy ===== *)
theory StorageConc
  imports StorageProps OpQueue
begin

text \<open>
  The storage of clients (\<open>internal/client/defaultstorage.go\<close>) under concurrent callers: any number
  of threads in \<open>Get\<close>, the collector of \<open>runGC\<close>, the two queues, and a clock.  A step is one
  critical section of the code (under \<open>d.mu\<close> or the mutex of a stored configuration), one atomic
  operation of a queue, or one call of something outside of the storage; between two steps of a
  thread any other thread may run.  The first section cuts the operations of \<^theory_text>\<open>Storage\<close> at their
  critical sections and shows that the pieces make them up.  A call of the source of identifiers is
  one step.
\<close>

section \<open>Critical sections\<close>

text \<open>The section under \<open>d.mu\<close> of \<open>identify\<close>; \<open>now\<close> was read when the search began.\<close>

definition identify_commit ::
  "addr \<Rightarrow> int \<Rightarrow> vhid \<Rightarrow> ('o, 'cc, 's) storage \<Rightarrow> (goerr + vhid) \<times> ('o, 'cc, 's) storage" where
  "identify_commit addr now hid d =
     (case map_of (identified d) (ID hid) of
        Some existing \<Rightarrow>
          if id_addr existing \<noteq> addr \<and> now < Until (id_hid existing)
          then (Inl (EWrap (Msg ''identifying address'') ErrDuplicated), d)
          else (Inr hid, d\<lparr>identified := AList.update (ID hid) \<lparr>id_addr = addr, id_hid = hid\<rparr> (identified d)\<rparr>)
      | None \<Rightarrow>
          (Inr hid, d\<lparr>identified := AList.update (ID hid) \<lparr>id_addr = addr, id_hid = hid\<rparr> (identified d)\<rparr>))"

text \<open>The section of \<open>newAutodeviceClient\<close>.\<close>

definition store_client :: "addr \<Rightarrow> nat \<Rightarrow> 'cc auto_client \<Rightarrow> ('o, 'cc, 's) storage \<Rightarrow> ('o, 'cc, 's) storage" where
  "store_client addr i auto = upd_sac i (\<lambda>c. c\<lparr>sac_clients := AList.update addr auto (sac_clients c)\<rparr>)"

text \<open>The section of \<open>cleanExpiredClients\<close> on one configuration, and that of \<open>cleanExpired\<close>.\<close>

definition clean_sac :: "int \<Rightarrow> nat \<Rightarrow> ('o, 'cc, 's) storage \<Rightarrow> ('o, 'cc, 's) storage" where
  "clean_sac now j d =
     (let r = cleanExpiredClients now (autodevice d ! j) in
      d\<lparr>autodevice := (autodevice d)[j := fst r], finalizers := finalizers d @ snd r\<rparr>)"

definition clean_ids :: "int \<Rightarrow> ('o, 'cc, 's) storage \<Rightarrow> ('o, 'cc, 's) storage" where
  "clean_ids now d =
     d\<lparr>identified := fold (\<lambda>(_, ident) m. if Until (id_hid ident) < now then AList.delete (ID (id_hid ident)) m else m)
         (identified d) (identified d)\<rparr>"

text \<open>What a call passes to \<open>done\<close>, and what \<open>push\<close> gives back.\<close>

fun result_of :: "goerr + 'v \<Rightarrow> 'v pushed" where
  "result_of (Inl err) = (None, Some err)"
| "result_of (Inr v) = (Some v, None)"

lemma identify_pieces:
  "identify src (None, None) srcNow a now d =
     (case src a srcNow (source d) of
        (Inl err, s) \<Rightarrow> (let e = EWrap (Msg ''identifying client'') err in
           (Inl e, Some (None, Some e), d\<lparr>source := s\<rparr>))
      | (Inr hid, s) \<Rightarrow> (case identify_commit a now hid (d\<lparr>source := s\<rparr>) of
           (r, d') \<Rightarrow> (r, Some (result_of r), d')))"
  by (auto simp: identify_def identify_commit_def Let_def split: prod.splits sum.splits option.splits)

lemma clean_sac_prefix:
  "n \<le> length (autodevice d) \<Longrightarrow>
     fold (clean_sac now) [0..<n] d =
       d\<lparr>autodevice := map (fst \<circ> cleanExpiredClients now) (take n (autodevice d)) @ drop n (autodevice d),
         finalizers := finalizers d @ concat (map (snd \<circ> cleanExpiredClients now) (take n (autodevice d)))\<rparr>"
proof (induction n)
  case (Suc n)
  let ?f = "cleanExpiredClients now" and ?xs = "autodevice d"
  from Suc have n: "n < length ?xs" by simp
  then have "drop n ?xs = ?xs ! n # drop (Suc n) ?xs" by (simp add: Cons_nth_drop_Suc)
  with Suc n show ?case
    by (simp add: clean_sac_def Let_def nth_append list_update_append take_Suc_conv_app_nth)
qed simp

lemma cleanExpired_pieces:
  "clean_ids now (fold (clean_sac now) [0..<length (autodevice d)] d) = cleanExpired now d"
  by (simp add: clean_sac_prefix clean_ids_def cleanExpired_def)

section \<open>State\<close>

text \<open>
  Where a thread is in \<open>Get\<close>: in the search queue; leading the search, before it looks for a stored
  client; before the identification; in the identification queue; calling the source; with an
  identifier to commit; with the result of the identification to publish; publishing it; before
  the construction of the client; before it stores it; with a result to publish; publishing it;
  back.
\<close>

type_synonym search_request = "addr \<times> string"

datatype 'cc thread =
    Outside
  | Searching search_request nat
  | Looking search_request nat int
  | Creating search_request nat int
  | Identifying search_request nat int
  | Committing search_request nat int vhid
  | Answering search_request nat int "goerr + vhid"
  | Publishing search_request nat int "goerr + vhid"
  | Making search_request nat int "goerr + vhid"
  | Storing search_request nat "'cc auto_client"
  | Finishing search_request nat "goerr + 'cc client"
  | Closing search_request nat "goerr + 'cc client"
  | Got addr "'cc client option"

text \<open>Where the collector is; \<open>GcSac\<close> has the index of the next configuration.\<close>

datatype gc_pc = GcWait | GcSac int nat | GcIds int | GcStopped

text \<open>
  Two fields are not in the code: \<open>given\<close> records what the source has answered, the newest first, and
  \<open>asked\<close> the address and the name of the last question of each thread.
\<close>

record ('o, 'cc, 's) conc =
  db :: "('o, 'cc, 's) storage"
  sq :: "(search_request, 'cc client) queue"
  iq :: "(addr, vhid) queue"
  th :: "nat \<Rightarrow> 'cc thread"
  gc :: gc_pc
  clk :: int
  given :: "(addr \<times> vhid) list"
  asked :: "nat \<rightharpoonup> addr \<times> string"

definition conc_init :: "('o, 'cc, 's) storage \<Rightarrow> int \<Rightarrow> ('o, 'cc, 's) conc" where
  "conc_init d now = \<lparr>db = d, sq = newQueue, iq = newQueue, th = (\<lambda>_. Outside), gc = GcWait, clk = now,
    given = [], asked = Map.empty\<rparr>"

definition move :: "nat \<Rightarrow> 'cc thread \<Rightarrow> ('o, 'cc, 's) conc \<Rightarrow> ('o, 'cc, 's) conc" where
  "move t p c = c\<lparr>th := (th c)(t := p)\<rparr>"

definition ask :: "nat \<Rightarrow> addr \<Rightarrow> string \<Rightarrow> ('o, 'cc, 's) conc \<Rightarrow> ('o, 'cc, 's) conc" where
  "ask t addr domain c = c\<lparr>asked := (asked c)(t \<mapsto> (addr, domain))\<rparr>"

text \<open>The steps inside of \<open>push\<close> and \<open>done\<close> that only the queue sees, by the thread itself.\<close>

inductive qwork :: "nat \<Rightarrow> ('k, 'v) queue \<Rightarrow> ('k, 'v) queue \<Rightarrow> bool" for t :: nat where
  receive: "pcs q t = Waiting key c \<Longrightarrow> closed (cells q c) \<Longrightarrow> qwork t q (push_received t key c q)"
| assign: "pcs q t = Loaded key c res err \<Longrightarrow> qwork t q (done_write t key c res err q)"
| close: "pcs q t = Written key c \<Longrightarrow> qwork t q (done_close t key c q)"
| delete: "pcs q t = Closed key \<Longrightarrow> qwork t q (done_delete t key q)"

text \<open>Who takes a step: a thread, or its surroundings (time, the collector, a cancelled context).\<close>

datatype who = Th nat | Env

text \<open>The question of a caller that goes to the search of an on-demand client, with its index.\<close>

definition search_index ::
  "golibs \<Rightarrow> (addr \<Rightarrow> bool) \<Rightarrow> addr \<Rightarrow> string \<Rightarrow> ('o, 'cc, 's) storage \<Rightarrow> nat option" where
  "search_index G identifiable addr domain d =
     (if autodevice d = [] then None
      else if \<not> identifiable addr then None
      else find_index (\<lambda>sac. sac_matches G sac addr domain) (autodevice d))"

section \<open>Steps\<close>

inductive cstep ::
  "golibs \<Rightarrow> ('o, 'u, 'cc) ups_env \<Rightarrow> (addr \<Rightarrow> bool) \<Rightarrow> 's identify_fn set \<Rightarrow>
     who \<Rightarrow> ('o, 'cc, 's) conc \<Rightarrow> ('o, 'cc, 's) conc \<Rightarrow> bool"
  for G U identifiable srcs where
  get_static:
    "th c t = Outside \<Longrightarrow> findStaticClient G addr domain (db c) = Some cli \<Longrightarrow>
     cstep G U identifiable srcs (Th t) c (move t (Got addr (Some cli)) (ask t addr domain c))"
| get_none:
    "th c t = Outside \<Longrightarrow> findStaticClient G addr domain (db c) = None \<Longrightarrow>
     search_index G identifiable addr domain (db c) = None \<Longrightarrow>
     cstep G U identifiable srcs (Th t) c (move t (Got addr None) (ask t addr domain c))"
| get_search:
    "th c t = Outside \<Longrightarrow> findStaticClient G addr domain (db c) = None \<Longrightarrow>
     search_index G identifiable addr domain (db c) = Some i \<Longrightarrow>
     k = (addr, sac_domain (autodevice (db c) ! i)) \<Longrightarrow>
     cstep G U identifiable srcs (Th t) c (move t (Searching k i) ((ask t addr domain c)\<lparr>sq := push t k (sq c)\<rparr>))"
| search_work:
    "th c t = Searching k i \<Longrightarrow> qwork t (sq c) q \<Longrightarrow>
     cstep G U identifiable srcs (Th t) c (c\<lparr>sq := q\<rparr>)"
| search_cancel:
    "th c t = Searching k i \<Longrightarrow> pcs (sq c) t = Waiting k x \<Longrightarrow>
     cstep G U identifiable srcs Env c (c\<lparr>sq := push_cancelled t (sq c)\<rparr>)"
| search_failed:
    "th c t = Searching k i \<Longrightarrow> pcs (sq c) t = Returned res (Some err) \<Longrightarrow>
     cstep G U identifiable srcs (Th t) c (move t (Got (fst k) None) (c\<lparr>sq := goto t Idle (sq c)\<rparr>))"
| search_shared:
    "th c t = Searching k i \<Longrightarrow> pcs (sq c) t = Returned (Some cli) None \<Longrightarrow>
     cstep G U identifiable srcs (Th t) c (move t (Got (fst k) (Some cli)) (c\<lparr>sq := goto t Idle (sq c)\<rparr>))"
| read_clock:
    "th c t = Searching k i \<Longrightarrow> pcs (sq c) t = Leading k \<Longrightarrow>
     cstep G U identifiable srcs (Th t) c (move t (Looking k i (clk c)) c)"
| find_valid:
    "th c t = Looking k i now \<Longrightarrow> findValidAutodeviceClient (fst k) i now (db c) = (Some cli, d) \<Longrightarrow>
     cstep G U identifiable srcs (Th t) c (move t (Finishing k i (Inr cli)) (c\<lparr>db := d\<rparr>))"
| find_no:
    "th c t = Looking k i now \<Longrightarrow> findValidAutodeviceClient (fst k) i now (db c) = (None, d) \<Longrightarrow>
     cstep G U identifiable srcs (Th t) c (move t (Creating k i now) (c\<lparr>db := d\<rparr>))"
| ident_push:
    "th c t = Creating k i now \<Longrightarrow>
     cstep G U identifiable srcs (Th t) c (move t (Identifying k i now) (c\<lparr>iq := push t (fst k) (iq c)\<rparr>))"
| ident_work:
    "th c t = Identifying k i now \<Longrightarrow> qwork t (iq c) q \<Longrightarrow>
     cstep G U identifiable srcs (Th t) c (c\<lparr>iq := q\<rparr>)"
| ident_cancel:
    "th c t = Identifying k i now \<Longrightarrow> pcs (iq c) t = Waiting a x \<Longrightarrow>
     cstep G U identifiable srcs Env c (c\<lparr>iq := push_cancelled t (iq c)\<rparr>)"
| ident_failed:
    "th c t = Identifying k i now \<Longrightarrow> pcs (iq c) t = Returned res (Some err) \<Longrightarrow>
     cstep G U identifiable srcs (Th t) c (move t (Making k i now (Inl err)) (c\<lparr>iq := goto t Idle (iq c)\<rparr>))"
| ident_shared:
    "th c t = Identifying k i now \<Longrightarrow> pcs (iq c) t = Returned (Some hid) None \<Longrightarrow>
     cstep G U identifiable srcs (Th t) c (move t (Making k i now (Inr hid)) (c\<lparr>iq := goto t Idle (iq c)\<rparr>))"
| source_err:
    "th c t = Identifying k i now \<Longrightarrow> pcs (iq c) t = Leading (fst k) \<Longrightarrow> src \<in> srcs \<Longrightarrow>
     src (fst k) (clk c) (source (db c)) = (Inl err, s) \<Longrightarrow>
     cstep G U identifiable srcs (Th t) c
       (move t (Answering k i now (Inl (EWrap (Msg ''identifying client'') err))) (c\<lparr>db := (db c)\<lparr>source := s\<rparr>\<rparr>))"
| source_ok:
    "th c t = Identifying k i now \<Longrightarrow> pcs (iq c) t = Leading (fst k) \<Longrightarrow> src \<in> srcs \<Longrightarrow>
     src (fst k) (clk c) (source (db c)) = (Inr hid, s) \<Longrightarrow>
     cstep G U identifiable srcs (Th t) c
       (move t (Committing k i now hid) (c\<lparr>db := (db c)\<lparr>source := s\<rparr>, given := (fst k, hid) # given c\<rparr>))"
| commit:
    "th c t = Committing k i now hid \<Longrightarrow> identify_commit (fst k) now hid (db c) = (r, d) \<Longrightarrow>
     cstep G U identifiable srcs (Th t) c (move t (Answering k i now r) (c\<lparr>db := d\<rparr>))"
| answer:
    "th c t = Answering k i now r \<Longrightarrow> result_of r = (res, err) \<Longrightarrow>
     cstep G U identifiable srcs (Th t) c
       (move t (Publishing k i now r) (c\<lparr>iq := done_load t (fst k) res err (iq c)\<rparr>))"
| publish_work:
    "th c t = Publishing k i now r \<Longrightarrow> qwork t (iq c) q \<Longrightarrow>
     cstep G U identifiable srcs (Th t) c (c\<lparr>iq := q\<rparr>)"
| published:
    "th c t = Publishing k i now r \<Longrightarrow> pcs (iq c) t = Idle \<Longrightarrow>
     cstep G U identifiable srcs (Th t) c (move t (Making k i now r) c)"
| make_unidentified:
    "th c t = Making k i now (Inl err) \<Longrightarrow>
     cstep G U identifiable srcs (Th t) c
       (move t (Finishing k i (Inl (EWrap (Msg ''identifying client within prefix'') err))) c)"
| make_failed:
    "th c t = Making k i now (Inr hid) \<Longrightarrow> sac = autodevice (db c) ! i \<Longrightarrow>
     newAutodeviceClient G U hid (sac_conf sac) (sac_cacheEnabled sac) (sac_cacheSize sac) = Inl err \<Longrightarrow>
     cstep G U identifiable srcs (Th t) c
       (move t (Finishing k i (Inl (EWrap (MsgQ ''creating autodevice'' (sac_domain sac)) err))) c)"
| make:
    "th c t = Making k i now (Inr hid) \<Longrightarrow> sac = autodevice (db c) ! i \<Longrightarrow>
     newAutodeviceClient G U hid (sac_conf sac) (sac_cacheEnabled sac) (sac_cacheSize sac) = Inr auto \<Longrightarrow>
     cstep G U identifiable srcs (Th t) c (move t (Storing k i auto) c)"
| store:
    "th c t = Storing k i auto \<Longrightarrow>
     cstep G U identifiable srcs (Th t) c
       (move t (Finishing k i (Inr (AutoClient auto))) (c\<lparr>db := store_client (fst k) i auto (db c)\<rparr>))"
| finish:
    "th c t = Finishing k i r \<Longrightarrow> result_of r = (res, err) \<Longrightarrow>
     cstep G U identifiable srcs (Th t) c
       (move t (Closing k i r) (c\<lparr>sq := done_load t k res err (sq c)\<rparr>))"
| close_work:
    "th c t = Closing k i r \<Longrightarrow> qwork t (sq c) q \<Longrightarrow>
     cstep G U identifiable srcs (Th t) c (c\<lparr>sq := q\<rparr>)"
| finished:
    "th c t = Closing k i r \<Longrightarrow> pcs (sq c) t = Idle \<Longrightarrow>
     cstep G U identifiable srcs (Th t) c (move t (Got (fst k) (fst (result_of r))) c)"
| returned:
    "th c t = Got addr r \<Longrightarrow> cstep G U identifiable srcs (Th t) c (move t Outside c)"
| time_passes: "clk c \<le> now \<Longrightarrow> cstep G U identifiable srcs Env c (c\<lparr>clk := now\<rparr>)"
| gc_tick: "gc c = GcWait \<Longrightarrow> now \<le> clk c \<Longrightarrow> cstep G U identifiable srcs Env c (c\<lparr>gc := GcSac now 0\<rparr>)"
| gc_sac: "gc c = GcSac now j \<Longrightarrow> j < length (autodevice (db c)) \<Longrightarrow>
    cstep G U identifiable srcs Env c (c\<lparr>gc := GcSac now (Suc j), db := clean_sac now j (db c)\<rparr>)"
| gc_sacs: "gc c = GcSac now j \<Longrightarrow> \<not> j < length (autodevice (db c)) \<Longrightarrow>
    cstep G U identifiable srcs Env c (c\<lparr>gc := GcIds now\<rparr>)"
| gc_ids: "gc c = GcIds now \<Longrightarrow>
    cstep G U identifiable srcs Env c (c\<lparr>gc := GcWait, db := clean_ids now (db c)\<rparr>)"
| gc_stop: "gc c = GcWait \<Longrightarrow> cstep G U identifiable srcs Env c (c\<lparr>gc := GcStopped\<rparr>)"

inductive creach ::
  "golibs \<Rightarrow> ('o, 'u, 'cc) ups_env \<Rightarrow> (addr \<Rightarrow> bool) \<Rightarrow> 's identify_fn set \<Rightarrow>
     ('o, 'cc, 's) storage \<Rightarrow> ('o, 'cc, 's) conc \<Rightarrow> bool"
  for G U identifiable srcs d0 where
  start: "creach G U identifiable srcs d0 (conc_init d0 now)"
| step: "creach G U identifiable srcs d0 c \<Longrightarrow> cstep G U identifiable srcs w c c' \<Longrightarrow>
    creach G U identifiable srcs d0 c'"


inductive_cases cstep_cases: "cstep G U identifiable srcs w c c'"

lemma move_simps [simp]:
  "db (move t p c) = db c" "sq (move t p c) = sq c" "iq (move t p c) = iq c" "gc (move t p c) = gc c"
  "clk (move t p c) = clk c" "given (move t p c) = given c" "th (move t p c) = (th c)(t := p)"
  "asked (move t p c) = asked c"
  by (simp_all add: move_def)

lemma ask_simps [simp]:
  "db (ask t addr q c) = db c" "sq (ask t addr q c) = sq c" "iq (ask t addr q c) = iq c" "gc (ask t addr q c) = gc c"
  "clk (ask t addr q c) = clk c" "given (ask t addr q c) = given c" "th (ask t addr q c) = th c"
  "asked (ask t addr q c) = (asked c)(t \<mapsto> (addr, q))"
  by (simp_all add: ask_def)

section \<open>The queues\<close>

lemma goto_simps [simp]:
  "qmap (goto t p q) = qmap q" "cells (goto t p q) = cells q" "fresh (goto t p q) = fresh q"
  "pcs (goto t p q) = (pcs q)(t := p)" "published (goto t p q) = published q"
  by (simp_all add: goto_def)

lemma qwork_qstep: "qwork t q q' \<Longrightarrow> qstep t q q'"
  by (induction rule: qwork.induct) (auto intro: qstep.intros)

lemma qreach_qwork: "qreach q \<Longrightarrow> qwork t q q' \<Longrightarrow> qreach q'"
  by (auto intro: qreach.step qwork_qstep)

lemma qreach_push: "qreach q \<Longrightarrow> pcs q t = Idle \<Longrightarrow> qreach (push t k q)"
  by (auto intro: qreach.step qstep.enter)

lemma qreach_cancelled: "qreach q \<Longrightarrow> pcs q t = Waiting k x \<Longrightarrow> qreach (push_cancelled t q)"
  by (auto intro: qreach.step qstep.cancel)

lemma qreach_load:
  "qreach q \<Longrightarrow> pcs q t = Leading k \<Longrightarrow> result_of r = (res, err) \<Longrightarrow> qreach (done_load t k res err q)"
  by (rule qreach.step [OF _ qstep.load]) (cases r; auto)+

lemma qreach_leave: "qreach q \<Longrightarrow> pcs q t = Returned res err \<Longrightarrow> qreach (goto t Idle q)"
  by (auto intro: qreach.step qstep.leave)

text \<open>Where the steps of a thread take it, and that they leave the others where they are.\<close>

lemma pcs_push: "u \<noteq> t \<Longrightarrow> pcs (push t k q) u = pcs q u" "pcs (push t k q) t \<in> insert (Leading k) (range (Waiting k))"
  by (auto simp: push_def split: option.splits)

lemma pcs_load:
  assumes "qreach q" "pcs q t = Leading k"
  shows "u \<noteq> t \<Longrightarrow> pcs (done_load t k res err q) u = pcs q u"
    "\<exists>x. pcs (done_load t k res err q) t = Loaded k x res err"
  using qinvD(1) [OF qreach_inv [OF assms(1)], of t] assms(2) by (auto simp: done_load_def split: option.splits)

lemma pcs_qwork: "qwork t q q' \<Longrightarrow> u \<noteq> t \<Longrightarrow> pcs q' u = pcs q u"
  by (induction rule: qwork.induct)
    (auto simp: push_received_def done_write_def done_close_def done_delete_def Let_def)

lemma pcs_cancelled [simp]: "pcs (push_cancelled t q) = (pcs q)(t := Returned None (Some ErrCtxDone))"
  by (simp add: push_cancelled_def)

lemma closed_result:
  assumes "qreach q" "closed (cells q x)"
  shows "qres (cells q x) \<noteq> None \<or> qerr (cells q x) \<noteq> None"
    "(x, qres (cells q x), qerr (cells q x)) \<in> set (published q)"
  using qinvD(5) [OF qreach_inv [OF assms(1)] assms(2)] qinvD(6) [OF qreach_inv [OF assms(1)]] by blast+

text \<open>The steps between the program counters of a queue.\<close>

fun work_pc :: "('k, 'v) pc \<Rightarrow> ('k, 'v) pc \<Rightarrow> bool" where
  "work_pc (Waiting k x) p = (\<exists>res err. p = Returned res err \<and> (res \<noteq> None \<or> err \<noteq> None))"
| "work_pc (Loaded k x res err) p = (p = Written k x)"
| "work_pc (Written k x) p = (p = Closed k)"
| "work_pc (Closed k) p = (p = Idle)"
| "work_pc _ p = False"

lemma qwork_pc:
  assumes "qwork t q q'" "qreach q"
  shows "work_pc (pcs q t) (pcs q' t)"
  using assms
proof (induction rule: qwork.induct)
  case (receive q key x)
  with closed_result(1) [of q x] show ?case by (auto simp: push_received_def Let_def)
next
  case (close q key x)
  then have "\<not> closed (cells q x)" using qinvD(1) [OF qreach_inv, of q t] by simp
  with close show ?case by (simp add: done_close_def)
qed (simp_all add: done_write_def done_delete_def)

text \<open>A thread that is in a queue can work, unless it waits for a cell that is not closed.\<close>

lemma qwork_enabled: "pcs q t = Waiting k x \<Longrightarrow> closed (cells q x) \<Longrightarrow> \<exists>q'. qwork t q q'"
  by (blast intro: qwork.intros)

lemma qwork_done:
  "(\<exists>x res err. pcs q t = Loaded k x res err) \<or> (\<exists>x. pcs q t = Written k x) \<or> pcs q t = Closed k \<Longrightarrow> \<exists>q'. qwork t q q'"
  by (blast intro: qwork.intros)

text \<open>
  If every result that is published for a key satisfies \<open>P\<close>, so does every result that a waiting
  caller of the key receives.
\<close>

definition qgood :: "('k \<Rightarrow> 'v \<Rightarrow> bool) \<Rightarrow> ('k, 'v) queue \<Rightarrow> bool" where
  "qgood P q = (\<forall>k x v err. (x, Some v, err) \<in> set (published q) \<longrightarrow>
     qmap q k = Some x \<or> (\<exists>t. pcs q t = Waiting k x) \<longrightarrow> P k v)"

lemma qgoodD:
  assumes "qgood P q" "(x, Some v, err) \<in> set (published q)"
  shows "qmap q k = Some x \<Longrightarrow> P k v" "pcs q t = Waiting k x \<Longrightarrow> P k v"
  using assms unfolding qgood_def by blast+

lemma qgood_new: "qgood P newQueue"
  by (simp add: qgood_def newQueue_def)

lemma qgood_mono: "qgood P q \<Longrightarrow> (\<And>k v. P k v \<Longrightarrow> Q k v) \<Longrightarrow> qgood Q q"
  unfolding qgood_def by blast

lemma qgood_sub:
  assumes "qgood P q" "set (published q') \<subseteq> set (published q)" "\<And>k x. qmap q' k = Some x \<Longrightarrow> qmap q k = Some x"
    "\<And>u k x. pcs q' u = Waiting k x \<Longrightarrow> pcs q u = Waiting k x \<or> qmap q k = Some x"
  shows "qgood P q'"
  using assms unfolding qgood_def by blast

lemma qgood_push:
  assumes "qgood P q" "qreach q"
  shows "qgood P (push t k q)"
proof -
  have "(fresh q, res, err) \<notin> set (published q)" for res err
    using qinvD(6) [OF qreach_inv [OF assms(2)]] by blast
  with assms(1) show ?thesis
    unfolding qgood_def push_def by (fastforce split: option.splits if_splits)
qed

lemma qgood_goto: "qgood P q \<Longrightarrow> (\<And>k x. p \<noteq> Waiting k x) \<Longrightarrow> qgood P (goto t p q)"
  by (erule qgood_sub) (auto split: if_splits)

lemma qgood_load:
  assumes "qgood P q" "qreach q" "pcs q t = Leading k" "\<And>v. res = Some v \<Longrightarrow> P k v"
  shows "qgood P (done_load t k res err q)"
proof -
  note inv = qreach_inv [OF assms(2)]
  obtain x where x: "qmap q k = Some x" "\<not> closed (cells q x)"
    using qinvD(1) [OF inv, of t] assms(3) by auto
  have key: "l = k" if "qmap q l = Some x" for l by (rule qinvD(4) [OF inv that x(1)])
  have wait: "l = k" if "pcs q u = Waiting l x" for l u
    using qinvD(1) [OF inv, of u] that x(2) key by simp
  have "done_load t k res err q = goto t (Loaded k x res err) (q\<lparr>published := (x, res, err) # published q\<rparr>)"
    using x(1) by (simp add: done_load_def)
  then show ?thesis
    using assms(1,4) unfolding qgood_def by (auto split: if_splits dest: key wait)
qed

lemma qgood_qwork: "qwork t q q' \<Longrightarrow> qgood P q \<Longrightarrow> qgood P q'"
  by (induction rule: qwork.induct; erule qgood_sub)
    (auto simp: push_received_def done_write_def done_close_def done_delete_def Let_def split: if_splits)

lemma qwork_received:
  assumes "qwork t q q'" "qreach q" "qgood P q" "pcs q t = Waiting k x" "pcs q' t = Returned (Some v) err"
  shows "P k v"
  using assms
proof (induction rule: qwork.induct)
  case (receive q key y)
  then have "qres (cells q x) = Some v" "closed (cells q x)"
    by (auto simp: push_received_def Let_def split: if_splits)
  with closed_result(2) [of q x] receive show ?case by (auto intro: qgoodD)
qed simp_all


section \<open>Threads and queues\<close>

text \<open>Where a thread is in the two queues, by where it is in \<open>Get\<close>.\<close>

fun in_search :: "'cc thread \<Rightarrow> (search_request, 'cc client) pc \<Rightarrow> bool" where
  "in_search (Searching k i) p = (p = Leading k \<or> (\<exists>x. p = Waiting k x) \<or>
     (\<exists>res err. p = Returned res err \<and> (res \<noteq> None \<or> err \<noteq> None)))"
| "in_search (Looking k i now) p = (p = Leading k)"
| "in_search (Creating k i now) p = (p = Leading k)"
| "in_search (Identifying k i now) p = (p = Leading k)"
| "in_search (Committing k i now hid) p = (p = Leading k)"
| "in_search (Answering k i now r) p = (p = Leading k)"
| "in_search (Publishing k i now r) p = (p = Leading k)"
| "in_search (Making k i now r) p = (p = Leading k)"
| "in_search (Storing k i auto) p = (p = Leading k)"
| "in_search (Finishing k i r) p = (p = Leading k)"
| "in_search (Closing k i r) p = ((\<exists>x res err. p = Loaded k x res err) \<or> (\<exists>x. p = Written k x) \<or> p = Closed k \<or> p = Idle)"
| "in_search _ p = (p = Idle)"

fun in_ident :: "'cc thread \<Rightarrow> (addr, vhid) pc \<Rightarrow> bool" where
  "in_ident (Identifying k i now) p = (p = Leading (fst k) \<or> (\<exists>x. p = Waiting (fst k) x) \<or>
     (\<exists>res err. p = Returned res err \<and> (res \<noteq> None \<or> err \<noteq> None)))"
| "in_ident (Committing k i now hid) p = (p = Leading (fst k))"
| "in_ident (Answering k i now r) p = (p = Leading (fst k))"
| "in_ident (Publishing k i now r) p =
     ((\<exists>x res err. p = Loaded (fst k) x res err) \<or> (\<exists>x. p = Written (fst k) x) \<or> p = Closed (fst k) \<or> p = Idle)"
| "in_ident _ p = (p = Idle)"

definition queues_ok :: "('o, 'cc, 's) conc \<Rightarrow> bool" where
  "queues_ok c = (qreach (sq c) \<and> qreach (iq c) \<and>
     (\<forall>t. in_search (th c t) (pcs (sq c) t) \<and> in_ident (th c t) (pcs (iq c) t)))"

lemma queues_okD:
  assumes "queues_ok c"
  shows "qreach (sq c)" "qreach (iq c)" "in_search (th c t) (pcs (sq c) t)" "in_ident (th c t) (pcs (iq c) t)"
  using assms by (simp_all add: queues_ok_def)

lemma queues_at:
  "queues_ok c \<Longrightarrow> qreach (sq c) \<and> qreach (iq c) \<and>
     in_search (th c t) (pcs (sq c) t) \<and> in_ident (th c t) (pcs (iq c) t)"
  by (simp add: queues_ok_def)

lemma in_queues:
  "queues_ok c \<Longrightarrow> th c t = p \<Longrightarrow> in_search p (pcs (sq c) t) \<and> in_ident p (pcs (iq c) t)"
  by (auto simp: queues_ok_def)

lemma queues_ok_init: "queues_ok (conc_init d now)"
  by (simp add: queues_ok_def conc_init_def qreach.start) (simp add: newQueue_def)

text \<open>A step of one thread keeps the shape when it does so for that thread.\<close>

lemma queues_ok_frame:
  assumes "queues_ok c" "\<And>u. u \<noteq> t \<Longrightarrow> th c' u = th c u \<and> pcs (sq c') u = pcs (sq c) u \<and> pcs (iq c') u = pcs (iq c) u"
    "qreach (sq c')" "qreach (iq c')" "in_search (th c' t) (pcs (sq c') t)" "in_ident (th c' t) (pcs (iq c') t)"
  shows "queues_ok c'"
  unfolding queues_ok_def
proof (intro conjI allI)
  fix u
  show "in_search (th c' u) (pcs (sq c') u)" "in_ident (th c' u) (pcs (iq c') u)"
    using assms queues_okD(3,4) [OF assms(1), of u] by (cases "u = t"; simp)+
qed (use assms in auto)

lemma queues_ok_step: "cstep G U identifiable srcs w c c' \<Longrightarrow> queues_ok c \<Longrightarrow> queues_ok c'"
proof (induction rule: cstep.induct)
  case (get_search c t addr domain i k)
  from get_search.prems get_search.hyps(1) have "pcs (sq c) t = Idle" using queues_okD(3) [of c t] by simp
  with get_search show ?case
    using queues_at [OF get_search.prems, of t] pcs_push(2) [of t k "sq c"]
    by (intro queues_ok_frame [OF get_search.prems, where t = t]) (auto simp: pcs_push(1) intro: qreach_push)
next
  case (ident_push c t k i now)
  have "pcs (iq c) t = Idle" using queues_okD(4) [OF ident_push.prems, of t] ident_push.hyps by simp
  with ident_push show ?case
    using queues_at [OF ident_push.prems, of t] pcs_push(2) [of t "fst k" "iq c"]
    by (intro queues_ok_frame [OF ident_push.prems, where t = t]) (auto simp: pcs_push(1) intro: qreach_push)
next
  case (answer c t k i now r res err)
  with queues_at [OF answer.prems, of t] show ?case
    using pcs_load [where q = "iq c" and t = t and k = "fst k" and res = res and err = err]
    by (intro queues_ok_frame [OF answer.prems, where t = t]) (auto intro: qreach_load)
next
  case (finish c t k i r res err)
  with queues_at [OF finish.prems, of t] show ?case
    using pcs_load [where q = "sq c" and t = t and k = k and res = res and err = err]
    by (intro queues_ok_frame [OF finish.prems, where t = t]) (auto intro: qreach_load)
next
  case (search_work c t k i q)
  with queues_at [OF search_work.prems, of t] show ?case
    using qwork_pc [OF search_work.hyps(2)]
    by (intro queues_ok_frame [OF search_work.prems, where t = t]) (auto simp: pcs_qwork intro: qreach_qwork)
next
  case (ident_work c t k i now q)
  with queues_at [OF ident_work.prems, of t] show ?case
    using qwork_pc [OF ident_work.hyps(2)]
    by (intro queues_ok_frame [OF ident_work.prems, where t = t]) (auto simp: pcs_qwork intro: qreach_qwork)
next
  case (publish_work c t k i now r q)
  with queues_at [OF publish_work.prems, of t] show ?case
    using qwork_pc [OF publish_work.hyps(2)]
    by (intro queues_ok_frame [OF publish_work.prems, where t = t]) (auto simp: pcs_qwork intro: qreach_qwork)
next
  case (close_work c t k i r q)
  with queues_at [OF close_work.prems, of t] show ?case
    using qwork_pc [OF close_work.hyps(2)]
    by (intro queues_ok_frame [OF close_work.prems, where t = t]) (auto simp: pcs_qwork intro: qreach_qwork)
qed ((frule (1) in_queues, force simp: queues_ok_def intro: qreach_cancelled qreach_leave)
    | simp add: queues_ok_def)+

lemma creach_queues: "creach G U identifiable srcs d0 c \<Longrightarrow> queues_ok c"
  by (induction rule: creach.induct) (auto intro: queues_ok_init queues_ok_step)


section \<open>Requests and configurations\<close>

text \<open>No step changes the configurations or the static clients.\<close>

definition configs :: "('o, 'cc, 's) storage \<Rightarrow> ('o, 'cc) sac list" where
  "configs d = map (\<lambda>s. s\<lparr>sac_clients := []\<rparr>) (autodevice d)"

lemma configs_same:
  assumes "configs d' = configs d"
  shows "length (autodevice d') = length (autodevice d)"
    "i < length (autodevice d) \<Longrightarrow> (autodevice d' ! i)\<lparr>sac_clients := []\<rparr> = (autodevice d ! i)\<lparr>sac_clients := []\<rparr>"
proof -
  show len: "length (autodevice d') = length (autodevice d)"
    using arg_cong [OF assms, of length] by (simp add: configs_def)
  show "(autodevice d' ! i)\<lparr>sac_clients := []\<rparr> = (autodevice d ! i)\<lparr>sac_clients := []\<rparr>"
    if "i < length (autodevice d)"
    using arg_cong [OF assms, of "\<lambda>xs. xs ! i"] that len by (simp add: configs_def)
qed

lemma sac_same:
  assumes "s\<lparr>sac_clients := []\<rparr> = s'\<lparr>sac_clients := []\<rparr>"
  shows "sac_conf s = sac_conf s'" "sac_prefix s = sac_prefix s'" "sac_domain s = sac_domain s'"
    "sac_cacheEnabled s = sac_cacheEnabled s'" "sac_cacheSize s = sac_cacheSize s'"
  using assms by (cases s; cases s'; simp)+

lemma configs_upd:
  assumes "(f (autodevice d ! i))\<lparr>sac_clients := []\<rparr> = (autodevice d ! i)\<lparr>sac_clients := []\<rparr>"
  shows "map (\<lambda>s. s\<lparr>sac_clients := []\<rparr>) ((autodevice d)[i := f (autodevice d ! i)]) = configs d"
  using assms by (cases "i < length (autodevice d)") (simp_all add: configs_def map_update list_update_same_conv list_update_beyond)

lemma configs_ops:
  "configs (store_client a i auto d) = configs d"
  "configs (clean_sac now i d) = configs d"
  "configs (clean_ids now d) = configs d"
  "identify_commit a now hid d = (r, d') \<Longrightarrow> configs d' = configs d"
  "findValidAutodeviceClient a i now d = (res, d') \<Longrightarrow> configs d' = configs d"
proof -
  show "configs (store_client a i auto d) = configs d"
    using configs_upd [of "\<lambda>c. c\<lparr>sac_clients := AList.update a auto (sac_clients c)\<rparr>" d i]
    by (simp add: store_client_def upd_sac_def configs_def)
  show "configs (clean_sac now i d) = configs d"
    using configs_upd [of "\<lambda>c. fst (cleanExpiredClients now c)" d i]
    by (simp add: clean_sac_def Let_def configs_def cleanExpiredClients_def)
  show "configs d' = configs d" if "findValidAutodeviceClient a i now d = (res, d')"
    using that configs_upd [of "\<lambda>c. c\<lparr>sac_clients := AList.delete a (sac_clients c)\<rparr>" d i]
    by (auto simp: findValidAutodeviceClient_def upd_sac_def configs_def split: option.splits if_splits)
qed (auto simp: clean_ids_def configs_def identify_commit_def split: option.splits if_splits)

lemma cstep_configs: "cstep G U identifiable srcs w c c' \<Longrightarrow> configs (db c') = configs (db c)"
  by (induction rule: cstep.induct) (auto intro: configs_ops simp: configs_ops(1-3), simp_all add: configs_def)

text \<open>The request of a thread, with the index of its configuration.\<close>

fun request :: "'cc thread \<Rightarrow> (search_request \<times> nat) option" where
  "request (Searching k i) = Some (k, i)"
| "request (Looking k i now) = Some (k, i)"
| "request (Creating k i now) = Some (k, i)"
| "request (Identifying k i now) = Some (k, i)"
| "request (Committing k i now hid) = Some (k, i)"
| "request (Answering k i now r) = Some (k, i)"
| "request (Publishing k i now r) = Some (k, i)"
| "request (Making k i now r) = Some (k, i)"
| "request (Storing k i auto) = Some (k, i)"
| "request (Finishing k i r) = Some (k, i)"
| "request (Closing k i r) = Some (k, i)"
| "request Outside = None"
| "request (Got addr r) = None"

definition request_ok :: "('o, 'cc, 's) storage \<Rightarrow> search_request \<Rightarrow> nat \<Rightarrow> bool" where
  "request_ok d k i = (i < length (autodevice d) \<and> snd k = sac_domain (autodevice d ! i))"

lemma request_ok_cong: "configs d' = configs d \<Longrightarrow> request_ok d' = request_ok d"
  by (intro ext) (metis request_ok_def configs_same sac_same(3))

definition requests_ok :: "('o, 'cc, 's) conc \<Rightarrow> bool" where
  "requests_ok c = (\<forall>t k i. request (th c t) = Some (k, i) \<longrightarrow> request_ok (db c) k i)"

lemma requests_at: "requests_ok c \<Longrightarrow> th c t = p \<Longrightarrow> request p = Some (k, i) \<Longrightarrow> request_ok (db c) k i"
  unfolding requests_ok_def by blast

lemma requests_ok_step:
  assumes "cstep G U identifiable srcs w c c'" "requests_ok c"
  shows "requests_ok c'"
proof -
  have "request_ok (db c) k i" if "request (th c' t) = Some (k, i)" for t k i
    using assms that
  proof (induction rule: cstep.induct)
    case (get_search c u addr domain j l)
    have "request_ok (db c) l j"
      using get_search.hyps(3,4) find_index_find(1) [of _ "autodevice (db c)" j]
      by (auto simp: request_ok_def search_index_def split: if_splits)
    with get_search.prems show ?case by (auto simp: requests_at split: if_splits)
  qed (auto simp: requests_at split: if_splits)
  then show ?thesis
    unfolding requests_ok_def request_ok_cong [OF cstep_configs [OF assms(1)]] by blast
qed

lemma creach_requests: "creach G U identifiable srcs d0 c \<Longrightarrow> requests_ok c"
proof (induction rule: creach.induct)
  case (start now)
  then show ?case by (simp add: requests_ok_def conc_init_def)
qed (rule requests_ok_step)


section \<open>Identifiers of live clients\<close>

text \<open>The identifier of an unexpired \<open>hid\<close> is recorded for the address, for at least as long.\<close>

definition held :: "('o, 'cc, 's) conc \<Rightarrow> addr \<Rightarrow> vhid \<Rightarrow> bool" where
  "held c a hid = (clk c < Until hid \<longrightarrow> (\<exists>e. map_of (identified (db c)) (ID hid) = Some e \<and>
     id_addr e = a \<and> Until hid \<le> Until (id_hid e)))"

definition good :: "bool \<Rightarrow> ('o, 'cc, 's) conc \<Rightarrow> addr \<Rightarrow> vhid \<Rightarrow> bool" where
  "good M c a hid = ((a, hid) \<in> set (given c) \<and> (M \<longrightarrow> held c a hid))"

definition made ::
  "golibs \<Rightarrow> ('o, 'u, 'cc) ups_env \<Rightarrow> ('o, 'cc, 's) storage \<Rightarrow> nat \<Rightarrow> vhid \<Rightarrow> 'cc auto_client \<Rightarrow> bool" where
  "made G U d i hid auto = (let sac = autodevice d ! i in
     newAutodeviceClient G U hid (sac_conf sac) (sac_cacheEnabled sac) (sac_cacheSize sac) = Inr auto)"

text \<open>
  The source never shortens the life of a name that it has given to an address.  The history is
  the newest first.
\<close>

fun mono_hist :: "(addr \<times> vhid) list \<Rightarrow> bool" where
  "mono_hist [] = True"
| "mono_hist ((a, v) # h) =
     ((\<forall>(b, w) \<in> set h. b = a \<longrightarrow> ID w = ID v \<longrightarrow> Until w \<le> Until v) \<and> mono_hist h)"

lemma mono_hist_newest:
  "mono_hist h \<Longrightarrow> map_of h a = Some v \<Longrightarrow> (a, w) \<in> set h \<Longrightarrow> ID w = ID v \<Longrightarrow> Until w \<le> Until v"
  by (induction h rule: mono_hist.induct) (auto split: if_splits dest: map_of_SomeD)

fun thread_ok :: "bool \<Rightarrow> golibs \<Rightarrow> ('o, 'u, 'cc) ups_env \<Rightarrow> ('o, 'cc, 's) conc \<Rightarrow> 'cc thread \<Rightarrow> bool" where
  "thread_ok M G U c (Looking k i now) = (now \<le> clk c)"
| "thread_ok M G U c (Creating k i now) = (now \<le> clk c)"
| "thread_ok M G U c (Identifying k i now) = (now \<le> clk c)"
| "thread_ok M G U c (Committing k i now hid) = (now \<le> clk c \<and> map_of (given c) (fst k) = Some hid)"
| "thread_ok M G U c (Answering k i now (Inr hid)) = good M c (fst k) hid"
| "thread_ok M G U c (Publishing k i now (Inr hid)) = good M c (fst k) hid"
| "thread_ok M G U c (Making k i now (Inr hid)) = good M c (fst k) hid"
| "thread_ok M G U c (Storing k i auto) = (\<exists>hid. good M c (fst k) hid \<and> made G U (db c) i hid auto)"
| "thread_ok M G U c p = True"

fun gc_time :: "gc_pc \<Rightarrow> int option" where
  "gc_time (GcSac now j) = Some now"
| "gc_time (GcIds now) = Some now"
| "gc_time p = None"

definition keyed :: "(human_id \<times> identity) list \<Rightarrow> bool" where
  "keyed m = (distinct (map fst m) \<and> (\<forall>(k, i) \<in> set m. k = ID (id_hid i)))"

definition shared_ok :: "bool \<Rightarrow> ('o, 'cc, 's) conc \<Rightarrow> bool" where
  "shared_ok M c = (qgood (good M c) (iq c) \<and>
     (\<forall>t k i now v err. th c t = Identifying k i now \<longrightarrow> pcs (iq c) t = Returned (Some v) err \<longrightarrow> good M c (fst k) v))"

definition clients_ok :: "bool \<Rightarrow> golibs \<Rightarrow> ('o, 'u, 'cc) ups_env \<Rightarrow> ('o, 'cc, 's) conc \<Rightarrow> bool" where
  "clients_ok M G U c = (\<forall>i a auto. i < length (autodevice (db c)) \<longrightarrow>
     (a, auto) \<in> set (sac_clients (autodevice (db c) ! i)) \<longrightarrow> (\<exists>hid. good M c a hid \<and> made G U (db c) i hid auto))"

definition ids_ok :: "bool \<Rightarrow> golibs \<Rightarrow> ('o, 'u, 'cc) ups_env \<Rightarrow> ('o, 'cc, 's) conc \<Rightarrow> bool" where
  "ids_ok M G U c = (queues_ok c \<and> requests_ok c \<and> keyed (identified (db c)) \<and>
     (\<forall>t. thread_ok M G U c (th c t)) \<and> shared_ok M c \<and> clients_ok M G U c \<and>
     (\<forall>now. gc_time (gc c) = Some now \<longrightarrow> now \<le> clk c))"

lemma ids_okD:
  assumes "ids_ok M G U c"
  shows "queues_ok c" "requests_ok c" "keyed (identified (db c))" "thread_ok M G U c (th c t)" "shared_ok M c"
    "clients_ok M G U c" "gc_time (gc c) = Some now \<Longrightarrow> now \<le> clk c"
  using assms by (simp_all add: ids_ok_def)

lemma shared_at:
  "shared_ok M c \<Longrightarrow> th c t = Identifying k i now \<Longrightarrow> pcs (iq c) t = Returned (Some v) err \<Longrightarrow> good M c (fst k) v"
  unfolding shared_ok_def by blast

lemma thread_at: "ids_ok M G U c \<Longrightarrow> th c t = p \<Longrightarrow> thread_ok M G U c p"
  using ids_okD(4) by metis

subsection \<open>What a step keeps\<close>

lemma ids_ops:
  "identified (store_client a i auto d) = identified d"
  "identified (clean_sac now i d) = identified d"
  "findValidAutodeviceClient a i now d = (res, d') \<Longrightarrow> identified d' = identified d"
  by (auto simp: store_client_def clean_sac_def findValidAutodeviceClient_def Let_def split: option.splits if_splits)

lemma cstep_clk: "cstep G U identifiable srcs w c c' \<Longrightarrow> clk c \<le> clk c'"
  by (induction rule: cstep.induct) simp_all

lemma cstep_given: "cstep G U identifiable srcs w c c' \<Longrightarrow> \<exists>h. given c' = h @ given c"
  by (induction rule: cstep.induct) (simp_all add: Cons_eq_append_conv)

lemma mono_hist_append: "mono_hist (h @ h') \<Longrightarrow> mono_hist h'"
  by (induction h) auto

lemma keyed_update: "keyed m \<Longrightarrow> keyed (AList.update (ID hid) \<lparr>id_addr = a, id_hid = hid\<rparr> m)"
proof -
  assume "keyed m"
  moreover have "set (AList.update k i m) \<subseteq> insert (k, i) (set m)" for k and i :: identity
    by (induction m) auto
  ultimately show ?thesis by (fastforce simp: keyed_def distinct_update)
qed

lemma keyed_delete: "keyed m \<Longrightarrow> keyed (AList.delete k m)"
  by (auto simp: keyed_def AList.delete_eq intro!: distinct_fst_filter)

lemma clean_ids_map:
  assumes "keyed (identified d)"
  shows "map_of (identified (clean_ids now d)) k = (case map_of (identified d) k of
      None \<Rightarrow> None | Some i \<Rightarrow> if Until (id_hid i) < now then None else Some i)"
proof -
  have "map_of (identified (clean_ids now d)) k
      = (if \<exists>i. (k, i) \<in> set (identified d) \<and> Until (id_hid i) < now then None else map_of (identified d) k)"
    using fold_delete_filter [of "identified d" now "identified d" k] assms
    by (simp add: clean_ids_def keyed_def)
  moreover have "(k, i) \<in> set (identified d) \<longleftrightarrow> map_of (identified d) k = Some i" for i
    using assms by (simp add: keyed_def)
  ultimately show ?thesis by (auto split: option.splits)
qed

lemma fold_delete_keyed:
  "keyed m \<Longrightarrow> keyed (fold (\<lambda>(_, ident) m. if Until (id_hid ident) < now then AList.delete (ID (id_hid ident)) m else m) xs m)"
  by (induction xs arbitrary: m) (auto simp: keyed_delete)

lemma keyed_clean: "keyed (identified d) \<Longrightarrow> keyed (identified (clean_ids now d))"
  by (simp add: clean_ids_def fold_delete_keyed)

lemma keyed_commit:
  "identify_commit a now hid d = (r, d') \<Longrightarrow> keyed (identified d) \<Longrightarrow> keyed (identified d')"
  by (auto simp: identify_commit_def intro: keyed_update split: option.splits if_splits)

text \<open>A committed identifier is held, and the commit takes none from another address.\<close>

lemma identify_commit_cases:
  assumes "identify_commit a now hid d = (r, d')"
  obtains (conflict) err where "r = Inl err" "d' = d"
  | (committed) "r = Inr hid" "identified d' = AList.update (ID hid) \<lparr>id_addr = a, id_hid = hid\<rparr> (identified d)"
      "\<And>e. map_of (identified d) (ID hid) = Some e \<Longrightarrow> now < Until (id_hid e) \<Longrightarrow> id_addr e = a"
  using assms by (auto simp: identify_commit_def split: option.splits if_splits)

lemma commit_good:
  assumes "identify_commit a now hid (db c) = (r, d)" "now \<le> clk c" "M \<longrightarrow> mono_hist (given c)"
    "map_of (given c) a = Some hid" "good M c b v" and c': "db c' = d" "given c' = given c" "clk c' = clk c"
  shows "good M c' b v"
  using assms(1)
proof (cases rule: identify_commit_cases)
  case (conflict err)
  with assms(5) show ?thesis by (simp add: good_def held_def c')
next
  case committed
  show ?thesis
  proof (cases "ID v = ID hid \<and> clk c < Until v \<and> M")
    case True
    then obtain e where e: "map_of (identified (db c)) (ID hid) = Some e" "id_addr e = b" "Until v \<le> Until (id_hid e)"
      using assms(5) by (auto simp: good_def held_def)
    with committed(3) assms(2) True have "b = a" by force
    moreover from this have "Until v \<le> Until hid"
      using mono_hist_newest [OF _ assms(4)] assms(3,5) True by (simp add: good_def)
    ultimately show ?thesis using assms(5) True by (simp add: good_def held_def c' committed(2) AList.update_conv')
  next
    case False
    with assms(5) show ?thesis by (auto simp: good_def held_def c' committed(2) AList.update_conv')
  qed
qed

lemma commit_self:
  assumes "identify_commit a now hid (db c) = (Inr v, d)" "map_of (given c) a = Some hid"
    and c': "db c' = d" "given c' = given c"
  shows "good M c' a v"
  using assms(1)
  by (cases rule: identify_commit_cases)
    (simp_all add: good_def held_def c' AList.update_conv' map_of_SomeD [OF assms(2)])

lemma good_frame:
  "good M c a v \<Longrightarrow> identified (db c') = identified (db c) \<Longrightarrow> set (given c) \<subseteq> set (given c') \<Longrightarrow> clk c \<le> clk c' \<Longrightarrow>
     good M c' a v"
  by (auto simp: good_def held_def)

lemma good_gc:
  assumes "good M c a v" "keyed (identified (db c))" "now \<le> clk c"
    and c': "db c' = clean_ids now (db c)" "given c' = given c" "clk c' = clk c"
  shows "good M c' a v"
  using assms(1,3) unfolding good_def held_def c' by (auto simp: clean_ids_map [OF assms(2)])

lemma cstep_good:
  assumes "cstep G U identifiable srcs w c c'" "ids_ok M G U c" "M \<longrightarrow> mono_hist (given c')" "good M c a v"
  shows "good M c' a v"
  using assms
proof (induction rule: cstep.induct)
  case (commit c t k i now hid r d)
  have h: "now \<le> clk c" "map_of (given c) (fst k) = Some hid"
    using thread_at [OF commit.prems(1) commit.hyps(1)] by simp_all
  show ?case
    by (rule commit_good [OF commit.hyps(2) h(1) _ h(2) commit.prems(3)]) (use commit.prems(2) in simp_all)
next
  case (gc_ids c now)
  have "now \<le> clk c" using ids_okD(7) [OF gc_ids.prems(1)] gc_ids.hyps by simp
  then show ?case
    by (rule good_gc [OF gc_ids.prems(3) ids_okD(3) [OF gc_ids.prems(1)]]) simp_all
qed (erule good_frame; auto simp: ids_ops(1,2) dest: ids_ops(3); fail)+


lemma cstep_keyed: "cstep G U identifiable srcs w c c' \<Longrightarrow> keyed (identified (db c)) \<Longrightarrow> keyed (identified (db c'))"
  by (induction rule: cstep.induct) (auto simp: ids_ops(1,2) keyed_clean dest: ids_ops(3) keyed_commit)

lemma cstep_gc:
  "cstep G U identifiable srcs w c c' \<Longrightarrow> (\<And>now. gc_time (gc c) = Some now \<Longrightarrow> now \<le> clk c) \<Longrightarrow>
     gc_time (gc c') = Some now \<Longrightarrow> now \<le> clk c'"
  by (induction rule: cstep.induct) force+

lemma made_cong:
  assumes "configs d' = configs d" "i < length (autodevice d)"
  shows "made G U d' i = made G U d i"
  by (intro ext) (simp add: made_def Let_def sac_same [OF configs_same(2) [OF assms]])

text \<open>A thread that has not moved.\<close>

lemma thread_ok_mono:
  assumes "thread_ok M G U c p" "\<And>a v. good M c a v \<Longrightarrow> good M c' a v" "clk c \<le> clk c'" "configs (db c') = configs (db c)"
    "\<And>k i now hid. p = Committing k i now hid \<Longrightarrow> map_of (given c') (fst k) = map_of (given c) (fst k)"
    "\<And>k i auto. p = Storing k i auto \<Longrightarrow> i < length (autodevice (db c))"
  shows "thread_ok M G U c' p"
  using assms
proof (cases p)
  case (Storing k i auto)
  then show ?thesis using assms(1,2) made_cong [OF assms(4) assms(6) [OF Storing], of G U] by auto
next
  case (Answering k i now r)
  then show ?thesis using assms by (cases r) auto
next
  case (Publishing k i now r)
  then show ?thesis using assms by (cases r) auto
next
  case (Making k i now r)
  then show ?thesis using assms by (cases r) auto
qed auto

text \<open>Only one thread at a time asks the source for an address and commits the answer.\<close>

lemma one_committing:
  assumes "queues_ok c" "th c u = Committing l j now hid" "pcs (iq c) t = Leading (fst k)" "t \<noteq> u"
  shows "fst l \<noteq> fst k"
proof
  assume "fst l = fst k"
  with in_queues [OF assms(1,2)] have "leads (pcs (iq c) u) = Some (fst k)" by simp
  with assms(3,4) show False
    using qinvD(2) [OF qreach_inv [OF queues_okD(2) [OF assms(1)]], of t "fst k" u] by simp
qed

lemma cstep_newest:
  assumes "cstep G U identifiable srcs w c c'" "queues_ok c" "th c u = Committing l j now hid" "th c' u = th c u"
  shows "map_of (given c') (fst l) = map_of (given c) (fst l)"
  using assms
proof (induction rule: cstep.induct)
  case (source_ok c t k i now src hid s)
  then have "t \<noteq> u" by auto
  with source_ok one_committing [of c u l j] show ?case by (fastforce split: if_splits)
qed simp_all

text \<open>A thread that has moved.\<close>

lemma cstep_moved:
  assumes "cstep G U identifiable srcs w c c'" "ids_ok M G U c" "\<And>a v. good M c a v \<Longrightarrow> good M c' a v" "th c' u \<noteq> th c u"
  shows "thread_ok M G U c' (th c' u)"
  using assms
proof (induction rule: cstep.induct)
  case (ident_shared c t k i now hid)
  with shared_at [OF ids_okD(5) [OF ident_shared.prems(1)] ident_shared.hyps]
  show ?case by (auto split: if_splits)
next
  case (commit c t k i now hid r d)
  have "map_of (given c) (fst k) = Some hid" using thread_at [OF commit.prems(1) commit.hyps(1)] by simp
  with commit show ?case
    by (cases r) (auto split: if_splits intro: commit_self)
next
  case (answer c t k i now r res err)
  with thread_at [OF answer.prems(1) answer.hyps(1)] show ?case by (cases r) (auto split: if_splits)
next
  case (published c t k i now r)
  with thread_at [OF published.prems(1) published.hyps(1)] show ?case by (cases r) (auto split: if_splits)
next
  case (make c t k i now hid sac auto)
  with thread_at [OF make.prems(1) make.hyps(1)] show ?case by (auto simp: made_def Let_def split: if_splits)
qed (auto split: if_splits dest: thread_at)

lemma cstep_threads:
  assumes "cstep G U identifiable srcs w c c'" "ids_ok M G U c" "M \<longrightarrow> mono_hist (given c')"
  shows "thread_ok M G U c' (th c' u)"
proof (cases "th c' u = th c u")
  case True
  have "i < length (autodevice (db c))" if "th c u = Storing k i auto" for k i auto
    using requests_at [OF ids_okD(2) [OF assms(2)] that] by (simp add: request_ok_def)
  then show ?thesis
    unfolding True
    by (intro thread_ok_mono [OF ids_okD(4) [OF assms(2)]] cstep_good [OF assms] cstep_clk [OF assms(1)]
        cstep_configs [OF assms(1)] cstep_newest [OF assms(1) ids_okD(1) [OF assms(2)] _ True])
next
  case False
  then show ?thesis by (intro cstep_moved [OF assms(1,2)] cstep_good [OF assms])
qed


text \<open>The results that are shared through the queue of identifications.\<close>

lemma shared_okI:
  assumes "qgood (good M c) (iq c)"
    "\<And>t k i now v err. th c t = Identifying k i now \<Longrightarrow> pcs (iq c) t = Returned (Some v) err \<Longrightarrow> good M c (fst k) v"
  shows "shared_ok M c"
  using assms unfolding shared_ok_def by blast

lemma cstep_qgood:
  assumes "cstep G U identifiable srcs w c c'" "ids_ok M G U c" "qgood P (iq c)" "\<And>a v. good M c a v \<Longrightarrow> P a v"
  shows "qgood P (iq c')"
  using assms
proof (induction rule: cstep.induct)
  case (ident_push c t k i now)
  then show ?case using queues_okD(2) [OF ids_okD(1) [OF ident_push.prems(1)]] by (simp add: qgood_push)
next
  case (answer c t k i now r res err)
  have "pcs (iq c) t = Leading (fst k)" using in_queues [OF ids_okD(1) [OF answer.prems(1)] answer.hyps(1)] by simp
  moreover have "P (fst k) v" if "res = Some v" for v
    using thread_at [OF answer.prems(1) answer.hyps(1)] answer.hyps(2) answer.prems(3) that by (cases r) auto
  ultimately show ?case
    using answer.prems(2) queues_okD(2) [OF ids_okD(1) [OF answer.prems(1)]] by (simp add: qgood_load)
next
  case (ident_work c t k i now q)
  then show ?case by (simp add: qgood_qwork)
next
  case (publish_work c t k i now r q)
  then show ?case by (simp add: qgood_qwork)
qed (simp_all add: qgood_goto push_cancelled_def)

lemma cstep_shared:
  assumes "cstep G U identifiable srcs w c c'" "ids_ok M G U c" "M \<longrightarrow> mono_hist (given c')"
  shows "shared_ok M c'"
proof (rule shared_okI)
  note keep = cstep_good [OF assms] and old = ids_okD(5) [OF assms(2)]
  show "qgood (good M c') (iq c')"
    by (rule cstep_qgood [OF assms(1,2)])
      (use old keep in \<open>auto simp: shared_ok_def intro: qgood_mono\<close>)
  show "good M c' (fst k) v" if "th c' t = Identifying k i now" "pcs (iq c') t = Returned (Some v) err" for t k i now v err
  proof (rule keep)
    have *: "qgood (good M c) (iq c)" "qreach (iq c)"
      using old queues_okD(2) [OF ids_okD(1) [OF assms(2)]] by (simp_all add: shared_ok_def)
    from assms(1,2) that show "good M c (fst k) v"
    proof (induction rule: cstep.induct)
      case (ident_push c u l j now')
      then show ?case
        using pcs_push(1) [of t u "fst l" "iq c"] pcs_push(2) [of u "fst l" "iq c"] shared_at [OF ids_okD(5) [OF ident_push.prems(1)], of t k i now v err]
        by (fastforce split: if_splits)
    next
      case (ident_work c u l j now' q)
      show ?case
      proof (cases "t = u")
        case True
        with ident_work have k: "k = l" by simp
        with ident_work True have "work_pc (pcs (iq c) u) (Returned (Some v) err)"
          using qwork_pc [OF ident_work.hyps(2)] queues_okD(2) [OF ids_okD(1) [OF ident_work.prems(1)]] by simp
        then obtain x where "pcs (iq c) u = Waiting (fst l) x"
          using in_queues [OF ids_okD(1) [OF ident_work.prems(1)] ident_work.hyps(1)] by auto
        then show ?thesis
          using ident_work True k ids_okD(5) [OF ident_work.prems(1)] queues_okD(2) [OF ids_okD(1) [OF ident_work.prems(1)]]
          by (auto simp: shared_ok_def intro: qwork_received)
      next
        case False
        then show ?thesis using ident_work pcs_qwork [OF ident_work.hyps(2), of t]
            shared_at [OF ids_okD(5) [OF ident_work.prems(1)], of t k i now v err] by simp
      qed
    next
      case (publish_work c u l j now' r q)
      then show ?case using pcs_qwork [OF publish_work.hyps(2), of t]
            shared_at [OF ids_okD(5) [OF publish_work.prems(1)], of t k i now v err] by (cases "t = u") auto
    next
      case (answer c u l j now' r res err')
      then show ?case
        using pcs_load(1) [where q = "iq c" and t = u and k = "fst l" and u = t and res = res and err = err'] in_queues [OF ids_okD(1) [OF answer.prems(1)] answer.hyps(1)]
          queues_okD(2) [OF ids_okD(1) [OF answer.prems(1)]]
          shared_at [OF ids_okD(5) [OF answer.prems(1)], of t k i now v err] by (auto split: if_splits)
    qed (auto dest: shared_at [OF ids_okD(5)] split: if_splits)
  qed
qed


text \<open>A stored client was there before or has just been stored.\<close>

lemma set_update: "set (AList.update k x m) \<subseteq> insert (k, x) (set m)"
  by (induction m) auto

lemma cstep_stored:
  assumes "cstep G U identifiable srcs w c c'" "i < length (autodevice (db c))"
    "(a, auto) \<in> set (sac_clients (autodevice (db c') ! i))"
  shows "(a, auto) \<in> set (sac_clients (autodevice (db c) ! i)) \<or> (\<exists>t k. th c t = Storing k i auto \<and> a = fst k)"
  using assms
proof (induction rule: cstep.induct)
  case (find_valid c t k j now cli d)
  then show ?case by (auto simp: findValidAutodeviceClient_def split: option.splits if_splits)
next
  case (find_no c t k j now d)
  then show ?case
    by (cases "i = j")
      (auto simp: findValidAutodeviceClient_def AList.delete_eq split: option.splits if_splits)
next
  case (commit c t k j now hid r d)
  then show ?case by (auto simp: identify_commit_def split: option.splits if_splits)
next
  case (store c t k j auto')
  show ?case
  proof (cases "i = j \<and> (a, auto) = (fst k, auto')")
    case True
    with store.hyps show ?thesis by blast
  next
    case False
    with store.prems set_update [of "fst k" auto' "sac_clients (autodevice (db c) ! i)"]
    show ?thesis by (cases "i = j") (auto simp: store_client_def)
  qed
next
  case (gc_sac c now j)
  then show ?case by (cases "i = j") (auto simp: clean_sac_def Let_def cleanExpiredClients_def)
qed (simp_all add: clean_ids_def)

lemma cstep_clients:
  assumes "cstep G U identifiable srcs w c c'" "ids_ok M G U c" "M \<longrightarrow> mono_hist (given c')"
  shows "clients_ok M G U c'"
  unfolding clients_ok_def
proof (intro allI impI)
  fix i a auto assume i: "i < length (autodevice (db c'))" "(a, auto) \<in> set (sac_clients (autodevice (db c') ! i))"
  note cfg = cstep_configs [OF assms(1)]
  have len: "i < length (autodevice (db c))" using i(1) configs_same(1) [OF cfg] by simp
  have "\<exists>hid. good M c a hid \<and> made G U (db c) i hid auto"
    using cstep_stored [OF assms(1) len i(2)] ids_okD(6) [OF assms(2)] len thread_at [OF assms(2)]
    unfolding clients_ok_def by (metis thread_ok.simps(8))
  with cstep_good [OF assms] show "\<exists>hid. good M c' a hid \<and> made G U (db c') i hid auto"
    unfolding made_cong [OF cfg len] by blast
qed

lemma ids_ok_step:
  assumes "cstep G U identifiable srcs w c c'" "ids_ok M G U c" "M \<longrightarrow> mono_hist (given c')"
  shows "ids_ok M G U c'"
  unfolding ids_ok_def
  using ids_okD(1-3,7) [OF assms(2)] queues_ok_step [OF assms(1)] requests_ok_step [OF assms(1)] cstep_keyed [OF assms(1)]
    cstep_threads [OF assms] cstep_shared [OF assms] cstep_clients [OF assms] cstep_gc [OF assms(1)]
  by blast

definition fresh_storage :: "('o, 'cc, 's) storage \<Rightarrow> bool" where
  "fresh_storage d = (identified d = [] \<and> (\<forall>sac \<in> set (autodevice d). sac_clients sac = []))"

lemma NewDefaultStorage_fresh: "fresh_storage (NewDefaultStorage conf s)"
  by (auto simp: fresh_storage_def NewDefaultStorage_def autodevice_clients_def)

lemma ids_ok_init: "fresh_storage d \<Longrightarrow> ids_ok M G U (conc_init d now)"
  unfolding ids_ok_def
  using queues_ok_init [of d now] nth_mem [of _ "autodevice d"]
  by (auto simp: conc_init_def requests_ok_def keyed_def shared_ok_def qgood_new clients_ok_def fresh_storage_def)

lemma creach_ids:
  assumes "creach G U identifiable srcs d c" "fresh_storage d" "M \<longrightarrow> mono_hist (given c)"
  shows "ids_ok M G U c"
  using assms
proof (induction rule: creach.induct)
  case (step c w c')
  then have "M \<longrightarrow> mono_hist (given c)" using cstep_given [OF step.hyps(2)] mono_hist_append by metis
  with step show ?case by (auto intro: ids_ok_step)
qed (rule ids_ok_init)

text \<open>The default source is monotone.\<close>

lemma default_history:
  assumes "creach G U identifiable {default_identify ivl} d c" "0 \<le> ivl"
  shows "mono_hist (given c) \<and> (\<forall>(a, v) \<in> set (given c). Until v \<le> clk c + ivl)"
  using assms(1)
proof (induction rule: creach.induct)
  case (step c w c')
  from step.hyps(2) step.IH show ?case
  proof (induction rule: cstep.induct)
    case (source_ok c t k i now src hid s)
    then have "hid = \<lparr>Until = clk c + ivl, ID = default_human_id (fst k)\<rparr>" by (simp add: default_identify_def)
    with source_ok.prems show ?case by auto
  qed (auto 0 3)
qed (simp add: conc_init_def)

end
