(* ===== verification/StorageRuns.thy ===== *)
theory StorageRuns
  imports StorageConc
begin

text \<open>
  The runs of the concurrent storage of \<^theory_text>\<open>StorageConc\<close>: what a caller is given in any interleaving,
  that a call which runs alone does what \<open>Get\<close> of \<^theory_text>\<open>Storage\<close> says, that no interleaving blocks and
  that each call ends within a fixed number of its own steps.
\<close>

section \<open>The question of a caller\<close>

text \<open>
  The configuration that a question selects is found again from the key of the search queue: no other
  one with its domain comes first among those whose prefix has the address.
\<close>

definition key_index :: "('o, 'cc, 's) storage \<Rightarrow> search_request \<Rightarrow> nat option" where
  "key_index d k = find_index (\<lambda>s. sac_domain s = snd k \<and> (sac_prefix s = PZero \<or> pfx_contains (sac_prefix s) (fst k))) (autodevice d)"

lemma find_index_eq:
  "find_index P xs = Some i \<longleftrightarrow> i < length xs \<and> P (xs ! i) \<and> (\<forall>j < i. \<not> P (xs ! j))"
proof (induction xs arbitrary: i)
  case (Cons x xs)
  show ?case
  proof (cases i)
    case (Suc j)
    with Cons [of j] show ?thesis by (auto simp: All_less_Suc2)
  qed auto
qed simp

lemma search_index_key:
  assumes "search_index G identifiable a q d = Some i"
  shows "i < length (autodevice d)" "key_index d (a, sac_domain (autodevice d ! i)) = Some i"
proof -
  have i: "i < length (autodevice d)" "sac_matches G (autodevice d ! i) a q" "\<And>j. j < i \<Longrightarrow> \<not> sac_matches G (autodevice d ! j) a q"
    using assms unfolding search_index_def find_index_eq [symmetric] by (simp_all add: find_index_eq split: if_splits)
  show "i < length (autodevice d)" by (rule i(1))
  show "key_index d (a, sac_domain (autodevice d ! i)) = Some i"
    unfolding key_index_def find_index_eq
  proof (intro conjI allI impI)
    fix j assume "j < i"
    from i(3) [OF this] i(2) show "\<not> (sac_domain (autodevice d ! j) = snd (a, sac_domain (autodevice d ! i)) \<and>
        (sac_prefix (autodevice d ! j) = PZero \<or> pfx_contains (sac_prefix (autodevice d ! j)) (fst (a, sac_domain (autodevice d ! i)))))"
      by (auto simp: sac_matches_def split: if_splits)
  qed (use i(1,2) in \<open>simp_all add: sac_matches_def split: if_splits\<close>)
qed

lemma find_index_configs:
  assumes "configs d' = configs d" "\<And>x y. x\<lparr>sac_clients := []\<rparr> = y\<lparr>sac_clients := []\<rparr> \<Longrightarrow> P x = P y"
  shows "find_index P (autodevice d') = find_index P (autodevice d)"
proof -
  have *: "find_index P xs = find_index P ys" if "map (\<lambda>s. s\<lparr>sac_clients := []\<rparr>) xs = map (\<lambda>s. s\<lparr>sac_clients := []\<rparr>) ys" for xs ys
    using that
  proof (induction xs arbitrary: ys)
    case (Cons x xs)
    then obtain y zs where "ys = y # zs" "x\<lparr>sac_clients := []\<rparr> = y\<lparr>sac_clients := []\<rparr>" by (cases ys) auto
    with Cons assms(2) [of x y] show ?case by simp
  qed simp
  show ?thesis by (rule * [OF assms(1) [unfolded configs_def]])
qed

lemma index_cong:
  assumes "configs d' = configs d"
  shows "search_index G identifiable a q d' = search_index G identifiable a q d" "key_index d' = key_index d"
proof -
  have "find_index (\<lambda>s. sac_matches G s a q) (autodevice d') = find_index (\<lambda>s. sac_matches G s a q) (autodevice d)"
    by (rule find_index_configs [OF assms]) (auto simp: sac_matches_def dest: sac_same)
  moreover have "autodevice d' = [] \<longleftrightarrow> autodevice d = []" using configs_same(1) [OF assms] by auto
  ultimately show "search_index G identifiable a q d' = search_index G identifiable a q d" by (simp add: search_index_def)
  show "key_index d' = key_index d"
    unfolding key_index_def by (intro ext find_index_configs [OF assms]) (auto dest: sac_same)
qed

lemma cstep_static: "cstep G U identifiable srcs w c c' \<Longrightarrow> static (db c') = static (db c)"
  by (induction rule: cstep.induct)
    (auto simp: findValidAutodeviceClient_def identify_commit_def store_client_def clean_sac_def clean_ids_def Let_def
      split: option.splits if_splits)

text \<open>What a thread does is what its question asks for.\<close>

definition searches :: "golibs \<Rightarrow> (addr \<Rightarrow> bool) \<Rightarrow> ('o, 'cc, 's) storage \<Rightarrow> addr \<times> string \<Rightarrow> search_request \<Rightarrow> nat \<Rightarrow> bool" where
  "searches G identifiable d q k i = (findStaticClient G (fst q) (snd q) d = None \<and>
     search_index G identifiable (fst q) (snd q) d = Some i \<and> k = (fst q, sac_domain (autodevice d ! i)))"

fun question_ok :: "golibs \<Rightarrow> (addr \<Rightarrow> bool) \<Rightarrow> ('o, 'cc, 's) storage \<Rightarrow> (addr \<times> string) option \<Rightarrow> 'cc thread \<Rightarrow> bool" where
  "question_ok G identifiable d q (Got a r) = (\<exists>domain. q = Some (a, domain) \<and>
     (case findStaticClient G a domain d of
        Some cli \<Rightarrow> r = Some cli
      | None \<Rightarrow> search_index G identifiable a domain d = None \<longrightarrow> r = None))"
| "question_ok G identifiable d q p =
     (case request p of None \<Rightarrow> True | Some (k, i) \<Rightarrow> \<exists>x. q = Some x \<and> searches G identifiable d x k i)"

lemma question_request:
  assumes "question_ok G identifiable d q p" "request p = Some (k, i)"
  shows "\<exists>x. q = Some x \<and> searches G identifiable d x k i"
  using assms by (cases p) auto

lemma searchesD:
  assumes "searches G identifiable d q k i"
  shows "findStaticClient G (fst k) (snd q) d = None" "search_index G identifiable (fst k) (snd q) d = Some i"
    "q = (fst k, snd q)" "key_index d k = Some i" "k = (fst k, sac_domain (autodevice d ! i))"
  using assms search_index_key(2) by (cases q; fastforce simp: searches_def)+

lemma question_got:
  assumes "question_ok G identifiable d q p" "request p = Some (k, i)"
  shows "question_ok G identifiable d q (Got (fst k) r)"
proof -
  obtain x where x: "q = Some x" "searches G identifiable d x k i" using question_request [OF assms] by blast
  have "q = Some (fst k, snd x)" by (rule trans [OF x(1) arg_cong [where f = Some, OF searchesD(3) [OF x(2)]]])
  with searchesD(1,2) [OF x(2)] show ?thesis by simp
qed

lemma question_ok_cong:
  assumes "configs d' = configs d" "static d' = static d" "length (autodevice d') = length (autodevice d)"
  shows "question_ok G identifiable d' q p = question_ok G identifiable d q p"
proof -
  have "findStaticClient G a x d' = findStaticClient G a x d" for a x by (simp add: findStaticClient_def assms(2))
  moreover have "searches G identifiable d' x k i = searches G identifiable d x k i" for x k i
  proof (cases "i < length (autodevice d)")
    case True
    have "sac_domain (autodevice d' ! i) = sac_domain (autodevice d ! i)"
      by (rule sac_same(3) [OF configs_same(2) [OF assms(1) True]])
    then show ?thesis by (simp add: searches_def index_cong [OF assms(1)] calculation)
  next
    case False
    with search_index_key(1) [of G identifiable _ _ d i] show ?thesis
      by (auto simp: searches_def index_cong [OF assms(1)])
  qed
  ultimately show ?thesis by (cases p) (simp_all add: index_cong [OF assms(1)] split: option.split)
qed

definition questions_ok :: "golibs \<Rightarrow> (addr \<Rightarrow> bool) \<Rightarrow> ('o, 'cc, 's) conc \<Rightarrow> bool" where
  "questions_ok G identifiable c = (\<forall>t. question_ok G identifiable (db c) (asked c t) (th c t))"

lemma questions_at: "questions_ok G identifiable c \<Longrightarrow> th c t = p \<Longrightarrow> question_ok G identifiable (db c) (asked c t) p"
  unfolding questions_ok_def by blast

lemma questions_ok_step:
  assumes "cstep G U identifiable srcs w c c'" "questions_ok G identifiable c"
  shows "questions_ok G identifiable c'"
proof -
  have "question_ok G identifiable (db c) (asked c' t) (th c' t)" for t
    using assms
  proof (induction rule: cstep.induct)
    case (get_search c u addr domain i k)
    then show ?case by (auto simp: questions_at searches_def)
  next
    case (search_failed c u k i res err)
    with question_got [OF questions_at [OF search_failed.prems search_failed.hyps(1)]] show ?case by (auto simp: questions_at)
  next
    case (search_shared c u k i cli)
    with question_got [OF questions_at [OF search_shared.prems search_shared.hyps(1)]] show ?case by (auto simp: questions_at)
  next
    case (finished c u k i r)
    with question_got [OF questions_at [OF finished.prems finished.hyps(1)]] show ?case by (auto simp: questions_at)
  qed (auto simp: questions_at dest: questions_at)
  moreover note cfg = cstep_configs [OF assms(1)]
  ultimately show ?thesis
    unfolding questions_ok_def question_ok_cong [OF cfg cstep_static [OF assms(1)] configs_same(1) [OF cfg]] by blast
qed

lemma creach_questions: "creach G U identifiable srcs d0 c \<Longrightarrow> questions_ok G identifiable c"
proof (induction rule: creach.induct)
  case (start now)
  then show ?case by (simp add: questions_ok_def conc_init_def)
qed (rule questions_ok_step)

section \<open>The client of a caller\<close>

text \<open>
  A client made on demand for the address of the key, from an identifier that the source gave to it
  and the configuration that the key stands for.
\<close>

definition own :: "golibs \<Rightarrow> ('o, 'u, 'cc) ups_env \<Rightarrow> ('o, 'cc, 's) conc \<Rightarrow> search_request \<Rightarrow> 'cc client \<Rightarrow> bool" where
  "own G U c k cli = (\<exists>hid i auto. (fst k, hid) \<in> set (given c) \<and> key_index (db c) k = Some i \<and>
     made G U (db c) i hid auto \<and> cli = AutoClient auto)"

fun own_ok ::
  "golibs \<Rightarrow> ('o, 'u, 'cc) ups_env \<Rightarrow> (addr \<Rightarrow> bool) \<Rightarrow> ('o, 'cc, 's) conc \<Rightarrow> (addr \<times> string) option \<Rightarrow> 'cc thread \<Rightarrow> bool" where
  "own_ok G U identifiable c q (Finishing k i (Inr cli)) = own G U c k cli"
| "own_ok G U identifiable c q (Closing k i (Inr cli)) = own G U c k cli"
| "own_ok G U identifiable c q (Got a (Some cli)) = (\<forall>domain i. q = Some (a, domain) \<longrightarrow>
     findStaticClient G a domain (db c) = None \<longrightarrow> search_index G identifiable a domain (db c) = Some i \<longrightarrow>
     own G U c (a, sac_domain (autodevice (db c) ! i)) cli)"
| "own_ok G U identifiable c q p = True"

definition served_ok :: "golibs \<Rightarrow> ('o, 'u, 'cc) ups_env \<Rightarrow> (addr \<Rightarrow> bool) \<Rightarrow> ('o, 'cc, 's) conc \<Rightarrow> bool" where
  "served_ok G U identifiable c = (qgood (own G U c) (sq c) \<and> (\<forall>t. own_ok G U identifiable c (asked c t) (th c t)) \<and>
     (\<forall>t k i cli err. th c t = Searching k i \<longrightarrow> pcs (sq c) t = Returned (Some cli) err \<longrightarrow> own G U c k cli))"

lemma served_okD:
  assumes "served_ok G U identifiable c"
  shows "qgood (own G U c) (sq c)" "th c t = p \<Longrightarrow> own_ok G U identifiable c (asked c t) p"
    "th c t = Searching k i \<Longrightarrow> pcs (sq c) t = Returned (Some cli) err \<Longrightarrow> own G U c k cli"
  using assms unfolding served_ok_def by blast+

lemma own_mono:
  assumes "cstep G U identifiable srcs w c c'" "own G U c k cli"
  shows "own G U c' k cli"
proof -
  note cfg = cstep_configs [OF assms(1)]
  obtain h where "given c' = h @ given c" using cstep_given [OF assms(1)] by blast
  moreover obtain hid i auto where o: "(fst k, hid) \<in> set (given c)" "key_index (db c) k = Some i"
      "made G U (db c) i hid auto" "cli = AutoClient auto" using assms(2) unfolding own_def by blast
  moreover have "i < length (autodevice (db c))" using o(2) by (simp add: key_index_def find_index_eq)
  ultimately show ?thesis
    unfolding own_def using made_cong [OF cfg, of i G U] index_cong(2) [OF cfg]
    by (intro exI [of _ hid] exI [of _ i] exI [of _ auto]) simp
qed

lemma own_ok_mono:
  assumes "cstep G U identifiable srcs w c c'" "own_ok G U identifiable c q p"
  shows "own_ok G U identifiable c' q p"
proof -
  note cfg = cstep_configs [OF assms(1)]
  have "sac_domain (autodevice (db c') ! i) = sac_domain (autodevice (db c) ! i)"
    if "search_index G identifiable a x (db c) = Some i" for a x i
    using search_index_key(1) [OF that] configs_same(2) [OF cfg] sac_same(3) by metis
  then show ?thesis
    using assms(2) own_mono [OF assms(1)] cstep_static [OF assms(1)]
    by (cases "(G, U, identifiable, c, q, p)" rule: own_ok.cases) (auto simp: findStaticClient_def index_cong(1) [OF cfg])
qed

text \<open>The clients that a thread finds or stores.\<close>

lemma found_own:
  assumes "ids_ok M G U c" "questions_ok G identifiable c" "th c t = Looking k i now"
    "findValidAutodeviceClient (fst k) i now (db c) = (Some cli, d)"
  shows "own G U c k cli"
proof -
  obtain auto where auto: "map_of (sac_clients (autodevice (db c) ! i)) (fst k) = Some auto" "cli = AutoClient auto"
    using assms(4) by (auto simp: findValidAutodeviceClient_def split: option.splits if_splits)
  moreover have i: "i < length (autodevice (db c))"
    using requests_at [OF ids_okD(2) [OF assms(1)] assms(3)] by (simp add: request_ok_def)
  ultimately obtain hid where "good M c (fst k) hid" "made G U (db c) i hid auto"
    using ids_okD(6) [OF assms(1)] map_of_SomeD unfolding clients_ok_def by metis
  moreover have "key_index (db c) k = Some i"
    using question_request [OF questions_at [OF assms(2,3)]] searchesD(4) by (metis request.simps(2))
  ultimately show ?thesis using auto(2) unfolding own_def good_def by blast
qed

lemma stored_own:
  assumes "ids_ok M G U c" "questions_ok G identifiable c" "th c t = Storing k i auto"
  shows "own G U c k (AutoClient auto)"
proof -
  have "key_index (db c) k = Some i"
    using question_request [OF questions_at [OF assms(2,3)]] searchesD(4) by (metis request.simps(9))
  with thread_at [OF assms(1,3)] show ?thesis by (auto simp: own_def good_def)
qed

lemma own_got:
  assumes "question_ok G identifiable (db c) q p" "request p = Some (k, i)" "own G U c k cli"
  shows "own_ok G U identifiable c q (Got (fst k) (Some cli))"
proof -
  obtain x where x: "q = Some x" "searches G identifiable (db c) x k i" using question_request [OF assms(1,2)] by blast
  note d = searchesD [OF x(2)]
  have "own G U c (fst k, sac_domain (autodevice (db c) ! i)) cli"
    by (rule back_subst [where P = "\<lambda>k. own G U c k cli", OF assms(3) d(5)])
  moreover have "q = Some (fst k, snd x)" by (rule trans [OF x(1) arg_cong [where f = Some, OF d(3)]])
  ultimately show ?thesis using d(2) by simp
qed

lemma cstep_own_moved:
  assumes "cstep G U identifiable srcs w c c'" "ids_ok M G U c" "questions_ok G identifiable c" "served_ok G U identifiable c"
    "th c' u \<noteq> th c u"
  shows "own_ok G U identifiable c (asked c' u) (th c' u)"
  using assms
proof (induction rule: cstep.induct)
  case (search_shared c t k i cli)
  then have "u = t" by (simp split: if_splits)
  with own_got [OF questions_at [OF search_shared.prems(2) search_shared.hyps(1)] _
      served_okD(3) [OF search_shared.prems(3) search_shared.hyps]] show ?case by simp
next
  case (find_valid c t k i now cli d)
  with found_own [OF find_valid.prems(1,2) find_valid.hyps] show ?case by (auto split: if_splits)
next
  case (store c t k i auto)
  with stored_own [OF store.prems(1,2) store.hyps(1)] show ?case by (auto split: if_splits)
next
  case (finish c t k i r res err)
  with served_okD(2) [OF finish.prems(3) finish.hyps(1)] show ?case by (cases r) (auto split: if_splits)
next
  case (finished c t k i r)
  then have u: "u = t" by (simp split: if_splits)
  show ?case
  proof (cases r)
    case (Inr cli)
    have "own G U c k cli" using served_okD(2) [OF finished.prems(3) finished.hyps(1)] Inr by simp
    from own_got [OF questions_at [OF finished.prems(2) finished.hyps(1)] _ this] u Inr show ?thesis by simp
  qed (simp add: u)
qed (auto split: if_splits)

lemma cstep_served_queue:
  assumes "cstep G U identifiable srcs w c c'" "queues_ok c" "served_ok G U identifiable c" "qgood P (sq c)"
    "\<And>k cli. own G U c k cli \<Longrightarrow> P k cli"
  shows "qgood P (sq c')"
  using assms
proof (induction rule: cstep.induct)
  case (get_search c t addr domain i k)
  then show ?case using queues_okD(1) [OF get_search.prems(1)] by (simp add: qgood_push)
next
  case (finish c t k i r res err)
  have "pcs (sq c) t = Leading k" using in_queues [OF finish.prems(1) finish.hyps(1)] by simp
  moreover have "P k v" if "res = Some v" for v
    using served_okD(2) [OF finish.prems(2) finish.hyps(1)] finish.hyps(2) finish.prems(4) that by (cases r) auto
  ultimately show ?case
    using finish.prems(3) queues_okD(1) [OF finish.prems(1)] by (simp add: qgood_load)
next
  case (search_work c t k i q)
  then show ?case by (simp add: qgood_qwork)
next
  case (close_work c t k i r q)
  then show ?case by (simp add: qgood_qwork)
qed (simp_all add: qgood_goto push_cancelled_def)

lemma cstep_served_returned:
  assumes "cstep G U identifiable srcs w c c'" "queues_ok c" "served_ok G U identifiable c"
    "th c' t = Searching k i" "pcs (sq c') t = Returned (Some cli) err"
  shows "own G U c k cli"
  using assms
proof (induction rule: cstep.induct)
  case (get_search c u addr domain j l)
  then show ?case
    using pcs_push(1) [of t u l "sq c"] pcs_push(2) [of u l "sq c"] served_okD(3) [OF get_search.prems(2), of t k i cli err]
    by (fastforce split: if_splits)
next
  case (search_work c u l j q)
  show ?case
  proof (cases "t = u")
    case True
    with search_work have k: "k = l" by simp
    with search_work True have "work_pc (pcs (sq c) u) (Returned (Some cli) err)"
      using qwork_pc [OF search_work.hyps(2)] queues_okD(1) [OF search_work.prems(1)] by simp
    then obtain x where "pcs (sq c) u = Waiting l x" using in_queues [OF search_work.prems(1) search_work.hyps(1)] by auto
    then show ?thesis
      using qwork_received [OF search_work.hyps(2) _ served_okD(1) [OF search_work.prems(2)]] search_work.prems(4) True k
        queues_okD(1) [OF search_work.prems(1)] by simp
  next
    case False
    then show ?thesis
      using search_work pcs_qwork [OF search_work.hyps(2), of t] served_okD(3) [OF search_work.prems(2), of t k i cli err]
      by simp
  qed
next
  case (close_work c u l j r q)
  then show ?case
    using pcs_qwork [OF close_work.hyps(2), of t] served_okD(3) [OF close_work.prems(2), of t k i cli err]
    by (cases "t = u") auto
next
  case (finish c u l j r res err')
  then show ?case
    using pcs_load(1) [where q = "sq c" and t = u and k = l and u = t and res = res and err = err']
      in_queues [OF finish.prems(1) finish.hyps(1)] queues_okD(1) [OF finish.prems(1)]
      served_okD(3) [OF finish.prems(2), of t k i cli err] by (auto split: if_splits)
qed (auto dest: served_okD(3) split: if_splits)

text \<open>A thread keeps its question while it works on it.\<close>

lemma cstep_asked: "cstep G U identifiable srcs w c c' \<Longrightarrow> th c' t = th c t \<Longrightarrow> asked c' t = asked c t"
  by (induction rule: cstep.induct) auto

lemma served_ok_step:
  assumes "cstep G U identifiable srcs w c c'" "ids_ok M G U c" "questions_ok G identifiable c" "served_ok G U identifiable c"
  shows "served_ok G U identifiable c'"
  unfolding served_ok_def
proof (intro conjI allI impI)
  note q = ids_okD(1) [OF assms(2)] and keep = own_mono [OF assms(1)]
  show "qgood (own G U c') (sq c')"
    by (rule cstep_served_queue [OF assms(1) q assms(4) qgood_mono [OF served_okD(1) [OF assms(4)]]])
      (erule keep)+
  show "own_ok G U identifiable c' (asked c' t) (th c' t)" for t
  proof (cases "th c' t = th c t")
    case True
    with own_ok_mono [OF assms(1) served_okD(2) [OF assms(4) refl], of t] cstep_asked [OF assms(1), of t] show ?thesis by simp
  next
    case False
    show ?thesis by (rule own_ok_mono [OF assms(1) cstep_own_moved [OF assms(1-4) False]])
  qed
  show "own G U c' k cli" if "th c' t = Searching k i" "pcs (sq c') t = Returned (Some cli) err" for t k i cli err
    by (rule keep [OF cstep_served_returned [OF assms(1) q assms(4) that]])
qed

lemma creach_served:
  assumes "creach G U identifiable srcs d c" "fresh_storage d"
  shows "served_ok G U identifiable c"
  using assms(1)
proof (induction rule: creach.induct)
  case (start now)
  then show ?case by (simp add: served_ok_def conc_init_def qgood_new)
next
  case (step c w c')
  have "ids_ok False G U c" by (rule creach_ids [OF step.hyps(1) assms(2)]) simp
  then show ?case by (rule served_ok_step [OF step.hyps(2) _ creach_questions [OF step.hyps(1)] step.IH])
qed

section \<open>A call that runs alone\<close>

abbreviation trun where
  "trun G U identifiable srcs t \<equiv> (cstep G U identifiable srcs (Th t))\<^sup>*\<^sup>*"

lemma trun_step: "cstep G U identifiable srcs (Th t) c c' \<Longrightarrow> trun G U identifiable srcs t c c'"
  by (rule r_into_rtranclp)

lemma trun_steps:
  "cstep G U identifiable srcs (Th t) c c' \<Longrightarrow> cstep G U identifiable srcs (Th t) c' c'' \<Longrightarrow>
     trun G U identifiable srcs t c c''"
  by (blast intro: rtranclp.intros)

lemma trun_queues: "trun G U identifiable srcs t c c' \<Longrightarrow> queues_ok c \<Longrightarrow> queues_ok c'"
  by (induction rule: rtranclp_induct) (auto intro: queues_ok_step)

text \<open>\<open>done\<close> as a whole.\<close>

definition done_all :: "nat \<Rightarrow> 'k \<Rightarrow> nat \<Rightarrow> 'v option \<Rightarrow> goerr option \<Rightarrow> ('k, 'v) queue \<Rightarrow> ('k, 'v) queue" where
  "done_all t k x res err q =
     done_delete t k (done_close t k x (done_write t k x res err (done_load t k res err q)))"

lemma done_run:
  assumes "qreach q" "pcs q t = Leading k"
  obtains x where "pcs (done_load t k res err q) t = Loaded k x res err"
    "qwork t (done_load t k res err q) (done_write t k x res err (done_load t k res err q))"
    "qwork t (done_write t k x res err (done_load t k res err q))
       (done_close t k x (done_write t k x res err (done_load t k res err q)))"
    "qwork t (done_close t k x (done_write t k x res err (done_load t k res err q))) (done_all t k x res err q)"
    "pcs (done_all t k x res err q) = (pcs q)(t := Idle)" "qmap (done_all t k x res err q) = (qmap q)(k := None)"
proof -
  obtain x where x: "qmap q k = Some x" "\<not> closed (cells q x)"
    using qinvD(1) [OF qreach_inv [OF assms(1)], of t] assms(2) by auto
  note d = done_load_def done_write_def done_close_def done_delete_def done_all_def
  show thesis
  proof (rule that [of x])
    show "qwork t (done_close t k x (done_write t k x res err (done_load t k res err q))) (done_all t k x res err q)"
      unfolding done_all_def by (rule qwork.delete) (simp add: d x)
    show "qwork t (done_write t k x res err (done_load t k res err q))
       (done_close t k x (done_write t k x res err (done_load t k res err q)))"
      by (rule qwork.close) (simp add: d x)
    show "qwork t (done_load t k res err q) (done_write t k x res err (done_load t k res err q))"
      by (rule qwork.assign) (simp add: d x)
  qed (simp_all add: d x)
qed

lemma move_move [simp]: "move t p (move t p' c) = move t p c"
  by (simp add: move_def)

lemma move_sq: "move t p (c\<lparr>sq := q\<rparr>) = (move t p c)\<lparr>sq := q\<rparr>"
  "move t p (c\<lparr>iq := q'\<rparr>) = (move t p c)\<lparr>iq := q'\<rparr>" "move t p (c\<lparr>db := d\<rparr>) = (move t p c)\<lparr>db := d\<rparr>"
  "move t p (c\<lparr>given := g\<rparr>) = (move t p c)\<lparr>given := g\<rparr>"
  by (simp_all add: move_def)

lemma finish_run:
  assumes "queues_ok c" "th c t = Finishing k i r" "result_of r = (res, err)"
  obtains x where "trun G U identifiable srcs t c (move t (Got (fst k) res) (c\<lparr>sq := done_all t k x res err (sq c)\<rparr>))"
    "pcs (done_all t k x res err (sq c)) = (pcs (sq c))(t := Idle)"
    "qmap (done_all t k x res err (sq c)) = (qmap (sq c))(k := None)"
proof -
  have "pcs (sq c) t = Leading k" using in_queues [OF assms(1,2)] by simp
  from done_run [OF queues_okD(1) [OF assms(1)] this] obtain x where
    x: "qwork t (done_load t k res err (sq c)) (done_write t k x res err (done_load t k res err (sq c)))"
      "qwork t (done_write t k x res err (done_load t k res err (sq c)))
         (done_close t k x (done_write t k x res err (done_load t k res err (sq c))))"
      "qwork t (done_close t k x (done_write t k x res err (done_load t k res err (sq c)))) (done_all t k x res err (sq c))"
      "pcs (done_all t k x res err (sq c)) = (pcs (sq c))(t := Idle)"
      "qmap (done_all t k x res err (sq c)) = (qmap (sq c))(k := None)" by metis
  let ?c = "\<lambda>q. move t (Closing k i r) (c\<lparr>sq := q\<rparr>)"
  have work: "cstep G U identifiable srcs (Th t) (?c q) (?c q')" if "qwork t q q'" for q q'
    using cstep.close_work [of "?c q" t k i r q' G U identifiable srcs] that by (simp add: move_sq)
  have "trun G U identifiable srcs t c (?c (done_all t k x res err (sq c)))"
    using cstep.finish [OF assms(2,3), of G U identifiable srcs] work [OF x(1)] work [OF x(2)] work [OF x(3)]
    by (meson converse_rtranclp_into_rtranclp rtranclp.rtrancl_refl)
  moreover have "cstep G U identifiable srcs (Th t) (?c (done_all t k x res err (sq c)))
      (move t (Got (fst k) res) (c\<lparr>sq := done_all t k x res err (sq c)\<rparr>))"
    using cstep.finished [of "?c (done_all t k x res err (sq c))" t k i r G U identifiable srcs] x(4) assms(3) by simp
  ultimately show thesis using that [OF _ x(4,5)] by (meson rtranclp.rtrancl_into_rtrancl)
qed

lemma answer_run:
  assumes "queues_ok c" "th c t = Answering k i now r" "result_of r = (res, err)"
  obtains x where "trun G U identifiable srcs t c (move t (Making k i now r) (c\<lparr>iq := done_all t (fst k) x res err (iq c)\<rparr>))"
    "pcs (done_all t (fst k) x res err (iq c)) = (pcs (iq c))(t := Idle)"
    "qmap (done_all t (fst k) x res err (iq c)) = (qmap (iq c))(fst k := None)"
proof -
  let ?k = "fst k"
  have "pcs (iq c) t = Leading ?k" using in_queues [OF assms(1,2)] by simp
  from done_run [OF queues_okD(2) [OF assms(1)] this] obtain x where
    x: "qwork t (done_load t ?k res err (iq c)) (done_write t ?k x res err (done_load t ?k res err (iq c)))"
      "qwork t (done_write t ?k x res err (done_load t ?k res err (iq c)))
         (done_close t ?k x (done_write t ?k x res err (done_load t ?k res err (iq c))))"
      "qwork t (done_close t ?k x (done_write t ?k x res err (done_load t ?k res err (iq c)))) (done_all t ?k x res err (iq c))"
      "pcs (done_all t ?k x res err (iq c)) = (pcs (iq c))(t := Idle)"
      "qmap (done_all t ?k x res err (iq c)) = (qmap (iq c))(?k := None)" by metis
  let ?c = "\<lambda>q. move t (Publishing k i now r) (c\<lparr>iq := q\<rparr>)"
  have work: "cstep G U identifiable srcs (Th t) (?c q) (?c q')" if "qwork t q q'" for q q'
    using cstep.publish_work [of "?c q" t k i now r q' G U identifiable srcs] that by (simp add: move_sq)
  have "trun G U identifiable srcs t c (?c (done_all t ?k x res err (iq c)))"
    using cstep.answer [OF assms(2,3), of G U identifiable srcs] work [OF x(1)] work [OF x(2)] work [OF x(3)]
    by (meson converse_rtranclp_into_rtranclp rtranclp.rtrancl_refl)
  moreover have "cstep G U identifiable srcs (Th t) (?c (done_all t ?k x res err (iq c)))
      (move t (Making k i now r) (c\<lparr>iq := done_all t ?k x res err (iq c)\<rparr>))"
    using cstep.published [of "?c (done_all t ?k x res err (iq c))" t k i now r G U identifiable srcs] x(4) by simp
  ultimately show thesis using that [OF _ x(4,5)] by (meson rtranclp.rtrancl_into_rtrancl)
qed


lemma push_free:
  assumes "qmap q k = None"
  shows "pcs (push t k q) = (pcs q)(t := Leading k)" "qmap (push t k q) = (qmap q)(k \<mapsto> fresh q)"
  using assms by (simp_all add: push_def)

text \<open>The identification of an address that nobody else asks for.\<close>

lemma ident_run:
  assumes "queues_ok c" "th c t = Creating k i now" "qmap (iq c) (fst k) = None" "src \<in> srcs"
    "identify src (None, None) (clk c) (fst k) now (db c) = (r, out, d)"
  obtains c' where "trun G U identifiable srcs t c c'" "th c' = (th c)(t := Making k i now r)" "db c' = d"
    "sq c' = sq c" "qmap (iq c') = qmap (iq c)"
proof -
  let ?a = "fst k"
  let ?c = "move t (Identifying k i now) (c\<lparr>iq := push t ?a (iq c)\<rparr>)"
  have 1: "cstep G U identifiable srcs (Th t) c ?c" by (rule cstep.ident_push [OF assms(2)])
  have lead: "pcs (iq ?c) t = Leading ?a" by (simp add: push_free [OF assms(3)])
  obtain res s where res: "src ?a (clk c) (source (db c)) = (res, s)" by (metis surj_pair)
  have "\<exists>c2. trun G U identifiable srcs t ?c c2 \<and> th c2 = (th c)(t := Answering k i now r) \<and> db c2 = d \<and>
      sq c2 = sq c \<and> iq c2 = push t ?a (iq c)"
  proof (cases res)
    case (Inl err)
    have "cstep G U identifiable srcs (Th t) ?c (move t (Answering k i now (Inl (EWrap (Msg ''identifying client'') err)))
        (?c\<lparr>db := (db ?c)\<lparr>source := s\<rparr>\<rparr>))"
      by (rule cstep.source_err [OF _ lead assms(4)]) (simp_all add: res Inl)
    moreover have "r = Inl (EWrap (Msg ''identifying client'') err)" "d = (db c)\<lparr>source := s\<rparr>"
      using assms(5) res Inl by (simp_all add: identify_def Let_def)
    ultimately show ?thesis by (intro exI [of _ "move t (Answering k i now r) (?c\<lparr>db := d\<rparr>)"]) (auto simp: move_def)
  next
    case (Inr hid)
    let ?c2 = "move t (Committing k i now hid) (?c\<lparr>db := (db ?c)\<lparr>source := s\<rparr>, given := (?a, hid) # given ?c\<rparr>)"
    have 2: "cstep G U identifiable srcs (Th t) ?c ?c2"
      by (rule cstep.source_ok [OF _ lead assms(4)]) (simp_all add: res Inr)
    have com: "identify_commit ?a now hid ((db c)\<lparr>source := s\<rparr>) = (r, d)"
      using assms(5) by (auto simp: identify_pieces res Inr split: prod.splits)
    have 3: "cstep G U identifiable srcs (Th t) ?c2 (move t (Answering k i now r) (?c2\<lparr>db := d\<rparr>))"
      by (rule cstep.commit [where k = k and now = now and hid = hid]) (simp_all add: com)
    show ?thesis
      by (rule exI [of _ "move t (Answering k i now r) (?c2\<lparr>db := d\<rparr>)"])
        (use trun_steps [OF 2 3] in \<open>simp add: move_def\<close>)
  qed
  then obtain c2 where c2: "trun G U identifiable srcs t ?c c2" "th c2 = (th c)(t := Answering k i now r)" "db c2 = d"
    "sq c2 = sq c" "iq c2 = push t ?a (iq c)" by blast
  have run: "trun G U identifiable srcs t c c2" using 1 c2(1) by (rule converse_rtranclp_into_rtranclp)
  obtain x where x: "trun G U identifiable srcs t c2 (move t (Making k i now r)
        (c2\<lparr>iq := done_all t ?a x (fst (result_of r)) (snd (result_of r)) (iq c2)\<rparr>))"
    "qmap (done_all t ?a x (fst (result_of r)) (snd (result_of r)) (iq c2)) = (qmap (iq c2))(?a := None)"
    by (rule answer_run [OF trun_queues [OF run assms(1)], where t = t and k = k and i = i and now = now and r = r])
      (use c2 in auto)
  show thesis
    by (rule that [OF rtranclp_trans [OF run x(1)]])
      (use assms(3) c2 x(2) in \<open>simp_all add: push_free [OF assms(3)] fun_upd_idem\<close>)
qed

text \<open>The construction and the storing of the client.\<close>

lemma make_run:
  assumes "th c t = Making k i now r"
    "storage_newAutodeviceClient G U src ip srcNow (fst k) i now d0 = (res, out, d)"
    "identify src ip srcNow (fst k) now d0 = (r, out', db c)"
  obtains c' where "trun G U identifiable srcs t c c'" "th c' = (th c)(t := Finishing k i res)" "db c' = d"
    "sq c' = sq c" "iq c' = iq c"
proof (cases r)
  case (Inl err)
  have step: "cstep G U identifiable srcs (Th t) c
      (move t (Finishing k i (Inl (EWrap (Msg ''identifying client within prefix'') err))) c)"
    by (rule cstep.make_unidentified) (use assms(1) Inl in simp)
  show thesis
    by (rule that [OF trun_step [OF step]]) (use assms Inl in \<open>auto simp: storage_newAutodeviceClient_def\<close>)
next
  case (Inr hid)
  let ?sac = "autodevice (db c) ! i"
  show thesis
  proof (cases "newAutodeviceClient G U hid (sac_conf ?sac) (sac_cacheEnabled ?sac) (sac_cacheSize ?sac)")
    case (Inl err)
    have step: "cstep G U identifiable srcs (Th t) c
        (move t (Finishing k i (Inl (EWrap (MsgQ ''creating autodevice'' (sac_domain ?sac)) err))) c)"
      by (rule cstep.make_failed [OF _ refl Inl]) (use assms(1) Inr in simp)
    show thesis
      by (rule that [OF trun_step [OF step]])
        (use assms Inr Inl in \<open>auto simp: storage_newAutodeviceClient_def Let_def\<close>)
  next
    case auto: (Inr auto)
    have step: "cstep G U identifiable srcs (Th t) c (move t (Storing k i auto) c)"
      by (rule cstep.make [OF _ refl auto]) (use assms(1) Inr in simp)
    have step2: "cstep G U identifiable srcs (Th t) (move t (Storing k i auto) c)
        (move t (Finishing k i (Inr (AutoClient auto))) ((move t (Storing k i auto) c)\<lparr>db := store_client (fst k) i auto (db c)\<rparr>))"
      using cstep.store [of "move t (Storing k i auto) c" t k i auto] by simp
    show thesis
      by (rule that [OF trun_steps [OF step step2]])
        (use assms Inr auto in \<open>auto simp: storage_newAutodeviceClient_def Let_def store_client_def\<close>)
  qed
qed


text \<open>The search of an address and a domain that nobody else works on.\<close>

lemma search_run:
  assumes "queues_ok c" "th c t = Searching k i" "pcs (sq c) t = Leading k" "qmap (iq c) (fst k) = None" "src \<in> srcs"
    "newAutodeviceOrStored G U src (None, None) (None, None) (clk c) (clk c) (fst k) i (db c) = (r, out, d)"
  obtains c' where "trun G U identifiable srcs t c c'" "th c' = (th c)(t := Got (fst k) r)" "db c' = d"
    "qmap (sq c') = (qmap (sq c))(k := None)" "qmap (iq c') = qmap (iq c)"
proof -
  let ?c = "move t (Looking k i (clk c)) c"
  have 1: "cstep G U identifiable srcs (Th t) c ?c" by (rule cstep.read_clock [OF assms(2,3)])
  obtain res d1 where f: "findValidAutodeviceClient (fst k) i (clk c) (db c) = (res, d1)" by (metis surj_pair)
  have "\<exists>c2 q. trun G U identifiable srcs t c c2 \<and> th c2 = (th c)(t := Finishing k i q) \<and> r = fst (result_of q) \<and>
      db c2 = d \<and> sq c2 = sq c \<and> qmap (iq c2) = qmap (iq c)"
  proof (cases res)
    case (Some cli)
    have "cstep G U identifiable srcs (Th t) ?c (move t (Finishing k i (Inr cli)) (?c\<lparr>db := d1\<rparr>))"
      by (rule cstep.find_valid [where now = "clk c"]) (simp_all add: f Some)
    with 1 have "trun G U identifiable srcs t c (move t (Finishing k i (Inr cli)) (?c\<lparr>db := d1\<rparr>))" by simp
    with assms(6) f Some show ?thesis
      by (intro exI [of _ "move t (Finishing k i (Inr cli)) (?c\<lparr>db := d1\<rparr>)"] exI [of _ "Inr cli"])
        (simp add: newAutodeviceOrStored_def)
  next
    case None
    let ?c1 = "move t (Creating k i (clk c)) (?c\<lparr>db := d1\<rparr>)"
    have "cstep G U identifiable srcs (Th t) ?c ?c1"
      by (rule cstep.find_no) (simp_all add: f None)
    with 1 have run1: "trun G U identifiable srcs t c ?c1" by simp
    obtain q out' d2 where id: "identify src (None, None) (clk c) (fst k) (clk c) d1 = (q, out', d2)" by (metis surj_pair)
    obtain q2 out2 d3 where new: "storage_newAutodeviceClient G U src (None, None) (clk c) (fst k) i (clk c) d1 = (q2, out2, d3)"
      by (metis surj_pair)
    obtain c2 where c2: "trun G U identifiable srcs t ?c1 c2" "th c2 = (th ?c1)(t := Making k i (clk c) q)" "db c2 = d2"
      "sq c2 = sq c" "qmap (iq c2) = qmap (iq c)"
      by (rule ident_run [OF trun_queues [OF run1 assms(1)] _ _ assms(5), of t k i "clk c" q out' d2 G U identifiable])
        (use assms(4) id in simp_all)
    obtain c3 where c3: "trun G U identifiable srcs t c2 c3" "th c3 = (th c2)(t := Finishing k i q2)" "db c3 = d3"
      "sq c3 = sq c2" "iq c3 = iq c2"
      by (rule make_run [of c2 t k i "clk c" q G U src "(None, None)" "clk c" d1 q2 out2 d3 out' identifiable srcs])
        (use c2 new id in simp_all)
    have "r = fst (result_of q2) \<and> d = d3"
      using assms(6) f None new by (cases q2) (simp_all add: newAutodeviceOrStored_def)
    with c2 c3 rtranclp_trans [OF rtranclp_trans [OF run1 c2(1)] c3(1)] show ?thesis
      by (intro exI [of _ c3] exI [of _ q2]) simp
  qed
  then obtain c2 q where c2: "trun G U identifiable srcs t c c2" "th c2 = (th c)(t := Finishing k i q)"
    "r = fst (result_of q)" "db c2 = d" "sq c2 = sq c" "qmap (iq c2) = qmap (iq c)" by blast
  obtain x where x: "trun G U identifiable srcs t c2 (move t (Got (fst k) r)
        (c2\<lparr>sq := done_all t k x r (snd (result_of q)) (sq c2)\<rparr>))"
    "qmap (done_all t k x r (snd (result_of q)) (sq c2)) = (qmap (sq c2))(k := None)"
    by (rule finish_run [OF trun_queues [OF c2(1) assms(1)], where t = t and k = k and i = i and r = q])
      (use c2 in auto)
  show thesis
    by (rule that [OF rtranclp_trans [OF c2(1) x(1)]]) (use c2 x(2) in simp_all)
qed

text \<open>A call of \<open>Get\<close> with no other one for its address.\<close>

lemma get_run:
  assumes "queues_ok c" "th c t = Outside" "src \<in> srcs" "\<forall>dom. qmap (sq c) (addr, dom) = None" "qmap (iq c) addr = None"
    "Get G U identifiable src (None, None) (None, None) (clk c) (clk c) addr domain (db c) = (r, out, d)"
  shows "\<exists>c'. trun G U identifiable srcs t c c' \<and> th c' = (th c)(t := Got addr r) \<and> db c' = d \<and>
    qmap (sq c') = qmap (sq c) \<and> qmap (iq c') = qmap (iq c)"
proof (cases "findStaticClient G addr domain (db c)")
  case (Some cli)
  have "cstep G U identifiable srcs (Th t) c (move t (Got addr (Some cli)) (ask t addr domain c))"
    by (rule cstep.get_static [OF assms(2) Some])
  with assms(6) Some show ?thesis by (intro exI [of _ "move t (Got addr r) (ask t addr domain c)"]) (auto simp: Get_def)
next
  case none: None
  show ?thesis
  proof (cases "search_index G identifiable addr domain (db c)")
    case None
    have "cstep G U identifiable srcs (Th t) c (move t (Got addr None) (ask t addr domain c))"
      by (rule cstep.get_none [OF assms(2) none None])
    moreover have "r = None" "d = db c"
      using assms(6) none None
      by (auto simp: Get_def findAutodevice_def search_index_def split: if_splits option.splits)
    ultimately show ?thesis by (intro exI [of _ "move t (Got addr r) (ask t addr domain c)"]) auto
  next
    case (Some i)
    let ?k = "(addr, sac_domain (autodevice (db c) ! i))"
    let ?c = "move t (Searching ?k i) ((ask t addr domain c)\<lparr>sq := push t ?k (sq c)\<rparr>)"
    have free: "qmap (sq c) ?k = None" using assms(4) by blast
    have 1: "cstep G U identifiable srcs (Th t) c ?c"
      by (rule cstep.get_search [OF assms(2) none Some refl])
    have new: "newAutodeviceOrStored G U src (None, None) (None, None) (clk c) (clk c) addr i (db c) = (r, out, d)"
      using assms(6) none Some
      by (auto simp: Get_def findAutodevice_def search_index_def split: if_splits option.splits)
    obtain c' where "trun G U identifiable srcs t ?c c'" "th c' = (th ?c)(t := Got addr r)" "db c' = d"
      "qmap (sq c') = (qmap (sq ?c))(?k := None)" "qmap (iq c') = qmap (iq ?c)"
      by (rule search_run [OF queues_ok_step [OF 1 assms(1)], of t ?k i src srcs G U r out d identifiable])
        (use assms(3,5) new in \<open>simp_all add: push_free [OF free]\<close>)
    with 1 show ?thesis
      by (intro exI [of _ c'])
        (auto simp: push_free [OF free] free fun_upd_idem intro: converse_rtranclp_into_rtranclp)
  qed
qed


lemma get_alone:
  assumes "queues_ok c" "th c t = Outside" "src \<in> srcs" "\<forall>dom. qmap (sq c) (addr, dom) = None" "qmap (iq c) addr = None"
    "R = Get G U identifiable src (None, None) (None, None) (clk c) (clk c) addr domain (db c)"
  shows "\<exists>c'. trun G U identifiable srcs t c c' \<and> th c' = (th c)(t := Got addr (fst R)) \<and> db c' = snd (snd R) \<and>
    qmap (sq c') = qmap (sq c) \<and> qmap (iq c') = qmap (iq c)"
  by (rule get_run [OF assms(1-5), where domain = domain and out = "fst (snd R)"]) (simp flip: assms(6))

section \<open>Progress\<close>

text \<open>The steps of its own that a call has left at most.\<close>

fun q_rank :: "('k, 'v) pc \<Rightarrow> nat" where
  "q_rank (Waiting k x) = 1"
| "q_rank (Loaded k x res err) = 3"
| "q_rank (Written k x) = 2"
| "q_rank (Closed k) = 1"
| "q_rank p = 0"

fun t_rank :: "'cc thread \<Rightarrow> (search_request, 'cc client) pc \<Rightarrow> (addr, vhid) pc \<Rightarrow> nat" where
  "t_rank Outside p q = 0"
| "t_rank (Searching k i) p q = 19 + q_rank p"
| "t_rank (Looking k i now) p q = 18"
| "t_rank (Creating k i now) p q = 17"
| "t_rank (Identifying k i now) p q = 15 + q_rank q"
| "t_rank (Committing k i now hid) p q = 14"
| "t_rank (Answering k i now r) p q = 13"
| "t_rank (Publishing k i now r) p q = 9 + q_rank q"
| "t_rank (Making k i now r) p q = 8"
| "t_rank (Storing k i auto) p q = 7"
| "t_rank (Finishing k i r) p q = 6"
| "t_rank (Closing k i r) p q = 2 + q_rank p"
| "t_rank (Got addr r) p q = 1"

definition rank :: "('o, 'cc, 's) conc \<Rightarrow> nat \<Rightarrow> nat" where
  "rank c t = t_rank (th c t) (pcs (sq c) t) (pcs (iq c) t)"

lemma work_rank: "work_pc p p' \<Longrightarrow> q_rank p' < q_rank p"
  by (cases p) auto

lemma rank_bound:
  assumes "queues_ok c"
  shows "rank c t \<le> 20"
  using in_queues [OF assms refl, of t] by (cases "th c t") (auto simp: rank_def)

lemma thread_step_rank:
  assumes "cstep G U identifiable srcs (Th t) c c'" "queues_ok c" "th c t \<noteq> Outside"
  shows "rank c' t < rank c t"
  using assms
proof (cases rule: cstep.cases)
  case (search_work k i q)
  with work_rank [OF qwork_pc [OF search_work(3) queues_okD(1) [OF assms(2)]]] show ?thesis by (simp add: rank_def)
next
  case (ident_work k i now q)
  with work_rank [OF qwork_pc [OF ident_work(3) queues_okD(2) [OF assms(2)]]] show ?thesis by (simp add: rank_def)
next
  case (publish_work k i now r q)
  with work_rank [OF qwork_pc [OF publish_work(3) queues_okD(2) [OF assms(2)]]] show ?thesis by (simp add: rank_def)
next
  case (close_work k i r q)
  with work_rank [OF qwork_pc [OF close_work(3) queues_okD(1) [OF assms(2)]]] show ?thesis by (simp add: rank_def)
next
  case (ident_push k i now)
  then show ?thesis using pcs_push(2) [of t "fst k" "iq c"] by (auto simp: rank_def)
next
  case (answer k i now r res err)
  then show ?thesis
    using pcs_load(2) [where q = "iq c" and t = t and k = "fst k" and res = res and err = err]
      in_queues [OF assms(2) answer(2)] queues_okD(2) [OF assms(2)] by (auto simp: rank_def)
next
  case (finish k i r res err)
  then show ?thesis
    using pcs_load(2) [where q = "sq c" and t = t and k = k and res = res and err = err]
      in_queues [OF assms(2) finish(2)] queues_okD(1) [OF assms(2)] by (auto simp: rank_def)
qed (simp_all add: rank_def)

lemma thread_step_others:
  assumes "cstep G U identifiable srcs (Th t) c c'" "queues_ok c" "u \<noteq> t"
  shows "th c' u = th c u" "rank c' u = rank c u"
proof -
  have "th c' u = th c u \<and> pcs (sq c') u = pcs (sq c) u \<and> pcs (iq c') u = pcs (iq c) u"
    using assms
  proof (cases rule: cstep.cases)
    case (answer k i now r res err)
    then show ?thesis
      using pcs_load(1) [where q = "iq c" and t = t and k = "fst k" and u = u and res = res and err = err]
        in_queues [OF assms(2) answer(2)] queues_okD(2) [OF assms(2)] assms(3) by auto
  next
    case (finish k i r res err)
    then show ?thesis
      using pcs_load(1) [where q = "sq c" and t = t and k = k and u = u and res = res and err = err]
        in_queues [OF assms(2) finish(2)] queues_okD(1) [OF assms(2)] assms(3) by auto
  qed (simp_all add: pcs_push(1) pcs_qwork)
  then show "th c' u = th c u" "rank c' u = rank c u" by (simp_all add: rank_def)
qed

lemma env_step_rank:
  assumes "cstep G U identifiable srcs Env c c'"
  shows "th c' = th c" "rank c' u \<le> rank c u"
proof -
  show "th c' = th c" using assms by (cases rule: cstep.cases) simp_all
  show "rank c' u \<le> rank c u" using assms by (cases rule: cstep.cases) (auto simp: rank_def)
qed

text \<open>A run in which no call begins, with the number of the steps of threads.\<close>

inductive calls_run ::
  "golibs \<Rightarrow> ('o, 'u, 'cc) ups_env \<Rightarrow> (addr \<Rightarrow> bool) \<Rightarrow> 's identify_fn set \<Rightarrow>
     nat \<Rightarrow> ('o, 'cc, 's) conc \<Rightarrow> ('o, 'cc, 's) conc \<Rightarrow> bool"
  for G U identifiable srcs where
  none: "calls_run G U identifiable srcs 0 c c"
| thread: "calls_run G U identifiable srcs n c c' \<Longrightarrow> th c' t \<noteq> Outside \<Longrightarrow>
    cstep G U identifiable srcs (Th t) c' c'' \<Longrightarrow> calls_run G U identifiable srcs (Suc n) c c''"
| env: "calls_run G U identifiable srcs n c c' \<Longrightarrow> cstep G U identifiable srcs Env c' c'' \<Longrightarrow>
    calls_run G U identifiable srcs n c c''"

lemma calls_run_rank:
  assumes "calls_run G U identifiable srcs n c c'" "queues_ok c" "finite A" "\<And>t. th c t \<noteq> Outside \<Longrightarrow> t \<in> A"
  shows "queues_ok c' \<and> (\<forall>t. th c' t \<noteq> Outside \<longrightarrow> t \<in> A) \<and> n + sum (rank c') A \<le> sum (rank c) A"
  using assms
proof (induction rule: calls_run.induct)
  case (thread n c c' t c'')
  then have ih: "queues_ok c'" "\<And>t. th c' t \<noteq> Outside \<Longrightarrow> t \<in> A" "n + sum (rank c') A \<le> sum (rank c) A" by auto
  have "sum (rank c'') A < sum (rank c') A"
    using thread_step_rank [OF thread.hyps(3) ih(1) thread.hyps(2)] thread_step_others(2) [OF thread.hyps(3) ih(1)]
      ih(2) [OF thread.hyps(2)] thread.prems(2)
    by (intro sum_strict_mono_ex1) (blast, metis order.refl less_imp_le, blast)
  moreover have "t' \<in> A" if "th c'' t' \<noteq> Outside" for t'
    using that ih(2) thread.hyps(2) thread_step_others(1) [OF thread.hyps(3) ih(1)] by metis
  ultimately show ?case using ih(3) queues_ok_step [OF thread.hyps(3) ih(1)] by auto
next
  case (env n c c' c'')
  then have "sum (rank c'') A \<le> sum (rank c') A" by (intro sum_mono) (rule env_step_rank(2))
  with env env_step_rank(1) [OF env.hyps(2)] queues_ok_step [OF env.hyps(2)] show ?case by auto
qed simp

text \<open>A pending call can take a step, unless it waits for another one.\<close>

lemma step_or_waits:
  assumes "queues_ok c" "srcs \<noteq> {}" "th c t \<noteq> Outside"
  shows "(\<exists>c'. cstep G U identifiable srcs (Th t) c c') \<or>
    (\<exists>k x. pcs (sq c) t = Waiting k x \<and> \<not> closed (cells (sq c) x)) \<or>
    (\<exists>k x. pcs (iq c) t = Waiting k x \<and> \<not> closed (cells (iq c) x))"
proof (cases "th c t")
  case (Searching k i)
  from in_queues [OF assms(1) this] consider "pcs (sq c) t = Leading k" | x where "pcs (sq c) t = Waiting k x"
    | res err where "pcs (sq c) t = Returned res err" "res \<noteq> None \<or> err \<noteq> None" by auto
  then show ?thesis
  proof cases
    case 1
    with Searching show ?thesis by (blast intro: cstep.read_clock)
  next
    case 2
    with Searching show ?thesis using qwork_enabled [OF 2] by (blast intro: cstep.search_work)
  next
    case 3
    with Searching show ?thesis by (cases err) (blast intro: cstep.search_shared cstep.search_failed)+
  qed
next
  case (Looking k i now)
  obtain res d where "findValidAutodeviceClient (fst k) i now (db c) = (res, d)" by (metis surj_pair)
  with Looking show ?thesis by (cases res) (blast intro: cstep.find_valid cstep.find_no)+
next
  case (Creating k i now)
  then show ?thesis by (blast intro: cstep.ident_push)
next
  case (Identifying k i now)
  from in_queues [OF assms(1) this] consider "pcs (iq c) t = Leading (fst k)" | x where "pcs (iq c) t = Waiting (fst k) x"
    | res err where "pcs (iq c) t = Returned res err" "res \<noteq> None \<or> err \<noteq> None" by auto
  then show ?thesis
  proof cases
    case 1
    from assms(2) obtain src where src: "src \<in> srcs" by blast
    obtain res s where "src (fst k) (clk c) (source (db c)) = (res, s)" by (metis surj_pair)
    with 1 Identifying src show ?thesis by (cases res) (blast intro: cstep.source_err cstep.source_ok)+
  next
    case 2
    with Identifying show ?thesis using qwork_enabled [OF 2] by (blast intro: cstep.ident_work)
  next
    case 3
    with Identifying show ?thesis by (cases err) (blast intro: cstep.ident_shared cstep.ident_failed)+
  qed
next
  case (Committing k i now hid)
  obtain r d where "identify_commit (fst k) now hid (db c) = (r, d)" by (metis surj_pair)
  with Committing show ?thesis by (blast intro: cstep.commit)
next
  case (Answering k i now r)
  then show ?thesis by (metis surj_pair cstep.answer)
next
  case (Publishing k i now r)
  with in_queues [OF assms(1) this] qwork_done [of "iq c" t "fst k"] show ?thesis
    by (metis in_ident.simps(4) cstep.publish_work cstep.published)
next
  case (Making k i now r)
  show ?thesis
  proof (cases r)
    case (Inl err)
    with Making show ?thesis by (blast intro: cstep.make_unidentified)
  next
    case (Inr hid)
    let ?sac = "autodevice (db c) ! i"
    show ?thesis
      using cstep.make [of c t k i now hid ?sac G U] cstep.make_failed [of c t k i now hid ?sac G U] Making Inr
      by (cases "newAutodeviceClient G U hid (sac_conf ?sac) (sac_cacheEnabled ?sac) (sac_cacheSize ?sac)") blast+
  qed
next
  case (Storing k i auto)
  then show ?thesis by (blast intro: cstep.store)
next
  case (Finishing k i r)
  then show ?thesis by (metis surj_pair cstep.finish)
next
  case (Closing k i r)
  with in_queues [OF assms(1) this] qwork_done [of "sq c" t k] show ?thesis
    by (metis in_search.simps(11) cstep.close_work cstep.finished)
next
  case (Got addr r)
  then show ?thesis by (blast intro: cstep.returned)
qed (use assms(3) in simp)

lemma waits_for_leader:
  assumes "qreach q" "pcs q t = Waiting k x" "\<not> closed (cells q x)"
  shows "\<exists>u. leads (pcs q u) = Some k"
  using qinvD(1) [OF qreach_inv [OF assms(1)], of t] qinvD(3) [OF qreach_inv [OF assms(1)], of k x] assms(2,3) by simp

lemma no_deadlock:
  assumes "queues_ok c" "srcs \<noteq> {}" "th c t \<noteq> Outside"
  shows "\<exists>u c'. th c u \<noteq> Outside \<and> cstep G U identifiable srcs (Th u) c c'"
proof -
  have ident: "\<exists>u c'. th c u \<noteq> Outside \<and> cstep G U identifiable srcs (Th u) c c'"
    if w: "pcs (iq c) v = Waiting k x" "\<not> closed (cells (iq c) x)" for v k x
  proof -
    obtain u where u: "leads (pcs (iq c) u) = Some k"
      using waits_for_leader [OF queues_okD(2) [OF assms(1)] w] by blast
    have "th c u \<noteq> Outside" "\<And>l y. pcs (sq c) u \<noteq> Waiting l y" "\<And>l y. pcs (iq c) u \<noteq> Waiting l y"
      using u in_queues [OF assms(1) refl, of u] by (cases "th c u"; auto)+
    then show ?thesis using step_or_waits [OF assms(1,2), of u G U identifiable] by blast
  qed
  have search: "\<exists>u c'. th c u \<noteq> Outside \<and> cstep G U identifiable srcs (Th u) c c'"
    if w: "pcs (sq c) v = Waiting k x" "\<not> closed (cells (sq c) x)" for v k x
  proof -
    obtain u where u: "leads (pcs (sq c) u) = Some k"
      using waits_for_leader [OF queues_okD(1) [OF assms(1)] w] by blast
    have "th c u \<noteq> Outside" "\<And>l y. pcs (sq c) u \<noteq> Waiting l y"
      using u in_queues [OF assms(1) refl, of u] by (cases "th c u"; auto)+
    then show ?thesis using step_or_waits [OF assms(1,2), of u G U identifiable] ident by blast
  qed
  show ?thesis
    using step_or_waits [OF assms, of G U identifiable] ident search assms(3) by blast
qed


section \<open>Properties\<close>

text \<open>Two calls that run alone, one after the other, on the storage of one configuration.\<close>

lemma trun_frame:
  assumes "trun G U identifiable srcs t c c'" "creach G U identifiable srcs d c"
  shows "creach G U identifiable srcs d c' \<and> clk c' = clk c \<and> gc c' = gc c"
  using assms
proof (induction rule: rtranclp_induct)
  case (step c1 c2)
  have "clk c2 = clk c1 \<and> gc c2 = gc c1" using step.hyps(2) by (cases rule: cstep.cases) simp_all
  with step show ?case by (auto intro: creach.step)
qed simp

abbreviation demo_creach where
  "demo_creach \<equiv> creach ref_golibs demo_ups (\<lambda>_. True) {default_identify 5} (NewDefaultStorage demo_auto ())"

abbreviation demo_get where
  "demo_get a d \<equiv> Get ref_golibs demo_ups (\<lambda>_. True) (default_identify 5) (None, None) (None, None) 0 0 a ''example.com'' d"

lemma two_calls:
  fixes G U identifiable now domain
  assumes "src \<in> srcs" "t \<noteq> u" "a \<noteq> b"
  defines "get \<equiv> \<lambda>a d. Get G U identifiable src (None, None) (None, None) now now a domain d"
  shows "\<exists>c. creach G U identifiable srcs d c \<and> clk c = now \<and> gc c = GcWait \<and> th c = (\<lambda>_. Outside)
       (t := Got a (fst (get a d)), u := Got b (fst (get b (snd (snd (get a d)))))) \<and>
     db c = snd (snd (get b (snd (snd (get a d)))))"
proof -
  let ?c = "conc_init d now"
  have r0: "creach G U identifiable srcs d ?c" by (rule creach.start)
  have "\<exists>c1. trun G U identifiable srcs t ?c c1 \<and> th c1 = (th ?c)(t := Got a (fst (get a d))) \<and>
      db c1 = snd (snd (get a d)) \<and> qmap (sq c1) = qmap (sq ?c) \<and> qmap (iq c1) = qmap (iq ?c)"
    by (rule get_alone [OF queues_ok_init _ assms(1), where domain = domain])
      (simp_all add: conc_init_def newQueue_def get_def)
  then obtain c1 where c1: "trun G U identifiable srcs t ?c c1" "th c1 = (th ?c)(t := Got a (fst (get a d)))"
      "db c1 = snd (snd (get a d))" "qmap (sq c1) = qmap (sq ?c)" "qmap (iq c1) = qmap (iq ?c)" by blast
  have r1: "creach G U identifiable srcs d c1" "clk c1 = now" "gc c1 = GcWait"
    using trun_frame [OF c1(1) r0] by (simp_all add: conc_init_def)
  have "\<exists>c2. trun G U identifiable srcs u c1 c2 \<and> th c2 = (th c1)(u := Got b (fst (get b (db c1)))) \<and>
      db c2 = snd (snd (get b (db c1))) \<and> qmap (sq c2) = qmap (sq c1) \<and> qmap (iq c2) = qmap (iq c1)"
    by (rule get_alone [OF creach_queues [OF r1(1)] _ assms(1), where domain = domain])
      (use c1 r1 assms(2) in \<open>simp_all add: conc_init_def newQueue_def get_def\<close>)
  then obtain c2 where c2: "trun G U identifiable srcs u c1 c2" "th c2 = (th c1)(u := Got b (fst (get b (db c1))))"
      "db c2 = snd (snd (get b (db c1)))" by blast
  then show ?thesis using trun_frame [OF c2(1) r1(1)] r1(2,3) c1 by (intro exI [of _ c2]) (simp add: conc_init_def)
qed

lemma demo_two_calls:
  "\<exists>c. demo_creach c \<and> clk c = 0 \<and> gc c = GcWait \<and> th c = (\<lambda>_. Outside)
       (0 := Got (A4 1) (fst (demo_get (A4 1) (NewDefaultStorage demo_auto ()))),
        1 := Got (A4 2) (fst (demo_get (A4 2) (snd (snd (demo_get (A4 1) (NewDefaultStorage demo_auto ()))))))) \<and>
     db c = snd (snd (demo_get (A4 2) (snd (snd (demo_get (A4 1) (NewDefaultStorage demo_auto ()))))))"
  by (rule two_calls) simp_all

lemma demo_pending:
  "\<exists>c r r'. demo_creach c \<and> th c = (\<lambda>_. Outside)(0 := Got (A4 1) r, 1 := Got (A4 2) r')"
  using demo_two_calls by blast

text \<open>
  C5: In every interleaving of callers and collector, whatever the source answers, a caller gets what its
  own question asks for: the static client of its address and name if there is one, no client if there is
  none and no configuration creates devices for them, and otherwise an on-demand client (or none) that
  was made for its own address, from the first configuration that matches the question and from an
  identifier that the source gave to this address.  A caller that waited for another one is no exception.
\<close>

lemma Get_own_client:
  assumes "creach G U identifiable srcs (NewDefaultStorage conf s) c" "th c t = Got addr r"
  shows "\<exists>domain. asked c t = Some (addr, domain) \<and>
    (case findStaticClient G addr domain (db c) of
       Some cli \<Rightarrow> r = Some cli
     | None \<Rightarrow>
        (case search_index G identifiable addr domain (db c) of
           None \<Rightarrow> r = None
         | Some i \<Rightarrow> \<forall>cli. r = Some cli \<longrightarrow> (\<exists>hid auto. (addr, hid) \<in> set (given c) \<and>
             made G U (db c) i hid auto \<and> cli = AutoClient auto)))"
proof -
  obtain domain where q: "asked c t = Some (addr, domain)" "case findStaticClient G addr domain (db c) of
        Some cli \<Rightarrow> r = Some cli
      | None \<Rightarrow> search_index G identifiable addr domain (db c) = None \<longrightarrow> r = None"
    using questions_at [OF creach_questions [OF assms(1)] assms(2)] by auto
  note own = served_okD(2) [OF creach_served [OF assms(1) NewDefaultStorage_fresh] assms(2)]
  have "\<exists>hid auto. (addr, hid) \<in> set (given c) \<and> made G U (db c) i hid auto \<and> cli = AutoClient auto"
    if "r = Some cli" "findStaticClient G addr domain (db c) = None" "search_index G identifiable addr domain (db c) = Some i" for cli i
    using own that q(1) search_index_key(2) [OF that(3)] by (auto simp: own_def)
  with q show ?thesis by (auto split: option.splits)
qed

lemma Get_own_client_witness:
  "\<exists>c auto hid. demo_creach c \<and> th c 1 = Got (A4 2) (Some (AutoClient auto)) \<and> (A4 2, hid) \<in> set (given c) \<and>
     validUntil auto = 5"
proof -
  obtain c where c: "demo_creach c"
    "th c 1 = Got (A4 2) (fst (demo_get (A4 2) (snd (snd (demo_get (A4 1) (NewDefaultStorage demo_auto ()))))))"
    "db c = snd (snd (demo_get (A4 2) (snd (snd (demo_get (A4 1) (NewDefaultStorage demo_auto ()))))))"
    using demo_two_calls by fastforce
  have r: "fst (demo_get (A4 2) (snd (snd (demo_get (A4 1) (NewDefaultStorage demo_auto ()))))) =
      Some (AutoClient \<lparr>upstreams = (4096, [''quic://otr-abcd1234-dev-0-0-0-2.d.adguard-dns.com/dns-query'']), validUntil = 5\<rparr>)"
    by code_simp
  have "static (snd (snd (demo_get (A4 2) (snd (snd (demo_get (A4 1) (NewDefaultStorage demo_auto ()))))))) = []"
    by code_simp
  then have none: "findStaticClient ref_golibs (A4 2) x (db c) = None" for x by (simp add: findStaticClient_def c(3))
  from Get_own_client [OF c(1,2)] obtain domain where "case findStaticClient ref_golibs (A4 2) domain (db c) of
       Some cli \<Rightarrow> fst (demo_get (A4 2) (snd (snd (demo_get (A4 1) (NewDefaultStorage demo_auto ()))))) = Some cli
     | None \<Rightarrow>
        (case search_index ref_golibs (\<lambda>_. True) (A4 2) domain (db c) of
           None \<Rightarrow> fst (demo_get (A4 2) (snd (snd (demo_get (A4 1) (NewDefaultStorage demo_auto ()))))) = None
         | Some i \<Rightarrow> \<forall>cli. fst (demo_get (A4 2) (snd (snd (demo_get (A4 1) (NewDefaultStorage demo_auto ()))))) = Some cli \<longrightarrow>
             (\<exists>hid auto. (A4 2, hid) \<in> set (given c) \<and> made ref_golibs demo_ups (db c) i hid auto \<and> cli = AutoClient auto))" by blast
  then have "\<exists>hid. (A4 2, hid) \<in> set (given c)" unfolding r none by (auto split: option.splits)
  moreover have "validUntil \<lparr>upstreams = (4096, [''quic://otr-abcd1234-dev-0-0-0-2.d.adguard-dns.com/dns-query'']), validUntil = 5\<rparr> = 5"
    by simp
  ultimately show ?thesis using c(1) c(2) [unfolded r] by blast
qed

text \<open>Two clients that are valid, of two addresses.\<close>

lemma ids_differ:
  assumes "creach G U identifiable srcs (NewDefaultStorage conf s) c" "mono_hist (given c)"
    "i < length (autodevice (db c))" "(a, x) \<in> set (sac_clients (autodevice (db c) ! i))" "clk c < validUntil x"
    "j < length (autodevice (db c))" "(b, y) \<in> set (sac_clients (autodevice (db c) ! j))" "clk c < validUntil y"
    "a \<noteq> b"
  shows "\<exists>v w. (a, v) \<in> set (given c) \<and> made G U (db c) i v x \<and> (b, w) \<in> set (given c) \<and> made G U (db c) j w y \<and>
    ID v \<noteq> ID w"
proof -
  have ok: "clients_ok True G U c" using creach_ids [OF assms(1) NewDefaultStorage_fresh] assms(2) ids_okD(6) by blast
  obtain v where v: "good True c a v" "made G U (db c) i v x" using ok assms(3,4) unfolding clients_ok_def by blast
  obtain w where w: "good True c b w" "made G U (db c) j w y" using ok assms(6,7) unfolding clients_ok_def by blast
  have "clk c < Until v" "clk c < Until w"
    using v(2) w(2) assms(5,8) by (auto simp: made_def newAutodeviceClient_def Let_def split: sum.splits)
  then have "ID v \<noteq> ID w" using v(1) w(1) assms(9) by (auto simp: good_def held_def)
  with v w show ?thesis unfolding good_def by blast
qed

text \<open>
  C3: If the source never shortens the life of a name that it has given to an address, then in every
  interleaving the unexpired on-demand clients of different addresses come from different
  identifiers: neither the searches that run at the same time, with the stale times they check
  against, nor a collection between two critical sections gives a live identifier away.
\<close>

lemma live_ids_differ:
  assumes "creach G U identifiable srcs (NewDefaultStorage conf s) c" "mono_hist (given c)"
    "i < length (autodevice (db c))" "(a, x) \<in> set (sac_clients (autodevice (db c) ! i))" "clk c < validUntil x"
    "j < length (autodevice (db c))" "(b, y) \<in> set (sac_clients (autodevice (db c) ! j))" "clk c < validUntil y"
    "a \<noteq> b"
  shows "\<exists>v w. (a, v) \<in> set (given c) \<and> made G U (db c) i v x \<and> (b, w) \<in> set (given c) \<and> made G U (db c) j w y \<and>
    ID v \<noteq> ID w"
  by (rule ids_differ [OF assms])

lemma live_ids_differ_witness:
  "\<exists>c v w. demo_creach c \<and> (A4 1, v) \<in> set (given c) \<and> (A4 2, w) \<in> set (given c) \<and> ID v \<noteq> ID w"
proof -
  obtain c where c: "demo_creach c" "clk c = 0"
    "db c = snd (snd (demo_get (A4 2) (snd (snd (demo_get (A4 1) (NewDefaultStorage demo_auto ()))))))"
    using demo_two_calls by blast
  have "map sac_clients (autodevice (db c)) =
      [[(A4 1, \<lparr>upstreams = (4096, [''quic://otr-abcd1234-dev-0-0-0-1.d.adguard-dns.com/dns-query'']), validUntil = 5\<rparr>),
        (A4 2, \<lparr>upstreams = (4096, [''quic://otr-abcd1234-dev-0-0-0-2.d.adguard-dns.com/dns-query'']), validUntil = 5\<rparr>)]]"
    unfolding c(3) by code_simp
  then obtain sac where sac: "autodevice (db c) = [sac]" "sac_clients sac =
      [(A4 1, \<lparr>upstreams = (4096, [''quic://otr-abcd1234-dev-0-0-0-1.d.adguard-dns.com/dns-query'']), validUntil = 5\<rparr>),
        (A4 2, \<lparr>upstreams = (4096, [''quic://otr-abcd1234-dev-0-0-0-2.d.adguard-dns.com/dns-query'']), validUntil = 5\<rparr>)]"
    by auto
  have mono: "mono_hist (given c)" using default_history [OF c(1)] by simp
  show ?thesis using live_ids_differ [OF c(1) mono, of 0 _ _ 0] c(1,2) sac by fastforce
qed


text \<open>Two calls for the same address: the first looks for the client, the second waits for it.\<close>

lemma demo_contended:
  "\<exists>c k. demo_creach c \<and> fst k = A4 1 \<and> th c = (\<lambda>_. Outside)(0 := Looking k 0 0, 1 := Searching k 0) \<and>
     pcs (sq c) 1 = Waiting k 0"
proof -
  let ?d = "NewDefaultStorage demo_auto ()"
  let ?S = "{default_identify 5} :: unit identify_fn set"
  let ?c0 = "conc_init ?d 0" and ?k = "(A4 1, sac_domain (autodevice ?d ! 0))"
  let ?c1 = "move 0 (Searching ?k 0) ((ask 0 (A4 1) ''example.com'' ?c0)\<lparr>sq := push 0 ?k (sq ?c0)\<rparr>)"
  let ?c2 = "move 0 (Looking ?k 0 (clk ?c1)) ?c1"
  let ?c3 = "move 1 (Searching ?k 0) ((ask 1 (A4 1) ''example.com'' ?c2)\<lparr>sq := push 1 ?k (sq ?c2)\<rparr>)"
  note step = creach.step [where G = ref_golibs and U = demo_ups and identifiable = "\<lambda>_. True" and srcs = ?S]
  have q: "findStaticClient ref_golibs (A4 1) ''example.com'' ?d = None"
    "search_index ref_golibs (\<lambda>_. True) (A4 1) ''example.com'' ?d = Some 0" by code_simp+
  have r0: "demo_creach ?c0" by (rule creach.start)
  have r1: "demo_creach ?c1"
    by (rule step [OF r0 cstep.get_search [where addr = "A4 1" and domain = "''example.com''"]]) (simp_all add: conc_init_def q)
  have r2: "demo_creach ?c2"
    by (rule step [OF r1 cstep.read_clock]) (simp_all add: conc_init_def newQueue_def push_def)
  have r3: "demo_creach ?c3"
    by (rule step [OF r2 cstep.get_search [where addr = "A4 1" and domain = "''example.com''"]]) (simp_all add: conc_init_def q)
  have "th ?c3 = (\<lambda>_. Outside)(0 := Looking ?k 0 0, 1 := Searching ?k 0)" by (simp add: conc_init_def fun_eq_iff)
  moreover have "pcs (sq ?c3) 1 = Waiting ?k 0" by (simp add: conc_init_def newQueue_def push_def)
  ultimately show ?thesis using r3 by (intro exI [of _ ?c3] exI [of _ ?k]) simp
qed

text \<open>The client a thread is the one to find or make, and the address it is the one to identify.\<close>

fun works_on :: "'cc thread \<Rightarrow> (addr \<times> nat) option" where
  "works_on (Looking k i now) = Some (fst k, i)"
| "works_on (Creating k i now) = Some (fst k, i)"
| "works_on (Identifying k i now) = Some (fst k, i)"
| "works_on (Committing k i now hid) = Some (fst k, i)"
| "works_on (Answering k i now r) = Some (fst k, i)"
| "works_on (Publishing k i now r) = Some (fst k, i)"
| "works_on (Making k i now r) = Some (fst k, i)"
| "works_on (Storing k i auto) = Some (fst k, i)"
| "works_on (Finishing k i r) = Some (fst k, i)"
| "works_on p = None"

definition asks :: "('o, 'cc, 's) conc \<Rightarrow> nat \<Rightarrow> addr option" where
  "asks c t = (case th c t of
      Identifying k i now \<Rightarrow> if pcs (iq c) t = Leading (fst k) then Some (fst k) else None
    | Committing k i now hid \<Rightarrow> Some (fst k)
    | Answering k i now r \<Rightarrow> Some (fst k)
    | _ \<Rightarrow> None)"

lemma works_on_leads:
  assumes "queues_ok c" "requests_ok c" "works_on (th c t) = Some (a, i)"
  shows "leads (pcs (sq c) t) = Some (a, sac_domain (autodevice (db c) ! i))"
proof -
  obtain k where k: "request (th c t) = Some (k, i)" "fst k = a" "\<And>p. in_search (th c t) p \<Longrightarrow> p = Leading k"
    using assms(3) by (cases "th c t") auto
  moreover from this have "snd k = sac_domain (autodevice (db c) ! i)"
    using requests_at [OF assms(2) refl k(1)] by (simp add: request_ok_def)
  ultimately have "k = (a, sac_domain (autodevice (db c) ! i))" by (simp add: prod_eq_iff)
  then show ?thesis using in_queues [OF assms(1) refl, of t] k(3) by force
qed

lemma one_worker:
  assumes "creach G U identifiable srcs d c" "works_on (th c t) = Some (a, i)" "works_on (th c u) = Some (a, i)"
  shows "t = u"
proof -
  note q = creach_queues [OF assms(1)] and r = creach_requests [OF assms(1)]
  show ?thesis
    by (rule qinvD(2) [OF qreach_inv [OF queues_okD(1) [OF q]]]) (simp_all add: works_on_leads [OF q r] assms(2,3))
qed

lemma asks_leads: "queues_ok c \<Longrightarrow> asks c t = Some a \<Longrightarrow> leads (pcs (iq c) t) = Some a"
  using in_queues [of c t "th c t"] by (auto simp: asks_def split: thread.splits if_splits)

text \<open>
  C13: At most one call at a time looks for, creates and stores the client of an address and a
  configuration, and at most one asks the source about an address and commits the answer, in every
  interleaving; no call of \<open>done\<close> panics.
\<close>

lemma one_creator:
  assumes "creach G U identifiable srcs d c"
  shows "pcs (sq c) t \<noteq> Panicked \<and> pcs (iq c) t \<noteq> Panicked \<and>
    (works_on (th c t) = Some (a, i) \<and> works_on (th c u) = Some (a, i) \<longrightarrow> t = u) \<and>
    (asks c t = Some b \<and> asks c u = Some b \<longrightarrow> t = u)"
proof -
  note q = creach_queues [OF assms] and r = creach_requests [OF assms]
  note inv = qreach_inv [OF queues_okD(1) [OF q]] qreach_inv [OF queues_okD(2) [OF q]]
  have "pcs (sq c) t \<noteq> Panicked" "pcs (iq c) t \<noteq> Panicked"
    using qinvD(1) [OF inv(1), of t] qinvD(1) [OF inv(2), of t] by auto
  moreover have "t = u" if "works_on (th c t) = Some (a, i) \<and> works_on (th c u) = Some (a, i)"
    using that one_worker [OF assms] by blast
  moreover have "t = u" if "asks c t = Some b \<and> asks c u = Some b"
    using that asks_leads [OF q, of t b] asks_leads [OF q, of u b] by (intro qinvD(2) [OF inv(2)]) simp_all
  ultimately show ?thesis by blast
qed

lemma one_creator_witness:
  "\<exists>c k. demo_creach c \<and> works_on (th c 0) = Some (A4 1, 0) \<and> pcs (sq c) 1 = Waiting k 0 \<and>
     works_on (th c 1) \<noteq> Some (A4 1, 0)"
proof -
  obtain c k where c: "demo_creach c" "fst k = A4 1" "pcs (sq c) 1 = Waiting k 0"
      "th c = (\<lambda>_. Outside)(0 := Looking k 0 0, 1 := Searching k 0)" using demo_contended by metis
  then have "works_on (th c 0) = Some (A4 1, 0)" by simp
  with one_creator [OF c(1), of 0 "A4 1" 0 1] c(1,3) show ?thesis by auto
qed

text \<open>
  The steps of a call of \<open>Get\<close> that no other thread, collection or tick of the clock interrupts, with no
  other call for its address pending, can lead to the client and the storage that the sequential model
  of \<open>Get\<close> gives, with nothing left in the queues: the two models agree.
\<close>

lemma Get_alone:
  assumes "creach G U identifiable srcs d c" "th c t = Outside" "src \<in> srcs"
    "\<forall>dom. qmap (sq c) (addr, dom) = None" "qmap (iq c) addr = None"
  shows "\<exists>c'. trun G U identifiable srcs t c c' \<and>
    th c' = (th c)(t := Got addr (fst (Get G U identifiable src (None, None) (None, None) (clk c) (clk c) addr domain (db c)))) \<and>
    db c' = snd (snd (Get G U identifiable src (None, None) (None, None) (clk c) (clk c) addr domain (db c))) \<and>
    qmap (sq c') = qmap (sq c) \<and> qmap (iq c') = qmap (iq c)"
  by (rule get_alone [OF creach_queues [OF assms(1)] assms(2-5) refl])

lemma Get_alone_witness:
  "\<exists>c cli. demo_creach c \<and> th c 0 = Got (A4 1) (Some (AutoClient cli)) \<and> validUntil cli = 5"
proof -
  let ?c = "conc_init (NewDefaultStorage demo_auto ()) 0" and ?s = "{default_identify 5} :: unit identify_fn set"
  have r0: "demo_creach ?c" by (rule creach.start)
  have "\<exists>c'. trun ref_golibs demo_ups (\<lambda>_. True) ?s 0 ?c c' \<and>
      th c' = (th ?c)(0 := Got (A4 1) (fst (Get ref_golibs demo_ups (\<lambda>_. True) (default_identify 5) (None, None) (None, None)
        (clk ?c) (clk ?c) (A4 1) ''example.com'' (db ?c)))) \<and>
      db c' = snd (snd (Get ref_golibs demo_ups (\<lambda>_. True) (default_identify 5) (None, None) (None, None)
        (clk ?c) (clk ?c) (A4 1) ''example.com'' (db ?c))) \<and>
      qmap (sq c') = qmap (sq ?c) \<and> qmap (iq c') = qmap (iq ?c)"
    by (rule Get_alone [OF r0]) (simp_all add: conc_init_def newQueue_def)
  then obtain c' where "trun ref_golibs demo_ups (\<lambda>_. True) ?s 0 ?c c'"
      "th c' 0 = Got (A4 1) (fst (demo_get (A4 1) (NewDefaultStorage demo_auto ())))" by (auto simp: conc_init_def)
  moreover have "fst (demo_get (A4 1) (NewDefaultStorage demo_auto ())) =
      Some (AutoClient \<lparr>upstreams = (4096, [''quic://otr-abcd1234-dev-0-0-0-1.d.adguard-dns.com/dns-query'']), validUntil = 5\<rparr>)"
    by code_simp
  ultimately show ?thesis using trun_frame [OF _ r0] by fastforce
qed

text \<open>
  C11: No interleaving blocks: while a call of \<open>Get\<close> is pending, some pending call can take a step,
  without the help of the clock, the collector or a cancelled context.
\<close>

lemma Get_no_deadlock:
  assumes "creach G U identifiable srcs d c" "srcs \<noteq> {}" "th c t \<noteq> Outside"
  shows "\<exists>u c'. th c u \<noteq> Outside \<and> cstep G U identifiable srcs (Th u) c c'"
  by (rule no_deadlock [OF creach_queues [OF assms(1)] assms(2,3)])

lemma Get_no_deadlock_witness:
  "\<exists>c k u c'. demo_creach c \<and> pcs (sq c) 1 = Waiting k 0 \<and> th c u \<noteq> Outside \<and>
     cstep ref_golibs demo_ups (\<lambda>_. True) {default_identify 5} (Th u) c c'"
proof -
  obtain c k where c: "demo_creach c" "pcs (sq c) 1 = Waiting k 0"
      "th c = (\<lambda>_. Outside)(0 := Looking k 0 0, 1 := Searching k 0)" using demo_contended by metis
  then have "th c 1 \<noteq> Outside" by simp
  with Get_no_deadlock [OF c(1), of 1] c(1,2) show ?thesis by blast
qed

text \<open>
  C14: A pending call ends: in a run in which no call begins, of any length and with any scheduling of
  the calls, the collector, the clock and cancellations, the pending calls take at most twenty steps
  each.
\<close>

lemma Get_steps_bounded:
  assumes "creach G U identifiable srcs d c" "finite {t. th c t \<noteq> Outside}" "calls_run G U identifiable srcs n c c'"
  shows "n \<le> 20 * card {t. th c t \<noteq> Outside}"
proof -
  let ?A = "{t. th c t \<noteq> Outside}"
  note q = creach_queues [OF assms(1)]
  have "n \<le> sum (rank c) ?A" using calls_run_rank [OF assms(3) q assms(2)] by simp
  also have "\<dots> \<le> (\<Sum>t \<in> ?A. 20)" by (intro sum_mono rank_bound q)
  finally show ?thesis by simp
qed

lemma Get_steps_bounded_witness:
  "\<exists>c c' k. calls_run ref_golibs demo_ups (\<lambda>_. True) {default_identify 5 :: unit identify_fn} 1 c c' \<and>
     demo_creach c \<and> pcs (sq c) 1 = Waiting k 0 \<and> 1 \<le> 20 * card {t. th c t \<noteq> Outside}"
proof -
  obtain c k where c: "demo_creach c" "pcs (sq c) 1 = Waiting k 0"
      "th c = (\<lambda>_. Outside)(0 := Looking k 0 0, 1 := Searching k 0)" using demo_contended by metis
  obtain r d where "findValidAutodeviceClient (fst k) 0 0 (db c) = (r, d)" by fastforce
  then obtain c' where "cstep ref_golibs demo_ups (\<lambda>_. True) {default_identify 5 :: unit identify_fn} (Th 0) c c'"
    using cstep.find_valid [of c 0 k 0 0] cstep.find_no [of c 0 k 0 0] c(3) by (cases r) fastforce+
  then have run: "calls_run ref_golibs demo_ups (\<lambda>_. True) {default_identify 5 :: unit identify_fn} 1 c c'"
    using calls_run.thread [OF calls_run.none, of c 0] c(3) by fastforce
  have "{t. th c t \<noteq> Outside} = {0, 1}" using c(3) by auto
  then have "finite {t. th c t \<noteq> Outside}" by simp
  from Get_steps_bounded [OF c(1) this run] c(1,2) run show ?thesis by blast
qed

end
