(* ===== verification/StorageFinal.thy ===== *)
theory StorageFinal
  imports StorageRuns "HOL-Library.Multiset"
begin

text \<open>
  What becomes of the on-demand clients of the storage (\<open>internal/client/defaultstorage.go\<close>) when many
  callers and the collector run: a client is taken out of its map by the one that sets its finalizer,
  and the runtime stops the program if a finalizer is set twice, so that the two must go together.
\<close>

section \<open>Accounts\<close>

definition client_ups :: "('o, 'cc) sac \<Rightarrow> 'cc multiset" where
  "client_ups s = image_mset (\<lambda>(a, x). upstreams x) (mset (sac_clients s))"

definition accounted :: "('o, 'cc, 's) storage \<Rightarrow> 'cc multiset" where
  "accounted d = (\<Sum>s \<leftarrow> autodevice d. client_ups s) + mset (finalizers d)"

definition keys_of :: "nat \<Rightarrow> ('o, 'cc, 's) storage \<Rightarrow> addr set" where
  "keys_of i d = fst ` set (sac_clients (autodevice d ! i))"

definition clients_distinct :: "('o, 'cc, 's) storage \<Rightarrow> bool" where
  "clients_distinct d = (\<forall>s \<in> set (autodevice d). distinct (map fst (sac_clients s)))"

text \<open>The accounts are kept, and no client appears.\<close>

definition keeps :: "('o, 'cc, 's) storage \<Rightarrow> ('o, 'cc, 's) storage \<Rightarrow> bool" where
  "keeps d d' = (length (autodevice d') = length (autodevice d) \<and> accounted d' = accounted d \<and> clients_distinct d' \<and>
     (\<forall>i < length (autodevice d). keys_of i d' \<subseteq> keys_of i d))"

lemma sum_list_at:
  fixes f :: "'a \<Rightarrow> 'b multiset"
  assumes "i < length xs"
  shows "(\<Sum>x \<leftarrow> xs[i := y]. f x) + f (xs ! i) = (\<Sum>x \<leftarrow> xs. f x) + f y"
proof -
  have "(\<Sum>x \<leftarrow> xs. f x) = (\<Sum>x \<leftarrow> take i xs @ xs ! i # drop (Suc i) xs. f x)"
    using id_take_nth_drop [OF assms] by simp
  then show ?thesis using assms by (simp add: upd_conv_take_nth_drop)
qed

lemma delete_once:
  assumes "distinct (map fst xs)" "map_of xs a = Some x"
  shows "mset xs = add_mset (a, x) (mset (AList.delete a xs))"
  using assms
proof (induction xs)
  case (Cons p xs)
  obtain b y where p: "p = (b, y)" by (cases p)
  show ?case
  proof (cases "b = a")
    case True
    with Cons.prems p have "a \<notin> fst ` set xs" "y = x" by auto
    then have "AList.delete a xs = xs" by (force simp: AList.delete_eq filter_id_conv)
    with True p \<open>y = x\<close> show ?thesis by simp
  next
    case False
    with Cons p show ?thesis by simp
  qed
qed simp

lemma update_new: "a \<notin> fst ` set xs \<Longrightarrow> AList.update a x xs = xs @ [(a, x)]"
  by (induction xs) auto

lemma accounted_sac:
  assumes "i < length (autodevice d)" "client_ups s + mset fs = client_ups (autodevice d ! i) + us"
  shows "accounted (d\<lparr>autodevice := (autodevice d)[i := s], finalizers := finalizers d @ fs\<rparr>) = accounted d + us"
proof -
  let ?S = "\<lambda>xs. \<Sum>s \<leftarrow> xs. client_ups s"
  have "?S ((autodevice d)[i := s]) + mset fs + client_ups (autodevice d ! i) = ?S (autodevice d) + (client_ups s + mset fs)"
    using sum_list_at [OF assms(1), of client_ups s] by (simp add: ac_simps)
  also have "\<dots> = ?S (autodevice d) + us + client_ups (autodevice d ! i)"
    by (simp only: assms(2)) (simp add: ac_simps)
  finally have "?S ((autodevice d)[i := s]) + mset fs = ?S (autodevice d) + us" by simp
  then show ?thesis by (simp add: accounted_def ac_simps)
qed

lemma distinct_sac:
  assumes "clients_distinct d" "distinct (map fst (sac_clients s))" "autodevice d' = (autodevice d)[i := s]"
  shows "clients_distinct d'"
  using assms set_update_subset_insert [of "autodevice d" i s] by (auto simp: clients_distinct_def)

lemma keys_sac:
  "autodevice d' = (autodevice d)[i := s] \<Longrightarrow> i < length (autodevice d) \<Longrightarrow>
     keys_of j d' = (if j = i then fst ` set (sac_clients s) else keys_of j d)"
  by (auto simp: keys_of_def)

lemma keeps_same: "clients_distinct d \<Longrightarrow> autodevice d' = autodevice d \<Longrightarrow> finalizers d' = finalizers d \<Longrightarrow> keeps d d'"
  by (simp add: keeps_def accounted_def clients_distinct_def keys_of_def)

text \<open>The operations.\<close>

lemma find_keeps:
  assumes "findValidAutodeviceClient a i now d = (r, d')" "i < length (autodevice d)" "clients_distinct d"
  shows "keeps d d'" "r = None \<Longrightarrow> a \<notin> keys_of i d'"
proof -
  let ?s = "autodevice d ! i"
  have dist: "distinct (map fst (sac_clients ?s))" using assms(2,3) by (simp add: clients_distinct_def)
  have "keeps d d' \<and> (r = None \<longrightarrow> a \<notin> keys_of i d')"
  proof (cases "\<exists>x. map_of (sac_clients ?s) a = Some x \<and> \<not> now < validUntil x")
    case True
    then obtain x where x: "map_of (sac_clients ?s) a = Some x" "\<not> now < validUntil x" by blast
    let ?t = "?s\<lparr>sac_clients := AList.delete a (sac_clients ?s)\<rparr>"
    have d': "d' = d\<lparr>autodevice := (autodevice d)[i := ?t], finalizers := finalizers d @ [upstreams x]\<rparr>"
      using assms(1) x by (auto simp: findValidAutodeviceClient_def upd_sac_def intro!: storage.equality)
    have "client_ups ?t + mset [upstreams x] = client_ups ?s + {#}"
      using delete_once [OF dist x(1)] by (simp add: client_ups_def)
    then have "accounted d' = accounted d" using accounted_sac [OF assms(2)] d' by simp
    moreover have "clients_distinct d'"
      by (rule distinct_sac [OF assms(3)]) (use d' dist in \<open>auto simp: AList.delete_eq intro: distinct_fst_filter\<close>)
    ultimately show ?thesis
      using keys_sac [of d' d i ?t] assms(2) d' by (auto simp: keeps_def keys_of_def AList.delete_eq)
  next
    case False
    then have "d' = d" "r = None \<Longrightarrow> map_of (sac_clients ?s) a = None"
      using assms(1) by (auto simp: findValidAutodeviceClient_def split: option.splits if_splits)
    then show ?thesis using keeps_same [OF assms(3), of d] by (auto simp: keys_of_def map_of_eq_None_iff)
  qed
  then show "keeps d d'" "r = None \<Longrightarrow> a \<notin> keys_of i d'" by simp_all
qed

lemma clean_keeps:
  assumes "j < length (autodevice d)" "clients_distinct d"
  shows "keeps d (clean_sac now j d)"
proof -
  let ?s = "autodevice d ! j" and ?r = "cleanExpiredClients now (autodevice d ! j)"
  have dist: "distinct (map fst (sac_clients ?s))" using assms by (simp add: clients_distinct_def)
  have split: "mset xs = mset (filter P xs) + mset (filter (\<lambda>x. \<not> P x) xs)" for P and xs :: "'x list"
    by (induction xs) auto
  have "client_ups (fst ?r) + mset (snd ?r) = client_ups ?s + {#}"
    using split [of "sac_clients ?s" "\<lambda>(_, client). now < validUntil client"]
    by (simp add: client_ups_def cleanExpiredClients_def case_prod_unfold flip: image_mset_union)
  then have "accounted (clean_sac now j d) = accounted d"
    using accounted_sac [OF assms(1)] by (simp add: clean_sac_def Let_def)
  moreover have "clients_distinct (clean_sac now j d)"
    by (rule distinct_sac [OF assms(2), where s = "fst ?r" and i = j])
      (use dist in \<open>auto simp: clean_sac_def cleanExpiredClients_def Let_def intro: distinct_fst_filter\<close>)
  ultimately show ?thesis
    using keys_sac [of "clean_sac now j d" d j "fst ?r"] assms(1)
    by (auto simp: keeps_def keys_of_def clean_sac_def cleanExpiredClients_def Let_def)
qed

lemma store_accounted:
  assumes "i < length (autodevice d)" "clients_distinct d" "a \<notin> keys_of i d"
  shows "accounted (store_client a i auto d) = add_mset (upstreams auto) (accounted d)"
    "clients_distinct (store_client a i auto d)"
    "keys_of j (store_client a i auto d) = (if j = i then insert a (keys_of i d) else keys_of j d)"
proof -
  let ?s = "autodevice d ! i"
  let ?t = "?s\<lparr>sac_clients := AList.update a auto (sac_clients ?s)\<rparr>" and ?d = "store_client a i auto d"
  have d: "?d = d\<lparr>autodevice := (autodevice d)[i := ?t], finalizers := finalizers d @ []\<rparr>"
    by (simp add: store_client_def upd_sac_def)
  have new: "AList.update a auto (sac_clients ?s) = sac_clients ?s @ [(a, auto)]"
    using assms(3) by (simp add: keys_of_def update_new)
  then have "client_ups ?t + mset [] = client_ups ?s + {#upstreams auto#}" by (simp add: client_ups_def)
  from accounted_sac [OF assms(1) this] d show "accounted ?d = add_mset (upstreams auto) (accounted d)" by simp
  have "distinct (map fst (sac_clients ?s))" using assms(1,2) by (simp add: clients_distinct_def)
  then show "clients_distinct ?d"
    by (intro distinct_sac [OF assms(2), where s = ?t and i = i]) (simp_all add: d distinct_update)
  show "keys_of j ?d = (if j = i then insert a (keys_of i d) else keys_of j d)"
    using keys_sac [of ?d d i ?t j] assms(1) new d by (simp add: keys_of_def)
qed

section \<open>The steps\<close>

text \<open>The client that a call has found not to be there and will store.\<close>

fun creating :: "'cc thread \<Rightarrow> (addr \<times> nat) option" where
  "creating (Creating k i now) = Some (fst k, i)"
| "creating (Identifying k i now) = Some (fst k, i)"
| "creating (Committing k i now hid) = Some (fst k, i)"
| "creating (Answering k i now r) = Some (fst k, i)"
| "creating (Publishing k i now r) = Some (fst k, i)"
| "creating (Making k i now r) = Some (fst k, i)"
| "creating (Storing k i auto) = Some (fst k, i)"
| "creating p = None"

definition vacant :: "('o, 'cc, 's) conc \<Rightarrow> bool" where
  "vacant c = (clients_distinct (db c) \<and> (\<forall>t a i. creating (th c t) = Some (a, i) \<longrightarrow> a \<notin> keys_of i (db c)))"

lemma creating_works: "creating p = Some x \<Longrightarrow> works_on p = Some x"
  by (cases p) auto

lemma creating_request: "creating p = Some (a, i) \<Longrightarrow> \<exists>k. request p = Some (k, i)"
  by (cases p) auto

lemma cstep_creating:
  assumes "cstep G U identifiable srcs w c c'" "creating (th c' u) = Some x"
  shows "creating (th c u) = Some x \<or> (\<exists>k i now. th c u = Looking k i now \<and> x = (fst k, i) \<and>
    findValidAutodeviceClient (fst k) i now (db c) = (None, db c'))"
  using assms by (cases rule: cstep.cases) (auto split: if_splits)

text \<open>What a step stores.\<close>

fun stores :: "who \<Rightarrow> ('o, 'cc, 's) conc \<Rightarrow> 'cc list" where
  "stores (Th t) c = (case th c t of Storing k i auto \<Rightarrow> [upstreams auto] | _ \<Rightarrow> [])"
| "stores Env c = []"

lemma cstep_keeps:
  assumes "cstep G U identifiable srcs w c c'" "requests_ok c" "clients_distinct (db c)"
  shows "keeps (db c) (db c') \<and> stores w c = [] \<or> (\<exists>t k i auto. w = Th t \<and> th c t = Storing k i auto \<and> creating (th c' t) = None \<and>
    db c' = store_client (fst k) i auto (db c))"
  using assms
proof (cases rule: cstep.cases)
  case (find_valid t k i now cli d)
  with requests_at [OF assms(2) find_valid(3)] find_keeps(1) [OF find_valid(4) _ assms(3)] show ?thesis
    by (simp add: request_ok_def)
next
  case (find_no t k i now d)
  with requests_at [OF assms(2) find_no(3)] find_keeps(1) [OF find_no(4) _ assms(3)] show ?thesis
    by (simp add: request_ok_def)
next
  case (commit t k i now hid r d)
  then have "autodevice d = autodevice (db c) \<and> finalizers d = finalizers (db c)"
    by (auto simp: identify_commit_def split: option.splits if_splits)
  with commit keeps_same [OF assms(3), of d] show ?thesis by simp
next
  case (store t k i auto)
  then show ?thesis by (intro disjI2 exI [of _ t] exI [of _ k] exI [of _ i] exI [of _ auto]) simp
next
  case (gc_sac now j)
  with clean_keeps [OF _ assms(3)] show ?thesis by simp
next
  case (gc_ids now)
  have "keeps (db c) (clean_ids now (db c))" by (rule keeps_same [OF assms(3)]) (simp_all add: clean_ids_def)
  with gc_ids show ?thesis by simp
qed (use keeps_same [OF assms(3)] in simp_all)

lemma vacant_step:
  assumes "cstep G U identifiable srcs w c c'" "creach G U identifiable srcs d0 c" "vacant c"
  shows "vacant c' \<and> accounted (db c') = accounted (db c) + mset (stores w c)"
proof -
  note r = creach_requests [OF assms(2)]
  have dist: "clients_distinct (db c)" using assms(3) by (simp add: vacant_def)
  have len: "i < length (autodevice (db c))" if "creating (th c u) = Some (a, i)" for u a i
    using creating_request [OF that] requests_at [OF r refl] by (auto simp: request_ok_def)
  have old: "a \<notin> keys_of i (db c)" if "creating (th c u) = Some (a, i)" for u a i
    using assms(3) that by (simp add: vacant_def)
  from cstep_keeps [OF assms(1) r dist] show ?thesis
  proof (elim disjE exE conjE)
    assume k: "keeps (db c) (db c')" "stores w c = []"
    have "a \<notin> keys_of i (db c')" if "creating (th c' u) = Some (a, i)" for u a i
      using cstep_creating [OF assms(1) that]
    proof (elim disjE exE conjE)
      assume u: "creating (th c u) = Some (a, i)"
      with k(1) len [OF u] old [OF u] show ?thesis by (auto simp: keeps_def)
    next
      fix k j now
      assume u: "th c u = Looking k j now" "(a, i) = (fst k, j)"
        "findValidAutodeviceClient (fst k) j now (db c) = (None, db c')"
      then have "j < length (autodevice (db c))" using requests_at [OF r u(1)] by (simp add: request_ok_def)
      with find_keeps(2) [OF u(3) _ dist] u(2) show ?thesis by simp
    qed
    with k show ?thesis by (simp add: vacant_def keeps_def)
  next
    fix t k i auto
    assume t: "w = Th t" "th c t = Storing k i auto" "creating (th c' t) = None"
      "db c' = store_client (fst k) i auto (db c)"
    then have t': "creating (th c t) = Some (fst k, i)" by simp
    note st = store_accounted [OF len [OF t'] dist old [OF t'], where auto = auto]
    have "a \<notin> keys_of j (db c')" if u: "creating (th c' u) = Some (a, j)" for u a j
    proof -
      have ut: "u \<noteq> t" using t(3) u by auto
      have cu: "creating (th c u) = Some (a, j)"
        using thread_step_others(1) [OF assms(1) [unfolded t(1)] creach_queues [OF assms(2)] ut] u by simp
      then have "(a, j) \<noteq> (fst k, i)"
        using one_worker [OF assms(2) creating_works [OF t'], of u] creating_works [OF cu] ut by auto
      with old [OF cu] show ?thesis unfolding t(4) st(3) by auto
    qed
    with t(1,2) st(1,2) t(4) show ?thesis by (simp add: vacant_def)
  qed
qed

section \<open>Runs\<close>

text \<open>A run with the upstreams of the clients that it has stored, in order.\<close>

inductive crun ::
  "golibs \<Rightarrow> ('o, 'u, 'cc) ups_env \<Rightarrow> (addr \<Rightarrow> bool) \<Rightarrow> 's identify_fn set \<Rightarrow>
     ('o, 'cc, 's) storage \<Rightarrow> 'cc list \<Rightarrow> ('o, 'cc, 's) conc \<Rightarrow> bool"
  for G U identifiable srcs d0 where
  start: "crun G U identifiable srcs d0 [] (conc_init d0 now)"
| step: "crun G U identifiable srcs d0 us c \<Longrightarrow> cstep G U identifiable srcs w c c' \<Longrightarrow>
    crun G U identifiable srcs d0 (us @ stores w c) c'"

lemma crun_creach: "crun G U identifiable srcs d us c \<Longrightarrow> creach G U identifiable srcs d c"
  by (induction rule: crun.induct) (auto intro: creach.intros)

lemma creach_crun: "creach G U identifiable srcs d c \<Longrightarrow> \<exists>us. crun G U identifiable srcs d us c"
  by (induction rule: creach.induct) (blast intro: crun.intros)+

lemma fresh_accounts:
  assumes "fresh_storage d" "finalizers d = []"
  shows "vacant (conc_init d now)" "accounted d = {#}"
proof -
  have "(\<Sum>s \<leftarrow> xs. client_ups s) = {#}" if "\<forall>s \<in> set xs. sac_clients s = []" for xs :: "('o, 'cc) sac list"
    using that by (induction xs) (auto simp: client_ups_def)
  then show "vacant (conc_init d now)" "accounted d = {#}"
    using assms by (auto simp: fresh_storage_def vacant_def conc_init_def clients_distinct_def accounted_def)
qed

lemma crun_accounts:
  assumes "crun G U identifiable srcs d us c" "fresh_storage d" "finalizers d = []"
  shows "vacant c \<and> accounted (db c) = mset us"
  using assms
proof (induction rule: crun.induct)
  case (start now)
  then show ?case using fresh_accounts(1) [of d now] fresh_accounts(2) [of d] by (simp add: conc_init_def)
next
  case (step us c w c')
  then show ?case using vacant_step [OF step.hyps(2) crun_creach [OF step.hyps(1)]] by simp
qed

text \<open>
  C8: In every interleaving of the callers and the collector, each on-demand client that was ever
  stored is either still in the map of its configuration, or it has been given its finalizer exactly
  once: none is overwritten or dropped without one, and none gets two, at which the runtime would stop
  the program.
\<close>

lemma finalizers_once:
  assumes "crun G U identifiable srcs (NewDefaultStorage conf s) us c"
  shows "mset us = (\<Sum>sac \<leftarrow> autodevice (db c). image_mset (\<lambda>(a, x). upstreams x) (mset (sac_clients sac))) +
      mset (finalizers (db c))"
  using crun_accounts [OF assms NewDefaultStorage_fresh]
  by (simp add: NewDefaultStorage_def accounted_def client_ups_def)

lemma finalizers_once_witness:
  "\<exists>us c. crun ref_golibs demo_ups (\<lambda>_. True) {default_identify 5 :: unit identify_fn} (NewDefaultStorage demo_auto ()) us c \<and>
     length (finalizers (db c)) = 2 \<and> mset us = mset (finalizers (db c))"
proof -
  obtain c where c: "demo_creach c" "clk c = 0" "gc c = GcWait"
    "db c = snd (snd (demo_get (A4 2) (snd (snd (demo_get (A4 1) (NewDefaultStorage demo_auto ()))))))"
    using demo_two_calls by blast
  note step = creach.step [where G = ref_golibs and U = demo_ups and identifiable = "\<lambda>_. True" and
      srcs = "{default_identify 5 :: unit identify_fn}"]
  let ?c1 = "c\<lparr>clk := 5\<rparr>"
  let ?c2 = "?c1\<lparr>gc := GcSac 5 0\<rparr>"
  let ?c3 = "?c2\<lparr>gc := GcSac 5 (Suc 0), db := clean_sac 5 0 (db ?c2)\<rparr>"
  have d: "length (autodevice (db c)) = 1" "map sac_clients (autodevice (clean_sac 5 0 (db c))) = [[]]"
    "length (finalizers (clean_sac 5 0 (db c))) = 2" unfolding c(4) by code_simp+
  have "demo_creach ?c1" by (rule step [OF c(1) cstep.time_passes]) (simp add: c(2))
  then have "demo_creach ?c2" by (rule step [OF _ cstep.gc_tick]) (simp_all add: c(3))
  then have "demo_creach ?c3" by (rule step [OF _ cstep.gc_sac]) (simp_all add: d(1))
  then obtain us where us: "crun ref_golibs demo_ups (\<lambda>_. True) {default_identify 5} (NewDefaultStorage demo_auto ()) us ?c3"
    using creach_crun by blast
  obtain sac where "autodevice (db ?c3) = [sac]" "sac_clients sac = []" using d(2) by auto
  with finalizers_once [OF us] us d(3) show ?thesis by (intro exI [of _ us] exI [of _ ?c3]) simp
qed

end
