(* ===== verification/StorageSource.thy ===== *)
theory StorageSource
  imports StorageRuns
begin

text \<open>
  The concurrent storage with the source of identifiers that the program builds
  (\<open>cmd/clientstorage.go\<close>): reverse DNS (\<open>client/rdnsidsource.go\<close>), then the name of the address
  (\<open>client/humanidsource.go\<close>).  The source keeps the name of an address for as long as it is valid, which
  is what the identifiers of \<^theory_text>\<open>StorageRuns\<close> rest on.
\<close>

section \<open>The program's source\<close>

text \<open>
  What happens to the state of the source between its calls (\<open>age\<close>: items expire, the janitor runs)
  drops no item whose identifier is valid.
\<close>

definition age_ok :: "'c gocache \<Rightarrow> (int \<Rightarrow> 'c rdns \<Rightarrow> 'c rdns) \<Rightarrow> bool" where
  "age_ok E age = (\<forall>t r a v.
     (cget E (cache (age t r)) a = Some (Some v) \<longrightarrow> cget E (cache r) a = Some (Some v)) \<and>
     (cget E (cache r) a = Some (Some v) \<longrightarrow> t < Until v \<longrightarrow> cget E (cache (age t r)) a = Some (Some v)))"

text \<open>No PTR record has a name of the form that the default source gives to an address.\<close>

definition names_apart :: "golibs \<Rightarrow> dns_net \<Rightarrow> bool" where
  "names_apart G N = (\<forall>name resp t p a. exchange N name = Inr resp \<longrightarrow> PTR t p \<in> set (Answer resp) \<longrightarrow>
     fqdnToHumanID G p \<noteq> Inr (default_human_id a))"

definition program_srcs ::
  "golibs \<Rightarrow> 'c gocache \<Rightarrow> int \<Rightarrow> dns_net set \<Rightarrow> (int \<Rightarrow> 'c rdns \<Rightarrow> 'c rdns) set \<Rightarrow> 'c rdns identify_fn set" where
  "program_srcs G E ivl Ns ages =
     {src. \<exists>N \<in> Ns. \<exists>age \<in> ages. src = (\<lambda>a t r. consequent_identify [rdns_identify G E N, default_identify ivl] a t (age t r))}"

section \<open>One call\<close>

lemma rdns_cached: "cget E (cache r) a = Some (Some v) \<Longrightarrow> rdns_identify G E N a t r = (Inr v, r)"
  by (simp add: rdns_identify_def replyFromCache_def)

text \<open>A name that is not from the cache is from an answer.\<close>

lemma rdns_named:
  assumes "golibs_ok G" "names_apart G N" "rdns_identify G E N a t r = (Inr v, r')" "cget E (cache r) a = None"
  shows "ID v \<noteq> default_human_id b" "t < Until v" "cache r' = cset E (cache r) a (Some v) (Until v - t)"
  by (rule rdns_answer [OF assms(1,3,4)], use assms(2) in \<open>fastforce simp: names_apart_def\<close>)+

lemma rdns_failed:
  assumes "golibs_ok G" "rdns_identify G E N a t r = (Inl err, r')"
  shows "cget E (cache r) a \<noteq> Some (Some v)" "cache r' = cache r \<or> cache r' = cset E (cache r) a None defaultCacheTTL"
proof -
  show "cget E (cache r) a \<noteq> Some (Some v)" using assms(2) rdns_cached [of E r a v G N t] by auto
  from assms show "cache r' = cache r \<or> cache r' = cset E (cache r) a None defaultCacheTTL"
    by (cases rule: rdns_identify_cases) simp_all
qed

section \<open>The history\<close>

text \<open>
  A name from reverse DNS stays in the cache while it is valid, so that nothing else is given to the
  address.
\<close>

definition remembers :: "'c gocache \<Rightarrow> int \<Rightarrow> int \<Rightarrow> 'c rdns \<Rightarrow> (addr \<times> vhid) list \<Rightarrow> bool" where
  "remembers E ivl now r h = (
     (\<forall>(a, v) \<in> set h. ID v \<noteq> default_human_id a \<longrightarrow> now < Until v \<longrightarrow> cget E (cache r) a = Some (Some v)) \<and>
     (\<forall>a v. cget E (cache r) a = Some (Some v) \<longrightarrow> ID v \<noteq> default_human_id a \<and>
        (\<forall>(b, w) \<in> set h. b = a \<longrightarrow> ID w = ID v \<longrightarrow> Until w \<le> Until v)) \<and>
     (\<forall>(a, v) \<in> set h. ID v = default_human_id a \<longrightarrow> Until v \<le> now + ivl) \<and>
     mono_hist h)"

lemma remembersD:
  assumes "remembers E ivl now r h"
  shows "(a, v) \<in> set h \<Longrightarrow> ID v \<noteq> default_human_id a \<Longrightarrow> now < Until v \<Longrightarrow> cget E (cache r) a = Some (Some v)"
    "cget E (cache r) a = Some (Some v) \<Longrightarrow> ID v \<noteq> default_human_id a"
    "cget E (cache r) a = Some (Some v) \<Longrightarrow> (a, w) \<in> set h \<Longrightarrow> ID w = ID v \<Longrightarrow> Until w \<le> Until v"
    "(a, v) \<in> set h \<Longrightarrow> ID v = default_human_id a \<Longrightarrow> Until v \<le> now + ivl"
    "mono_hist h"
  using assms unfolding remembers_def by blast+

lemma remembersI:
  assumes "\<And>a v. (a, v) \<in> set h \<Longrightarrow> ID v \<noteq> default_human_id a \<Longrightarrow> now < Until v \<Longrightarrow> cget E (cache r) a = Some (Some v)"
    "\<And>a v. cget E (cache r) a = Some (Some v) \<Longrightarrow> ID v \<noteq> default_human_id a"
    "\<And>a v w. cget E (cache r) a = Some (Some v) \<Longrightarrow> (a, w) \<in> set h \<Longrightarrow> ID w = ID v \<Longrightarrow> Until w \<le> Until v"
    "\<And>a v. (a, v) \<in> set h \<Longrightarrow> ID v = default_human_id a \<Longrightarrow> Until v \<le> now + ivl"
    "mono_hist h"
  shows "remembers E ivl now r h"
  using assms unfolding remembers_def by blast

lemma remembers_age:
  assumes "remembers E ivl now r h" "age_ok E age"
  shows "remembers E ivl now (age now r) h"
  using assms unfolding remembers_def age_ok_def by blast

lemma remembers_later:
  assumes "remembers E ivl now r h" "now \<le> t"
  shows "remembers E ivl t r h"
  using assms unfolding remembers_def by fastforce

text \<open>What the state of the source is when \<open>v\<close> is given to \<open>a\<close>.\<close>

lemma remembers_given:
  assumes "remembers E ivl now r h"
    "\<And>b. b \<noteq> a \<Longrightarrow> cget E (cache r') b = cget E (cache r) b"
    "\<And>w. cget E (cache r') a = Some (Some w) \<Longrightarrow> ID w \<noteq> default_human_id a \<and> w = v"
    "\<And>w. (a, w) \<in> set h \<Longrightarrow> ID w \<noteq> default_human_id a \<Longrightarrow> now < Until w \<Longrightarrow> cget E (cache r') a = Some (Some w)"
    "ID v \<noteq> default_human_id a \<Longrightarrow> cget E (cache r') a = Some (Some v)"
    "ID v = default_human_id a \<Longrightarrow> Until v \<le> now + ivl"
    "\<And>w. (a, w) \<in> set h \<Longrightarrow> ID w = ID v \<Longrightarrow> Until w \<le> Until v"
  shows "remembers E ivl now r' ((a, v) # h)"
proof (rule remembersI)
  fix b w assume "(b, w) \<in> set ((a, v) # h)" "ID w \<noteq> default_human_id b" "now < Until w"
  then show "cget E (cache r') b = Some (Some w)"
    using assms(2,4,5) remembersD(1) [OF assms(1), of b w] by (cases "b = a") auto
next
  fix b w assume "cget E (cache r') b = Some (Some w)"
  then show "ID w \<noteq> default_human_id b"
    using assms(2,3) remembersD(2) [OF assms(1), of b w] by (cases "b = a") auto
next
  fix b w x assume "cget E (cache r') b = Some (Some w)" "(b, x) \<in> set ((a, v) # h)" "ID x = ID w"
  then show "Until x \<le> Until w"
    using assms(2,3,7) remembersD(3) [OF assms(1), of b w x] by (cases "b = a") auto
next
  fix b w assume "(b, w) \<in> set ((a, v) # h)" "ID w = default_human_id b"
  then show "Until w \<le> now + ivl" using assms(6) remembersD(4) [OF assms(1), of b w] by auto
next
  show "mono_hist ((a, v) # h)" using assms(7) remembersD(5) [OF assms(1)] by auto
qed

text \<open>A call of the program's source.\<close>

lemma remembers_identify:
  assumes "remembers E ivl now r h" "golibs_ok G" "gocache_ok E" "gocache_keeps E" "names_apart G N"
    "consequent_identify [rdns_identify G E N, default_identify ivl] a now r = (res, r')"
  shows "\<exists>v. res = Inr v \<and> remembers E ivl now r' ((a, v) # h)"
proof -
  obtain x r1 where x: "rdns_identify G E N a now r = (x, r1)" by (metis surj_pair)
  note set = gocache_okD [OF assms(3)]
  show ?thesis
  proof (cases x)
    case (Inr v)
    then have res: "res = Inr v" "r' = r1" using assms(6) x by simp_all
    show ?thesis
    proof (cases "cget E (cache r) a")
      case (Some y)
      then have y: "y = Some v" "r1 = r"
        using x Inr by (auto simp: rdns_identify_def replyFromCache_def split: option.splits)
      have "remembers E ivl now r ((a, v) # h)"
      proof (rule remembers_given [OF assms(1)])
        fix w assume "cget E (cache r) a = Some (Some w)"
        with Some y remembersD(2) [OF assms(1)] show "ID w \<noteq> default_human_id a \<and> w = v" by simp
      next
        fix w assume "(a, w) \<in> set h" "ID w \<noteq> default_human_id a" "now < Until w"
        then show "cget E (cache r) a = Some (Some w)" by (rule remembersD(1) [OF assms(1)])
      next
        fix w assume "(a, w) \<in> set h" "ID w = ID v"
        with Some y remembersD(3) [OF assms(1)] show "Until w \<le> Until v" by simp
      next
        assume "ID v = default_human_id a"
        with Some y remembersD(2) [OF assms(1), of a v] show "Until v \<le> now + ivl" by simp
      qed (simp_all add: Some y)
      with res y show ?thesis by simp
    next
      case None
      note n = rdns_named [OF assms(2,5) x [unfolded Inr] None]
      have old: "Until w \<le> now" if "(a, w) \<in> set h" "ID w \<noteq> default_human_id a" for w
        using remembersD(1) [OF assms(1) that] None by force
      have "remembers E ivl now r1 ((a, v) # h)"
      proof (rule remembers_given [OF assms(1)])
        fix w assume "(a, w) \<in> set h" "ID w = ID v"
        with old [of w] n(1) [of a] n(2) show "Until w \<le> Until v" by simp
      next
        fix w assume "(a, w) \<in> set h" "ID w \<noteq> default_human_id a" "now < Until w"
        with old [of w] show "cget E (cache r1) a = Some (Some w)" by simp
      next
        fix w assume "cget E (cache r1) a = Some (Some w)"
        with n(1) [of a] n(2) set(2) [of "Until v - now" "cache r" a "Some v"] show "ID w \<noteq> default_human_id a \<and> w = v"
          unfolding n(3) by simp
      qed (use n(1-3) assms(4) set(2) [of "Until v - now" "cache r" a "Some v"] in \<open>auto simp: gocache_keeps_def\<close>)
      with res show ?thesis by simp
    qed
  next
    case (Inl err)
    let ?v = "\<lparr>Until = now + ivl, ID = default_human_id a\<rparr>"
    have res: "res = Inr ?v" "r' = r1" using assms(6) x Inl by (simp_all add: default_identify_def)
    have no: "cget E (cache r) a \<noteq> Some (Some w)" for w by (rule rdns_failed(1) [OF assms(2) x [unfolded Inl]])
    have c: "cache r1 = cache r \<or> cache r1 = cset E (cache r) a None defaultCacheTTL"
      by (rule rdns_failed(2) [OF assms(2) x [unfolded Inl]])
    have no': "cget E (cache r1) a \<noteq> Some (Some w)" for w
      using c no set(1) [of "cache r" a None defaultCacheTTL a "Some w"] by auto
    have "remembers E ivl now r1 ((a, ?v) # h)"
    proof (rule remembers_given [OF assms(1)])
      fix w assume "(a, w) \<in> set h" "ID w \<noteq> default_human_id a" "now < Until w"
      with remembersD(1) [OF assms(1)] no show "cget E (cache r1) a = Some (Some w)" by blast
    next
      fix w assume "(a, w) \<in> set h" "ID w = ID ?v"
      with remembersD(4) [OF assms(1)] show "Until w \<le> Until ?v" by simp
    qed (use c no' assms(4) in \<open>auto simp: gocache_keeps_def\<close>)
    with res show ?thesis by simp
  qed
qed

lemma sections_source:
  "findValidAutodeviceClient a i now d = (res, d') \<Longrightarrow> source d' = source d"
  "identify_commit a now hid d = (r, d') \<Longrightarrow> source d' = source d"
  "source (store_client a i auto d) = source d"
  "source (clean_sac now j d) = source d"
  "source (clean_ids now d) = source d"
  by (auto simp: findValidAutodeviceClient_def identify_commit_def store_client_def clean_sac_def clean_ids_def Let_def
      split: option.splits if_splits)

lemma program_history:
  assumes "creach G U identifiable (program_srcs G E ivl Ns ages) d c" "source d = NewRDNSIDSource c0" "\<forall>a. cget E c0 a = None"
    "golibs_ok G" "gocache_ok E" "gocache_keeps E" "\<forall>N \<in> Ns. names_apart G N" "\<forall>age \<in> ages. age_ok E age"
  shows "remembers E ivl (clk c) (source (db c)) (given c)"
  using assms(1)
proof (induction rule: creach.induct)
  case (start now)
  show ?case by (rule remembersI) (simp_all add: conc_init_def assms(2,3) NewRDNSIDSource_def)
next
  case (step c w c')
  have call: "\<exists>v. res = Inr v \<and> remembers E ivl (clk c) s ((a, v) # given c)"
    if src: "src \<in> program_srcs G E ivl Ns ages" "src a (clk c) (source (db c)) = (res, s)" for src a res s
  proof -
    obtain N age where "N \<in> Ns" "age \<in> ages"
        "src = (\<lambda>a t r. consequent_identify [rdns_identify G E N, default_identify ivl] a t (age t r))"
      using src(1) by (auto simp: program_srcs_def)
    then have *: "age_ok E age" "names_apart G N"
        "consequent_identify [rdns_identify G E N, default_identify ivl] a (clk c) (age (clk c) (source (db c))) = (res, s)"
      using assms(7,8) src(2) by simp_all
    show ?thesis by (rule remembers_identify [OF remembers_age [OF step.IH *(1)] assms(4-6) *(2,3)])
  qed
  from step.hyps(2) show ?case
  proof (cases rule: cstep.cases)
    case (source_err t k i now src err s)
    from call [OF source_err(5,6)] show ?thesis by simp
  next
    case (source_ok t k i now src hid s)
    from call [OF source_ok(5,6)] source_ok show ?thesis by simp
  next
    case (time_passes now)
    with remembers_later [OF step.IH] show ?thesis by simp
  qed (use step.IH in \<open>auto simp: sections_source\<close>)
qed

section \<open>Properties\<close>

text \<open>
  C4: With the source that the program builds, on any networks, in every interleaving of callers,
  collector and clock: the unexpired on-demand clients of different addresses come from different
  identifiers.  What is asked of the surroundings is that the cache is one, that no item expires
  before its name does and that reverse DNS does not answer with the default name of an address.
\<close>

lemma program_ids_differ:
  assumes "creach G U identifiable (program_srcs G E ivl Ns ages) (NewDefaultStorage conf (NewRDNSIDSource c0)) c"
    "\<forall>a. cget E c0 a = None" "golibs_ok G" "gocache_ok E" "gocache_keeps E"
    "\<forall>N \<in> Ns. names_apart G N" "\<forall>age \<in> ages. age_ok E age"
    "i < length (autodevice (db c))" "(a, x) \<in> set (sac_clients (autodevice (db c) ! i))" "clk c < validUntil x"
    "j < length (autodevice (db c))" "(b, y) \<in> set (sac_clients (autodevice (db c) ! j))" "clk c < validUntil y"
    "a \<noteq> b"
  shows "\<exists>v w. (a, v) \<in> set (given c) \<and> made G U (db c) i v x \<and> (b, w) \<in> set (given c) \<and> made G U (db c) j w y \<and>
    ID v \<noteq> ID w"
proof -
  have "source (NewDefaultStorage conf (NewRDNSIDSource c0)) = NewRDNSIDSource c0" by (simp add: NewDefaultStorage_def)
  from remembersD(5) [OF program_history [OF assms(1) this assms(2-7)]]
  show ?thesis by (rule ids_differ [OF assms(1) _ assms(8-14)])
qed

text \<open>
  Two devices whose address has the same PTR record: the first takes its name, the second gets the
  default one.
\<close>

abbreviation demo_src where
  "demo_src \<equiv> \<lambda>a t r. consequent_identify
     [rdns_identify ref_golibs ref_gocache (ref_net ''a.lan.'' 60), default_identify 5] a t (id r)"

abbreviation demo_lookup where
  "demo_lookup a d \<equiv> Get ref_golibs demo_ups (\<lambda>_. True) demo_src (None, None) (None, None) 0 0 a ''example.com'' d"

lemma demo_names_apart: "names_apart ref_golibs (ref_net ''a.lan.'' 60)"
proof -
  have "fqdnToHumanID ref_golibs ''a.lan.'' = Inr ''a-lan''" by code_simp
  then show ?thesis by (auto simp: names_apart_def ref_net_def default_human_id_def Let_def)
qed

lemma program_ids_differ_witness:
  "\<exists>c v w. creach ref_golibs demo_ups (\<lambda>_. True) (program_srcs ref_golibs ref_gocache 5 {ref_net ''a.lan.'' 60} {\<lambda>t. id})
       (NewDefaultStorage demo_auto (NewRDNSIDSource (0, []))) c \<and>
     (A4 1, v) \<in> set (given c) \<and> Until v = 60000000000 \<and> (A4 2, w) \<in> set (given c) \<and> Until w = 5 \<and> ID v \<noteq> ID w"
proof -
  let ?d = "NewDefaultStorage demo_auto (NewRDNSIDSource (0, [])) :: (string, nat \<times> string list, ref_cache rdns) storage"
  let ?srcs = "program_srcs ref_golibs ref_gocache 5 {ref_net ''a.lan.'' 60} {\<lambda>t. id}"
  have "demo_src \<in> ?srcs" by (simp add: program_srcs_def)
  from two_calls [OF this, where t = 0 and u = 1 and a = "A4 1" and b = "A4 2" and G = ref_golibs and U = demo_ups
      and identifiable = "\<lambda>_. True" and now = 0 and domain = "''example.com''" and d = ?d]
  obtain c where c: "creach ref_golibs demo_ups (\<lambda>_. True) ?srcs ?d c" "clk c = 0"
      "db c = snd (snd (demo_lookup (A4 2) (snd (snd (demo_lookup (A4 1) ?d)))))" by auto
  have "map sac_clients (autodevice (db c)) =
      [[(A4 1, \<lparr>upstreams = (4096, [''quic://otr-abcd1234-a-lan.d.adguard-dns.com/dns-query'']), validUntil = 60000000000\<rparr>),
        (A4 2, \<lparr>upstreams = (4096, [''quic://otr-abcd1234-dev-0-0-0-2.d.adguard-dns.com/dns-query'']), validUntil = 5\<rparr>)]]"
    unfolding c(3) by code_simp
  then obtain sac where sac: "autodevice (db c) = [sac]" "sac_clients sac =
      [(A4 1, \<lparr>upstreams = (4096, [''quic://otr-abcd1234-a-lan.d.adguard-dns.com/dns-query'']), validUntil = 60000000000\<rparr>),
        (A4 2, \<lparr>upstreams = (4096, [''quic://otr-abcd1234-dev-0-0-0-2.d.adguard-dns.com/dns-query'']), validUntil = 5\<rparr>)]"
    by auto
  have empty: "\<forall>a. cget ref_gocache (0, []) a = None" by (simp add: ref_gocache_def ref_live_def)
  have "\<forall>N \<in> {ref_net ''a.lan.'' 60}. names_apart ref_golibs N" by (simp add: demo_names_apart)
  moreover have "\<forall>age \<in> {\<lambda>t. id}. age_ok ref_gocache age" by (simp add: age_ok_def)
  ultimately have "\<exists>v w. (A4 1, v) \<in> set (given c) \<and> made ref_golibs demo_ups (db c) 0 v
       \<lparr>upstreams = (4096, [''quic://otr-abcd1234-a-lan.d.adguard-dns.com/dns-query'']), validUntil = 60000000000\<rparr> \<and>
      (A4 2, w) \<in> set (given c) \<and> made ref_golibs demo_ups (db c) 0 w
       \<lparr>upstreams = (4096, [''quic://otr-abcd1234-dev-0-0-0-2.d.adguard-dns.com/dns-query'']), validUntil = 5\<rparr> \<and>
      ID v \<noteq> ID w"
    by (rule program_ids_differ [OF c(1) empty ref_golibs_ok ref_gocache_ok ref_gocache_keeps]) (simp_all add: sac c(2))
  moreover have "Until v = validUntil x" if "made ref_golibs demo_ups (db c) 0 v x" for v x
    using that by (auto simp: made_def newAutodeviceClient_def Let_def split: sum.splits)
  ultimately show ?thesis using c(1) by fastforce
qed

end
