(* ===== verification/RdnsConc.thy ===== *)
theory RdnsConc
  imports RdnsSource
begin

text \<open>
  The reverse DNS source (\<open>internal/client/rdnsidsource.go\<close>) under concurrent calls of \<open>Identify\<close>, any
  number of them for one address too, and the janitor of its cache.  A step is one operation of the
  cache (which has a lock of its own), one section under \<open>r.mu\<close>, or one call of something outside; the
  janitor takes the expired items out of the cache first and calls \<open>OnEvicted\<close> for them one by one
  afterwards.
\<close>

section \<open>State\<close>

text \<open>
  Where a call is: before the look into the cache; before the exchange; with an error to store as a
  failure; with the answers, before it reads the clock; in the loop over the answers; with an
  identifier that it has indexed and not yet stored; back.
\<close>

datatype rcall =
    NoCall
  | Asked addr
  | Sending addr
  | Refused addr goerr
  | Received addr "rr list"
  | Checking addr int nat "goerr option list" "rr list"
  | Keeping addr vhid int
  | Answered addr "goerr + vhid"

record 'c rconc =
  rc_src :: "'c rdns"
  rc_calls :: "nat \<Rightarrow> rcall"
  rc_evicted :: "(addr \<times> vhid option) list"
  rc_now :: int

definition rconc_init :: "'c \<Rightarrow> int \<Rightarrow> 'c rconc" where
  "rconc_init c now = \<lparr>rc_src = NewRDNSIDSource c, rc_calls = (\<lambda>_. NoCall), rc_evicted = [], rc_now = now\<rparr>"

definition turn :: "nat \<Rightarrow> rcall \<Rightarrow> 'c rdns \<Rightarrow> 'c rconc \<Rightarrow> 'c rconc" where
  "turn t p r s = s\<lparr>rc_calls := (rc_calls s)(t := p), rc_src := r\<rparr>"

lemma turn_simps [simp]:
  "rc_src (turn t p r s) = r" "rc_calls (turn t p r s) = (rc_calls s)(t := p)" "rc_evicted (turn t p r s) = rc_evicted s"
  "rc_now (turn t p r s) = rc_now s"
  by (simp_all add: turn_def)

text \<open>Storing a result or a failure.\<close>

definition cache_Set :: "'c gocache \<Rightarrow> addr \<Rightarrow> vhid option \<Rightarrow> int \<Rightarrow> 'c rdns \<Rightarrow> 'c rdns" where
  "cache_Set E addr v ttl r = r\<lparr>cache := cset E (cache r) addr v ttl\<rparr>"

section \<open>Steps\<close>

text \<open>The exchange, with what it leads to.\<close>

definition send_outcome :: "golibs \<Rightarrow> dns_net \<Rightarrow> addr \<Rightarrow> rcall" where
  "send_outcome G N addr =
     (case reversed_addr N addr of
        Inl err \<Rightarrow> Answered addr (Inl (EWrap (Msg ''reversing addr'') err))
      | Inr rAddr \<Rightarrow>
          (case exchange N (dns_fqdn N rAddr) of
             Inl err \<Rightarrow> Answered addr (Inl (EWrap (Msg ''sending ptr dns request'') err))
           | Inr resp \<Rightarrow>
               (case v_equal G ''response code'' (Rcode resp) 0 of
                  Some err \<Rightarrow> Refused addr err
                | None \<Rightarrow> Received addr (Answer resp))))"

text \<open>The steps of one call.\<close>

inductive call_step ::
  "golibs \<Rightarrow> 'c gocache \<Rightarrow> dns_net set \<Rightarrow> nat \<Rightarrow> 'c rconc \<Rightarrow> 'c rconc \<Rightarrow> bool"
  for G E Ns t where
  hit: "rc_calls s t = Asked a \<Longrightarrow> replyFromCache E a (rc_src s) = (Some v, True) \<Longrightarrow>
    call_step G E Ns t s (turn t (Answered a (Inr v)) (rc_src s) s)"
| hit_failure: "rc_calls s t = Asked a \<Longrightarrow> replyFromCache E a (rc_src s) = (None, True) \<Longrightarrow>
    call_step G E Ns t s (turn t (Answered a (Inl (ErrOther ''no valid response was received from dns''))) (rc_src s) s)"
| miss: "rc_calls s t = Asked a \<Longrightarrow> replyFromCache E a (rc_src s) = (x, False) \<Longrightarrow>
    call_step G E Ns t s (turn t (Sending a) (rc_src s) s)"
| send: "rc_calls s t = Sending a \<Longrightarrow> N \<in> Ns \<Longrightarrow>
    call_step G E Ns t s (turn t (send_outcome G N a) (rc_src s) s)"
| refuse: "rc_calls s t = Refused a err \<Longrightarrow>
    call_step G E Ns t s (turn t (Answered a (Inl err)) (cache_Set E a None defaultCacheTTL (rc_src s)) s)"
| time: "rc_calls s t = Received a as \<Longrightarrow>
    call_step G E Ns t s (turn t (Checking a (rc_now s) 0 [] as) (rc_src s) s)"
| other: "rc_calls s t = Checking a now i errs (OtherRR # as) \<Longrightarrow>
    call_step G E Ns t s (turn t (Checking a now (Suc i) errs as) (rc_src s) s)"
| bad: "rc_calls s t = Checking a now i errs (PTR ttl p # as) \<Longrightarrow> humanIDFromPTR G ttl p now (rc_src s) = (Inl err, r) \<Longrightarrow>
    call_step G E Ns t s (turn t (Checking a now (Suc i) (errs @ [Some (EWrap (MsgAt ''answer'' i) err)]) as) r s)"
| claim: "rc_calls s t = Checking a now i errs (PTR ttl p # as) \<Longrightarrow>
    humanIDFromPTR G ttl p now (rc_src s) = (Inr (hid, dur), r) \<Longrightarrow>
    call_step G E Ns t s (turn t (Keeping a \<lparr>Until = now + dur, ID = hid\<rparr> dur) r s)"
| keep: "rc_calls s t = Keeping a v dur \<Longrightarrow>
    call_step G E Ns t s (turn t (Answered a (Inr v)) (cache_Set E a (Some v) dur (rc_src s)) s)"
| fail: "rc_calls s t = Checking a now i errs [] \<Longrightarrow>
    err = (case errors_join errs of None \<Rightarrow> ErrNoValue | Some err \<Rightarrow> err) \<Longrightarrow>
    call_step G E Ns t s (turn t (Answered a (Inl (EWrap (Msg ''ptr responses'') err)))
      (cache_Set E a None defaultCacheTTL (rc_src s)) s)"

text \<open>
  The identifiers that are in use for an address: stored, indexed by a call that will store it, or just
  answered.
\<close>

fun gives :: "rcall \<Rightarrow> (addr \<times> vhid) option" where
  "gives (Keeping a v dur) = Some (a, v)"
| "gives (Answered a (Inr v)) = Some (a, v)"
| "gives p = None"

definition holders :: "'c gocache \<Rightarrow> 'c rconc \<Rightarrow> (addr \<times> vhid) set" where
  "holders E s = {(a, v). cget E (cache (rc_src s)) a = Some (Some v) \<or> (\<exists>t. gives (rc_calls s t) = Some (a, v))}"

text \<open>
  All steps: those of the calls, their beginning and end, the clocks of the program and of the cache, and
  the janitor.  With \<open>safe\<close> the callback only gets identifiers that are not in use.
\<close>

inductive rstep ::
  "golibs \<Rightarrow> 'c gocache \<Rightarrow> dns_net set \<Rightarrow> bool \<Rightarrow> 'c rconc \<Rightarrow> 'c rconc \<Rightarrow> bool"
  for G E Ns safe where
  call: "rc_calls s t = NoCall \<Longrightarrow> rstep G E Ns safe s (turn t (Asked a) (rc_src s) s)"
| work: "call_step G E Ns t s s' \<Longrightarrow> rstep G E Ns safe s s'"
| return: "rc_calls s t = Answered a res \<Longrightarrow> rstep G E Ns safe s (turn t NoCall (rc_src s) s)"
| clock: "rc_now s \<le> now \<Longrightarrow> rstep G E Ns safe s (s\<lparr>rc_now := now\<rparr>)"
| expire: "\<forall>k x. cget E c k = Some x \<longrightarrow> cget E (cache (rc_src s)) k = Some x \<Longrightarrow>
    rstep G E Ns safe s (s\<lparr>rc_src := (rc_src s)\<lparr>cache := c\<rparr>\<rparr>)"
| evict: "rc_evicted s = [] \<Longrightarrow> cevict E (cache (rc_src s)) = (items, c) \<Longrightarrow>
    rstep G E Ns safe s (s\<lparr>rc_src := (rc_src s)\<lparr>cache := c\<rparr>, rc_evicted := items\<rparr>)"
| callback: "rc_evicted s = (k, x) # items \<Longrightarrow>
    safe \<longrightarrow> (\<forall>v a w. x = Some v \<longrightarrow> (a, w) \<in> holders E s \<longrightarrow> ID w = ID v \<longrightarrow> Until w \<le> rc_now s) \<Longrightarrow>
    rstep G E Ns safe s (s\<lparr>rc_src := on_evicted (k, x) (rc_src s), rc_evicted := items\<rparr>)"

inductive rreach ::
  "golibs \<Rightarrow> 'c gocache \<Rightarrow> dns_net set \<Rightarrow> bool \<Rightarrow> 'c rconc \<Rightarrow> bool"
  for G E Ns safe where
  start: "\<forall>a. cget E c a = None \<Longrightarrow> rreach G E Ns safe (rconc_init c now)"
| step: "rreach G E Ns safe s \<Longrightarrow> rstep G E Ns safe s s' \<Longrightarrow> rreach G E Ns safe s'"

section \<open>No two addresses with one identifier\<close>

definition apart :: "'c gocache \<Rightarrow> 'c rconc \<Rightarrow> bool" where
  "apart E s = (
     (\<forall>(a, v) \<in> holders E s. rc_now s < Until v \<longrightarrow> (\<exists>u. existingIDs (rc_src s) (ID v) = Some u \<and> Until v \<le> u)) \<and>
     (\<forall>(a, v) \<in> holders E s. \<forall>(b, w) \<in> holders E s.
        ID v = ID w \<longrightarrow> rc_now s < Until v \<longrightarrow> rc_now s < Until w \<longrightarrow> a = b) \<and>
     (\<forall>t a now i errs as. rc_calls s t = Checking a now i errs as \<longrightarrow> now \<le> rc_now s))"

lemma apartD:
  assumes "apart E s"
  shows "(a, v) \<in> holders E s \<Longrightarrow> rc_now s < Until v \<Longrightarrow> \<exists>u. existingIDs (rc_src s) (ID v) = Some u \<and> Until v \<le> u"
    "(a, v) \<in> holders E s \<Longrightarrow> (b, w) \<in> holders E s \<Longrightarrow> ID v = ID w \<Longrightarrow> rc_now s < Until v \<Longrightarrow> rc_now s < Until w \<Longrightarrow> a = b"
    "rc_calls s t = Checking a now i errs as \<Longrightarrow> now \<le> rc_now s"
  using assms unfolding apart_def by blast+

text \<open>A step that gives no identifier and leaves the index.\<close>

lemma apart_frame:
  assumes "apart E s" "holders E s' \<subseteq> holders E s" "existingIDs (rc_src s') = existingIDs (rc_src s)" "rc_now s \<le> rc_now s'"
    "\<And>t a now i errs as. rc_calls s' t = Checking a now i errs as \<Longrightarrow> now \<le> rc_now s'"
  shows "apart E s'"
  unfolding apart_def
proof (intro conjI ballI, safe)
  fix a v assume "(a, v) \<in> holders E s'" "rc_now s' < Until v"
  with assms(2,4) apartD(1) [OF assms(1), of a v] assms(3)
  show "\<exists>u. existingIDs (rc_src s') (ID v) = Some u \<and> Until v \<le> u" by fastforce
next
  fix a v b w assume *: "(a, v) \<in> holders E s'" "(b, w) \<in> holders E s'" "ID v = ID w" "rc_now s' < Until v" "rc_now s' < Until w"
  show "a = b" by (rule apartD(2) [OF assms(1), of a v b w]) (use * assms(2,4) in auto)
qed (use assms(5) in blast)

lemma gives_send [simp]: "gives (send_outcome G N a) = None"
  by (simp add: send_outcome_def split: sum.splits option.splits)

lemma send_checking: "send_outcome G N a \<noteq> Checking b now i errs as"
  by (simp add: send_outcome_def split: sum.splits option.splits)

lemma holders_turn:
  assumes "\<And>b w. cget E (cache r) b = Some (Some w) \<Longrightarrow> (b, w) \<in> holders E s"
    "\<And>b w. gives p = Some (b, w) \<Longrightarrow> (b, w) \<in> holders E s"
  shows "holders E (turn t p r s) \<subseteq> holders E s"
  using assms by (auto simp: holders_def split: if_splits)

lemma holders_cached: "cget E (cache (rc_src s)) a = Some (Some v) \<Longrightarrow> (a, v) \<in> holders E s"
  by (simp add: holders_def)

lemma holders_given: "gives (rc_calls s t) = Some (a, v) \<Longrightarrow> (a, v) \<in> holders E s"
  by (auto simp: holders_def)

lemma apart_turn:
  assumes "apart E s" "\<And>b w. cget E (cache r) b = Some (Some w) \<Longrightarrow> (b, w) \<in> holders E s"
    "\<And>b w. gives p = Some (b, w) \<Longrightarrow> (b, w) \<in> holders E s" "existingIDs r = existingIDs (rc_src s)"
    "\<And>a now i errs as. p = Checking a now i errs as \<Longrightarrow> now \<le> rc_now s"
  shows "apart E (turn t p r s)"
  by (rule apart_frame [OF assms(1) holders_turn [OF assms(2,3)]])
    (use assms(4,5) apartD(3) [OF assms(1)] in \<open>auto split: if_splits\<close>)

lemma cache_Set_cached:
  assumes "gocache_ok E" "cget E (cache (cache_Set E a x d r)) b = Some (Some w)"
  shows "cget E (cache r) b = Some (Some w) \<or> b = a \<and> x = Some w"
  using gocache_okD(1) [OF assms(1), of "cache r" a x d b "Some w"] assms(2)
  by (auto simp: cache_Set_def split: if_splits)

text \<open>The section of \<open>checkDuplicates\<close> that indexes an identifier: no other address has it.\<close>

lemma apart_claim:
  assumes "apart E s" "rc_calls s t = Checking a now i errs as" "\<not> live now (ID v) (rc_src s)"
  shows "apart E (turn t (Keeping a v dur) ((rc_src s)\<lparr>existingIDs := (existingIDs (rc_src s))(ID v \<mapsto> Until v)\<rparr>) s)"
    (is "apart E ?s")
proof -
  have now: "now \<le> rc_now s" by (rule apartD(3) [OF assms(1,2)])
  have new: "p = (a, v) \<or> p \<in> holders E s" if "p \<in> holders E ?s" for p
    using that by (auto simp: holders_def split: if_splits)
  have other: "ID w \<noteq> ID v" if "(b, w) \<in> holders E s" "rc_now s < Until w" for b w
  proof
    assume "ID w = ID v"
    with apartD(1) [OF assms(1) that] obtain u where "existingIDs (rc_src s) (ID v) = Some u" "Until w \<le> u" by auto
    with now that(2) assms(3) show False by (simp add: live_def)
  qed
  show ?thesis
    unfolding apart_def
  proof (intro conjI ballI, safe)
    fix b w assume *: "(b, w) \<in> holders E ?s" "rc_now ?s < Until w"
    then show "\<exists>u. existingIDs (rc_src ?s) (ID w) = Some u \<and> Until w \<le> u"
      using new [OF *(1)] other [of b w] apartD(1) [OF assms(1), of b w] by auto
  next
    fix b w c x
    assume *: "(b, w) \<in> holders E ?s" "(c, x) \<in> holders E ?s" "ID w = ID x" "rc_now ?s < Until w" "rc_now ?s < Until x"
    then show "b = c"
      using new [OF *(1)] new [OF *(2)] other [of b w] other [of c x] apartD(2) [OF assms(1), of b w c x] by auto
  next
    fix u b m j es xs assume "rc_calls ?s u = Checking b m j es xs"
    then show "m \<le> rc_now ?s" using apartD(3) [OF assms(1), of u b m j es xs] by (auto split: if_splits)
  qed
qed

lemma apart_call:
  assumes "call_step G E Ns t s s'" "apart E s" "golibs_ok G" "gocache_ok E"
  shows "apart E s'"
  using assms(1)
proof (cases rule: call_step.cases)
  case (hit a v)
  then have "cget E (cache (rc_src s)) a = Some (Some v)" by (auto simp: replyFromCache_def split: option.splits)
  with hit show ?thesis by (auto intro!: apart_turn [OF assms(2)] intro: holders_cached)
next
  case (refuse a err)
  then show ?thesis
    by (auto intro!: apart_turn [OF assms(2)] dest!: cache_Set_cached [OF assms(4)] intro: holders_cached) (simp add: cache_Set_def)
next
  case (fail a now i errs err)
  then show ?thesis
    by (auto intro!: apart_turn [OF assms(2)] dest!: cache_Set_cached [OF assms(4)] intro: holders_cached) (simp add: cache_Set_def)
next
  case (keep a v dur)
  then have "gives (rc_calls s t) = Some (a, v)" by simp
  then have "(a, v) \<in> holders E s" by (rule holders_given)
  with keep show ?thesis
    by (auto intro!: apart_turn [OF assms(2)] dest!: cache_Set_cached [OF assms(4)] intro: holders_cached) (simp add: cache_Set_def)
next
  case (bad a now i errs ttl p as err r)
  then have "r = rc_src s"
    using humanIDFromPTR_cases [OF assms(3), where now = now and r = "rc_src s" and t = ttl and p = p]
    by (auto split: option.splits)
  with bad apartD(3) [OF assms(2) bad(2)] show ?thesis by (auto intro!: apart_turn [OF assms(2)] intro: holders_cached)
next
  case (claim a now i errs ttl p as hid dur r)
  let ?v = "\<lparr>Until = now + dur, ID = hid\<rparr>"
  have "\<not> live now hid (rc_src s) \<and> r = (rc_src s)\<lparr>existingIDs := (existingIDs (rc_src s))(hid \<mapsto> now + dur)\<rparr>"
    using claim(3) humanIDFromPTR_cases [OF assms(3), where now = now and r = "rc_src s" and t = ttl and p = p]
    by (auto split: option.splits)
  then show ?thesis using apart_claim [OF assms(2) claim(2), of ?v dur] claim(1) by simp
next
  case (other a now i errs as)
  with apartD(3) [OF assms(2) other(2)] show ?thesis by (auto intro!: apart_turn [OF assms(2)] intro: holders_cached)
qed (auto intro!: apart_turn [OF assms(2)] intro: holders_cached simp: send_checking)

lemma on_evicted_simps [simp]:
  "cache (on_evicted (k, x) r) = cache r"
  "existingIDs (on_evicted (k, x) r) = (case x of None \<Rightarrow> existingIDs r | Some v \<Rightarrow> (existingIDs r)(ID v := None))"
  by (simp_all add: on_evicted_def split: option.splits)

lemma apart_callback:
  assumes "apart E s"
    "\<forall>v a w. x = Some v \<longrightarrow> (a, w) \<in> holders E s \<longrightarrow> ID w = ID v \<longrightarrow> Until w \<le> rc_now s"
  shows "apart E (s\<lparr>rc_src := on_evicted (k, x) (rc_src s), rc_evicted := items\<rparr>)" (is "apart E ?s")
proof -
  have h: "holders E ?s = holders E s" by (simp add: holders_def)
  show ?thesis
    unfolding apart_def h
  proof (intro conjI ballI, safe)
    fix a v assume *: "(a, v) \<in> holders E s" "rc_now ?s < Until v"
    then have "x = Some w \<Longrightarrow> ID v \<noteq> ID w" for w using assms(2) by fastforce
    then show "\<exists>u. existingIDs (rc_src ?s) (ID v) = Some u \<and> Until v \<le> u"
      using apartD(1) [OF assms(1) *(1)] *(2) by (auto split: option.splits)
  next
    fix a v b w
    assume "(a, v) \<in> holders E s" "(b, w) \<in> holders E s" "ID v = ID w" "rc_now ?s < Until v" "rc_now ?s < Until w"
    then show "a = b" using apartD(2) [OF assms(1), of a v b w] by simp
  next
    fix t a now i errs as assume "rc_calls ?s t = Checking a now i errs as"
    then show "now \<le> rc_now ?s" using apartD(3) [OF assms(1)] by simp
  qed
qed

lemma apart_step:
  assumes "rstep G E Ns True s s'" "apart E s" "golibs_ok G" "gocache_ok E"
  shows "apart E s'"
  using assms(1)
proof (cases rule: rstep.cases)
  case (work t)
  then show ?thesis by (intro apart_call [OF _ assms(2-4)])
next
  case (clock now)
  then show ?thesis
    using order_trans [OF apartD(3) [OF assms(2)] clock(2)]
    by (intro apart_frame [OF assms(2)]) (auto simp: holders_def)
next
  case (expire c)
  then show ?thesis
    using apartD(3) [OF assms(2)] by (intro apart_frame [OF assms(2)]) (auto simp: holders_def)
next
  case (evict items c)
  have "cget E c a = Some x \<Longrightarrow> cget E (cache (rc_src s)) a = Some x" for a x
    using gocache_okD(3) [OF assms(4), of "cache (rc_src s)" a x] evict(3) by simp
  with evict show ?thesis
    using apartD(3) [OF assms(2)] by (intro apart_frame [OF assms(2)]) (auto simp: holders_def)
next
  case (callback k x items)
  with apart_callback [OF assms(2)] show ?thesis by simp
qed (auto intro!: apart_turn [OF assms(2)] intro: holders_cached)

lemma rreach_apart:
  assumes "rreach G E Ns True s" "golibs_ok G" "gocache_ok E"
  shows "apart E s"
  using assms
proof (induction rule: rreach.induct)
  case (start c now)
  then show ?case by (simp add: apart_def holders_def rconc_init_def NewRDNSIDSource_def)
qed (auto intro: apart_step)

section \<open>A call alone\<close>

text \<open>The steps of a call that nothing interrupts make up the sequential model of \<open>Identify\<close>.\<close>

abbreviation call_run where
  "call_run G E Ns t \<equiv> (call_step G E Ns t)\<^sup>*\<^sup>*"

definition response_end :: "'c gocache \<Rightarrow> addr \<Rightarrow> (goerr option list + vhid) \<times> 'c rdns \<Rightarrow> (goerr + vhid) \<times> 'c rdns" where
  "response_end E a x = (case x of
      (Inr v, r) \<Rightarrow> (Inr v, r)
    | (Inl errs, r) \<Rightarrow>
        (Inl (EWrap (Msg ''ptr responses'') (case errors_join errs of None \<Rightarrow> ErrNoValue | Some err \<Rightarrow> err)),
         cache_Set E a None defaultCacheTTL r))"

lemma humanIDFromResponse_end:
  "humanIDFromResponse G E resp a now r = response_end E a (answers_loop G E a now 0 [] (Answer resp) r)"
  by (simp add: humanIDFromResponse_def response_end_def cache_Set_def Let_def split: prod.split sum.split)

lemma turn_turn [simp]: "turn t p r (turn t q r' s) = turn t p r s"
  by (simp add: turn_def)

lemma turn_same: "rc_calls s t = p \<Longrightarrow> turn t p (rc_src s) s = s"
  by (auto simp: turn_def)

lemma loop_run:
  "call_run G E Ns t (turn t (Checking a now i errs as) r s)
     (case response_end E a (answers_loop G E a now i errs as r) of (res, r') \<Rightarrow> turn t (Answered a res) r' s)"
proof (induction as arbitrary: i errs r)
  case Nil
  show ?case
    using call_step.fail [of "turn t (Checking a now i errs []) r s" t a now i errs, OF _ refl]
    by (intro r_into_rtranclp) (simp add: response_end_def)
next
  case (Cons x as)
  show ?case
  proof (cases x)
    case OtherRR
    show ?thesis
      unfolding OtherRR answers_loop.simps
      by (rule converse_rtranclp_into_rtranclp [OF _ Cons.IH]) (use call_step.other [of "turn t (Checking a now i errs (OtherRR # as)) r s" t] in simp)
  next
    case (PTR ttl p)
    show ?thesis
    proof (cases "humanIDFromPTR G ttl p now r")
      case (Pair y r')
      let ?s = "turn t (Checking a now i errs (PTR ttl p # as)) r s"
      show ?thesis
      proof (cases y)
        case (Inl err)
        have "call_step G E Ns t ?s (turn t (Checking a now (Suc i) (errs @ [Some (EWrap (MsgAt ''answer'' i) err)]) as) r' s)"
          using call_step.bad [of ?s t a now i errs ttl p as G err r'] Pair Inl by simp
        from converse_rtranclp_into_rtranclp [OF this Cons.IH] Pair Inl PTR show ?thesis by simp
      next
        case (Inr z)
        obtain hid dur where z: "z = (hid, dur)" by (cases z)
        let ?v = "\<lparr>Until = now + dur, ID = hid\<rparr>"
        have 1: "call_step G E Ns t ?s (turn t (Keeping a ?v dur) r' s)"
          using call_step.claim [of ?s t a now i errs ttl p as G hid dur r'] Pair Inr z by simp
        have 2: "call_step G E Ns t (turn t (Keeping a ?v dur) r' s) (turn t (Answered a (Inr ?v)) (cache_Set E a (Some ?v) dur r') s)"
          using call_step.keep [of "turn t (Keeping a ?v dur) r' s" t a ?v dur] by simp
        have "answers_loop G E a now i errs (x # as) r = (Inr ?v, cache_Set E a (Some ?v) dur r')"
          using Pair Inr z PTR by (simp add: cache_Set_def Let_def)
        then show ?thesis using 1 2 PTR by (simp add: response_end_def)
      qed
    qed
  qed
qed

lemma sent_run:
  "call_run G E Ns t (turn t (send_outcome G N a) r s)
     (case sendDNSRequest G E N a r of
        (Inl err, r') \<Rightarrow> turn t (Answered a (Inl err)) r' s
      | (Inr resp, r') \<Rightarrow> (case humanIDFromResponse G E resp a (rc_now s) r' of (res, r') \<Rightarrow> turn t (Answered a res) r' s))"
proof (cases "reversed_addr N a")
  case rev: (Inr rAddr)
  show ?thesis
  proof (cases "exchange N (dns_fqdn N rAddr)")
    case ex: (Inr resp)
    show ?thesis
    proof (cases "v_equal G ''response code'' (Rcode resp) 0")
      case None
      let ?s = "turn t (Received a (Answer resp)) r s"
      have "call_step G E Ns t ?s (turn t (Checking a (rc_now s) 0 [] (Answer resp)) r s)"
        using call_step.time [of ?s t a "Answer resp"] by simp
      from converse_rtranclp_into_rtranclp [OF this loop_run] rev ex None show ?thesis
        by (simp add: send_outcome_def sendDNSRequest_def humanIDFromResponse_end)
    next
      case (Some err)
      with rev ex call_step.refuse [of "turn t (Refused a err) r s" t a err] show ?thesis
        by (intro r_into_rtranclp) (simp add: send_outcome_def sendDNSRequest_def cache_Set_def)
    qed
  qed (use rev in \<open>simp add: send_outcome_def sendDNSRequest_def\<close>)
qed (simp add: send_outcome_def sendDNSRequest_def)

lemma identify_run:
  assumes "rc_calls s t = Asked a" "N \<in> Ns"
  shows "call_run G E Ns t s
    (case rdns_identify G E N a (rc_now s) (rc_src s) of (res, r') \<Rightarrow> turn t (Answered a res) r' s)"
proof -
  let ?r = "rc_src s"
  obtain x found where c: "replyFromCache E a ?r = (x, found)" by (cases "replyFromCache E a ?r")
  show ?thesis
  proof (cases found)
    case True
    with c call_step.hit [of s t a E] call_step.hit_failure [of s t a E] assms(1) show ?thesis
      by (intro r_into_rtranclp) (auto simp: rdns_identify_def split: option.splits)
  next
    case False
    have 1: "call_step G E Ns t s (turn t (Sending a) ?r s)" using call_step.miss [OF assms(1)] c False by simp
    have 2: "call_step G E Ns t (turn t (Sending a) ?r s) (turn t (send_outcome G N a) ?r s)"
      using call_step.send [of "turn t (Sending a) ?r s" t a N Ns] assms(2) by simp
    have "(case rdns_identify G E N a (rc_now s) ?r of (res, r') \<Rightarrow> turn t (Answered a res) r' s) =
        (case sendDNSRequest G E N a ?r of
          (Inl err, r') \<Rightarrow> turn t (Answered a (Inl err)) r' s
        | (Inr resp, r') \<Rightarrow> (case humanIDFromResponse G E resp a (rc_now s) r' of (res, r') \<Rightarrow> turn t (Answered a res) r' s))"
      using c False by (auto simp: rdns_identify_def split: prod.split sum.split option.split)
    with sent_run [of G E Ns t N a ?r s] have "call_run G E Ns t (turn t (send_outcome G N a) ?r s)
        (case rdns_identify G E N a (rc_now s) ?r of (res, r') \<Rightarrow> turn t (Answered a res) r' s)" by simp
    from converse_rtranclp_into_rtranclp [where r = "call_step G E Ns t", OF 2 this]
    show ?thesis by (rule converse_rtranclp_into_rtranclp [where r = "call_step G E Ns t", OF 1])
  qed
qed

section \<open>Properties\<close>

text \<open>
  C17: In every interleaving of calls of \<open>Identify\<close>, even of several for one address, with the janitor of
  the cache: as long as the janitor's callback gets no identifier that is in use, no two addresses have
  the same unexpired identifier, be it stored, indexed by a call that has not stored it yet, or answered
  to a caller.
\<close>

lemma Identify_apart:
  assumes "rreach G E Ns True s" "golibs_ok G" "gocache_ok E"
    "(a, v) \<in> holders E s" "(b, w) \<in> holders E s" "a \<noteq> b" "rc_now s < Until v" "rc_now s < Until w"
  shows "ID v \<noteq> ID w"
  using apartD(2) [OF rreach_apart [OF assms(1-3)] assms(4,5)] assms(6-8) by blast

text \<open>Two devices with the same name: the second one's first name is taken by a call that runs.\<close>

definition demo_net :: dns_net where
  "demo_net = \<lparr>reversed_addr = (\<lambda>_. Inr ''in-addr.arpa''), dns_fqdn = (\<lambda>s. s @ [dot]),
     exchange = (\<lambda>_. Inr \<lparr>Rcode = 0, Answer = [PTR 60 ''pc.lan.'', PTR 60 ''tv.lan.'']\<rparr>)\<rparr>"

lemma demo_net_outcome: "send_outcome ref_golibs demo_net a = Received a [PTR 60 ''pc.lan.'', PTR 60 ''tv.lan.'']"
proof -
  have "v_equal ref_golibs ''response code'' (0 :: int) 0 = None" by code_simp
  then show ?thesis by (simp add: send_outcome_def demo_net_def)
qed

text \<open>A call up to the loop over the answers.\<close>

lemma demo_asked:
  assumes "rreach ref_golibs ref_gocache {demo_net} True s" "rc_calls s t = NoCall"
    "cget ref_gocache (cache (rc_src s)) a = None"
  shows "rreach ref_golibs ref_gocache {demo_net} True
    (turn t (Checking a (rc_now s) 0 [] [PTR 60 ''pc.lan.'', PTR 60 ''tv.lan.'']) (rc_src s) s)"
proof -
  let ?as = "[PTR 60 ''pc.lan.'', PTR 60 ''tv.lan.'']" and ?r = "rc_src s"
  note work = rreach.step [where G = ref_golibs and E = ref_gocache and Ns = "{demo_net}" and safe = True, OF _ rstep.work]
  have "rreach ref_golibs ref_gocache {demo_net} True (turn t (Asked a) ?r s)"
    by (rule rreach.step [OF assms(1) rstep.call [OF assms(2)]])
  from work [OF this call_step.miss [of _ t a _ None]]
  have "rreach ref_golibs ref_gocache {demo_net} True (turn t (Sending a) ?r s)"
    using assms(3) by (simp add: replyFromCache_def)
  from work [OF this call_step.send [of _ t a demo_net]]
  have "rreach ref_golibs ref_gocache {demo_net} True (turn t (Received a ?as) ?r s)" by (simp add: demo_net_outcome)
  from work [OF this call_step.time [of _ t a ?as]] show ?thesis by simp
qed

lemma demo_claims:
  "\<exists>s. rreach ref_golibs ref_gocache {demo_net} True s \<and> rc_now s = 0 \<and>
     rc_calls s 0 = Keeping (A4 1) \<lparr>Until = 60000000000, ID = ''pc-lan''\<rparr> 60000000000 \<and>
     rc_calls s 1 = Keeping (A4 2) \<lparr>Until = 60000000000, ID = ''tv-lan''\<rparr> 60000000000"
proof -
  let ?as = "[PTR 60 ''pc.lan.'', PTR 60 ''tv.lan.'']"
  let ?R = "rreach ref_golibs ref_gocache {demo_net} True"
  let ?s0 = "rconc_init (0, []) 0" and ?r0 = "NewRDNSIDSource (0, []) :: ref_cache rdns"
  note work = rreach.step [where G = ref_golibs and E = ref_gocache and Ns = "{demo_net}" and safe = True, OF _ rstep.work]
  have empty: "cget ref_gocache (0, []) a = None" for a by (simp add: ref_gocache_def ref_live_def)
  have r0: "?R ?s0" by (rule rreach.start) (simp add: empty)
  let ?s1 = "turn 0 (Checking (A4 1) 0 0 [] ?as) ?r0 ?s0"
  have r1: "?R ?s1"
    using demo_asked [OF r0, of 0 "A4 1"] by (simp add: rconc_init_def NewRDNSIDSource_def empty)
  let ?s2 = "turn 1 (Checking (A4 2) 0 0 [] ?as) ?r0 ?s1"
  have r2: "?R ?s2"
    using demo_asked [OF r1, of 1 "A4 2"] by (simp add: rconc_init_def NewRDNSIDSource_def empty)
  obtain r' where c1: "humanIDFromPTR ref_golibs 60 ''pc.lan.'' 0 ?r0 = (Inr (''pc-lan'', 60000000000), r')"
      "r' = snd (humanIDFromPTR ref_golibs 60 ''pc.lan.'' 0 ?r0)"
  proof (rule that [OF prod_eqI])
    show "fst (humanIDFromPTR ref_golibs 60 ''pc.lan.'' 0 ?r0) = fst (Inr (''pc-lan'', 60000000000),
        snd (humanIDFromPTR ref_golibs 60 ''pc.lan.'' 0 ?r0))" by code_simp
  qed simp_all
  have "isl (fst (humanIDFromPTR ref_golibs 60 ''pc.lan.'' 0 r'))" unfolding c1(2) by code_simp
  then obtain err r'' where c2: "humanIDFromPTR ref_golibs 60 ''pc.lan.'' 0 r' = (Inl err, r'')"
    by (metis isl_def prod.collapse)
  then have c2': "r'' = r'"
    using humanIDFromPTR_cases [OF ref_golibs_ok, where now = 0 and r = r' and t = 60 and p = "''pc.lan.''"]
    by (auto split: option.splits)
  have "fst (humanIDFromPTR ref_golibs 60 ''tv.lan.'' 0 r') = Inr (''tv-lan'', 60000000000)" unfolding c1(2) by code_simp
  then obtain r3 where c3: "humanIDFromPTR ref_golibs 60 ''tv.lan.'' 0 r' = (Inr (''tv-lan'', 60000000000), r3)"
    by (metis prod.collapse)
  let ?v = "\<lparr>Until = 0 + 60000000000, ID = ''pc-lan''\<rparr>" and ?w = "\<lparr>Until = 0 + 60000000000, ID = ''tv-lan''\<rparr>"
  let ?s3 = "turn 0 (Keeping (A4 1) ?v 60000000000) r' ?s2"
  have r3: "?R ?s3"
    by (rule work [OF r2 call_step.claim]) (use c1(1) in simp_all)
  let ?e = "[Some (EWrap (MsgAt ''answer'' 0) err)]"
  let ?s4 = "turn 1 (Checking (A4 2) 0 (Suc 0) ([] @ ?e) [PTR 60 ''tv.lan.'']) r'' ?s3"
  have r4: "?R ?s4"
    by (rule work [OF r3 call_step.bad [where ttl = 60 and p = "''pc.lan.''"]]) (use c2 in simp_all)
  let ?s5 = "turn 1 (Keeping (A4 2) ?w 60000000000) r3 ?s4"
  have "?R ?s5"
    by (rule work [OF r4 call_step.claim [where ttl = 60 and p = "''tv.lan.''"]]) (use c3 c2' in simp_all)
  then show ?thesis by (intro exI [of _ ?s5]) (simp add: rconc_init_def)
qed

lemma Identify_apart_witness:
  "\<exists>s v w. rreach ref_golibs ref_gocache {demo_net} True s \<and> (A4 1, v) \<in> holders ref_gocache s \<and>
     (A4 2, w) \<in> holders ref_gocache s \<and> ID v = ''pc-lan'' \<and> ID v \<noteq> ID w"
proof -
  obtain s where s: "rreach ref_golibs ref_gocache {demo_net} True s" "rc_now s = 0"
      "rc_calls s 0 = Keeping (A4 1) \<lparr>Until = 60000000000, ID = ''pc-lan''\<rparr> 60000000000"
      "rc_calls s 1 = Keeping (A4 2) \<lparr>Until = 60000000000, ID = ''tv-lan''\<rparr> 60000000000"
    using demo_claims by blast
  have v: "(A4 1, \<lparr>Until = 60000000000, ID = ''pc-lan''\<rparr>) \<in> holders ref_gocache s" 
    by (rule holders_given [where t = 0]) (simp only: s(3) gives.simps)
  have w: "(A4 2, \<lparr>Until = 60000000000, ID = ''tv-lan''\<rparr>) \<in> holders ref_gocache s" 
    by (rule holders_given [where t = 1]) (simp only: s(4) gives.simps)
  from Identify_apart [OF s(1) ref_golibs_ok ref_gocache_ok v w] s(1,2) v w show ?thesis by fastforce
qed

end
