(* ===== verification/DnsSvc.thy ===== *)
theory DnsSvc
  imports StorageProps
begin

text \<open>
  \<open>internal/dnssvc\<close>: the DNS service, which turns its configuration into that of the proxy and, as
  the proxy's handler, looks the client of every question up in the storage.  \<open>dnsproxy\<close> is a
  parameter (\<open>proxy_env\<close>); the part of its configuration and of its request context that the
  service sets are records.  The storage is a member of the interface \<open>client_storage\<close>.
\<close>

section \<open>Configuration\<close>

type_synonym addr_port = "addr \<times> nat"

record fallback_conf =
  fb_Addresses :: "string list"
  fb_Timeout :: int

record bind_retry =
  br_Enabled :: bool
  br_Interval :: int
  br_Count :: nat

record cache_conf =
  cch_Enabled :: bool
  cch_Size :: int

record pending_conf =
  pr_Enabled :: bool

record ('uc, 'boot) svc_conf =
  sv_PrivateSubnets :: "addr \<Rightarrow> bool"
  sv_Bootstrap :: 'boot
  sv_GeneralUpstreams :: 'uc
  sv_PrivateRDNSUpstreams :: "'uc option"
  sv_Cache :: cache_conf
  sv_Fallbacks :: fallback_conf
  sv_BindRetry :: bind_retry
  sv_PendingRequests :: pending_conf
  sv_ListenAddrs :: "addr_port list"

record 'uc proxy_conf =
  px_UDPListenAddr :: "addr_port list"
  px_TCPListenAddr :: "addr_port list"
  px_UpstreamConfig :: 'uc
  px_PrivateRDNSUpstreamConfig :: "'uc option"
  px_PrivateSubnets :: "addr \<Rightarrow> bool"
  px_UsePrivateRDNS :: bool
  px_Fallbacks :: 'uc
  px_TrustedProxies :: "prefix list"
  px_CacheSizeBytes :: int
  px_CacheEnabled :: bool
  px_BindRetry :: bind_retry
  px_PendingRequests :: pending_conf

text \<open>The context of a request: what the service reads and sets.\<close>

record 'cc dns_ctx =
  Addr :: addr_port
  IsPrivateClient :: bool
  RequestedPrivateRDNS :: prefix
  Question :: "string list"
  CustomUpstreamConfig :: "'cc option"

record ('uc, 'boot, 'cc, 'prx) proxy_env =
  ParseUpstreamsConfig :: "string list \<Rightarrow> int \<Rightarrow> 'boot \<Rightarrow> goerr + 'uc"
  proxy_New :: "'uc proxy_conf \<Rightarrow> goerr + 'prx"
  proxy_Start :: "'prx \<Rightarrow> goerr option"
  proxy_Shutdown :: "'prx \<Rightarrow> goerr option"
  Resolve :: "'cc dns_ctx \<Rightarrow> goerr option"

definition newFallbacks ::
  "('uc, 'boot, 'cc, 'prx) proxy_env \<Rightarrow> fallback_conf \<Rightarrow> 'boot \<Rightarrow> goerr + 'uc" where
  "newFallbacks X conf boot =
     (case ParseUpstreamsConfig X (fb_Addresses conf) (fb_Timeout conf) boot of
        Inl err \<Rightarrow> Inl (EWrap (Msg ''creating fallbacks'') err)
      | Inr fallbacks \<Rightarrow> Inr fallbacks)"

definition newListenAddrs :: "addr_port list \<Rightarrow> addr_port list \<times> addr_port list" where
  "newListenAddrs addrs = fold (\<lambda>a (udp, tcp). (udp @ [a], tcp @ [a])) addrs ([], [])"

definition newProxyConfig ::
  "golibs \<Rightarrow> ('uc, 'boot, 'cc, 'prx) proxy_env \<Rightarrow> ('uc, 'boot) svc_conf \<Rightarrow> 'boot \<Rightarrow> goerr + 'uc proxy_conf" where
  "newProxyConfig G X conf boot =
     (case newFallbacks X (sv_Fallbacks conf) boot of
        Inl err \<Rightarrow> Inl (annotated G (Msg ''creating proxy configuration'') err)
      | Inr falls \<Rightarrow>
          let (udp, tcp) = newListenAddrs (sv_ListenAddrs conf);
              trusted = [P4 0 0, P6 0 0]
          in Inr \<lparr>px_UDPListenAddr = udp, px_TCPListenAddr = tcp,
               px_UpstreamConfig = sv_GeneralUpstreams conf,
               px_PrivateRDNSUpstreamConfig = sv_PrivateRDNSUpstreams conf,
               px_PrivateSubnets = sv_PrivateSubnets conf,
               px_UsePrivateRDNS = (sv_PrivateRDNSUpstreams conf \<noteq> None),
               px_Fallbacks = falls, px_TrustedProxies = trusted,
               px_CacheSizeBytes = cch_Size (sv_Cache conf), px_CacheEnabled = cch_Enabled (sv_Cache conf),
               px_BindRetry = sv_BindRetry conf, px_PendingRequests = sv_PendingRequests conf\<rparr>)"

section \<open>The service\<close>

record 'prx dns_service =
  ds_privateSubnets :: "addr \<Rightarrow> bool"
  ds_proxy :: 'prx

definition New ::
  "golibs \<Rightarrow> ('uc, 'boot, 'cc, 'prx) proxy_env \<Rightarrow> ('uc, 'boot) svc_conf \<Rightarrow> goerr + 'prx dns_service" where
  "New G X conf =
     (case newProxyConfig G X conf (sv_Bootstrap conf) of
        Inl err \<Rightarrow> Inl err
      | Inr prxConf \<Rightarrow>
          (case proxy_New X prxConf of
             Inl err \<Rightarrow> Inl (EWrap (Msg ''creating proxy'') err)
           | Inr prx \<Rightarrow> Inr \<lparr>ds_privateSubnets = sv_PrivateSubnets conf, ds_proxy = prx\<rparr>))"

definition svc_Start :: "('uc, 'boot, 'cc, 'prx) proxy_env \<Rightarrow> 'prx dns_service \<Rightarrow> goerr option" where
  "svc_Start X svc = proxy_Start X (ds_proxy svc)"

definition svc_Shutdown :: "('uc, 'boot, 'cc, 'prx) proxy_env \<Rightarrow> 'prx dns_service \<Rightarrow> goerr option" where
  "svc_Shutdown X svc =
     (case proxy_Shutdown X (ds_proxy svc) of
        Some err \<Rightarrow> Some (EWrap (Msg ''stopping proxy'') err)
      | None \<Rightarrow> None)"

text \<open>\<open>DefaultClientGetter.Address\<close>.\<close>

definition client_Address :: "'cc dns_ctx \<Rightarrow> addr_port" where
  "client_Address dctx = Addr dctx"

text \<open>
  \<open>ServeDNS\<close>: the storage's \<open>Get\<close> is an argument with the storage as its state.  A request with
  no question panics (\<open>None\<close>).  The context is a part of the result since the proxy resolves with
  it.
\<close>

type_synonym ('cc, 'st) get_fn = "addr \<Rightarrow> string \<Rightarrow> 'st \<Rightarrow> 'cc client option \<times> 'st"

definition ServeDNS ::
  "('uc, 'boot, 'cc, 'prx) proxy_env \<Rightarrow> ('cc, 'st) get_fn \<Rightarrow> 'cc dns_ctx \<Rightarrow> 'st
     \<Rightarrow> (goerr option \<times> 'cc dns_ctx \<times> 'st) option" where
  "ServeDNS X get dctx st =
     (if RequestedPrivateRDNS dctx \<noteq> PZero then Some (Resolve X dctx, dctx, st)
      else
        (case Question dctx of
           [] \<Rightarrow> None
         | q # _ \<Rightarrow>
             let questionDomain = trim_right_dots q;
                 addr = fst (Addr dctx);
                 (c, st) = get (unmap addr) (to_lower questionDomain) st;
                 dctx = (case c of
                     Some c \<Rightarrow> dctx\<lparr>CustomUpstreamConfig := Some (Upstreams c)\<rparr>
                   | None \<Rightarrow> dctx)
             in Some (Resolve X dctx, dctx, st)))"

definition Wrap ::
  "'prx dns_service \<Rightarrow> ('cc dns_ctx \<Rightarrow> 'st \<Rightarrow> 'r) \<Rightarrow> 'cc dns_ctx \<Rightarrow> 'st \<Rightarrow> 'r" where
  "Wrap svc h dctx st =
     (let dctx = dctx\<lparr>Addr := client_Address dctx\<rparr>;
          dctx = dctx\<lparr>IsPrivateClient := ds_privateSubnets svc (fst (Addr dctx))\<rparr>
      in h dctx st)"

section \<open>The interface of the storage\<close>

text \<open>
  What \<open>client.Storage\<close> asks of its caller: an unmapped address and a lowercase name with no final
  dot; and what the storage then keeps.
\<close>

definition get_args :: "addr \<Rightarrow> string \<Rightarrow> bool" where
  "get_args a d = (\<not> is4in6 a \<and> to_lower d = d \<and> (d = [] \<or> last d \<noteq> dot))"

locale client_storage =
  fixes get :: "('cc, 'st) get_fn" and inv :: "'st \<Rightarrow> bool"
  assumes get_inv: "inv st \<Longrightarrow> get_args a d \<Longrightarrow> a \<noteq> AZero \<Longrightarrow> \<not> has_zone a \<Longrightarrow> inv (snd (get a d st))"

lemma trim_right_dots_last: "trim_right_dots q = [] \<or> last (trim_right_dots q) \<noteq> dot"
  using hd_dropWhile [of "\<lambda>c. c = dot" "rev q"]
  by (cases "dropWhile (\<lambda>c. c = dot) (rev q)") (auto simp: trim_right_dots_def)

lemma lower_char_dot: "lower_char c = dot \<longleftrightarrow> c = dot"
proof
  assume "lower_char c = dot"
  moreover have "lower_char c \<noteq> dot" if "65 \<le> (of_char c :: nat)" "of_char c \<le> (90 :: nat)"
  proof
    assume "lower_char c = dot"
    then have "(of_char (lower_char c) :: nat) = 46" by simp
    with that show False by (simp add: lower_char_def take_bit_eq_mod)
  qed
  ultimately show "c = dot" by (auto simp: lower_char_def split: if_splits)
qed (simp add: lower_char_def)

lemma serve_get_args: "get_args (unmap a) (to_lower (trim_right_dots q))"
  using trim_right_dots_last [of q] unmap_not4in6 [of a]
  by (auto simp: get_args_def to_lower_def last_map lower_char_dot)

context client_storage
begin

lemma serve_inv:
  assumes "inv st" "fst (Addr dctx) \<noteq> AZero" "\<not> has_zone (unmap (fst (Addr dctx)))"
    "ServeDNS X get dctx st = Some (err, dctx', st')"
  shows "inv st'"
proof -
  have z: "unmap (fst (Addr dctx)) \<noteq> AZero" using assms(2) by (cases "fst (Addr dctx)") auto
  show ?thesis
    using assms(1,4) get_inv [OF assms(1) serve_get_args z assms(3)]
    by (auto simp: ServeDNS_def Let_def split: if_splits list.splits prod.splits)
      (metis snd_conv)+
qed

end

text \<open>\<open>EmptyStorage\<close>, and the default storage with the program's source, implement it.\<close>

definition EmptyStorage_Get :: "('cc, 'st) get_fn" where
  "EmptyStorage_Get a d st = (None, st)"

interpretation empty_storage: client_storage EmptyStorage_Get inv for inv
  by unfold_locales (simp add: EmptyStorage_Get_def)

text \<open>
  \<open>DefaultStorage.Get\<close> of a caller that leads both queues, at a given time.
\<close>

definition program_get ::
  "golibs \<Rightarrow> 'c gocache \<Rightarrow> dns_net \<Rightarrow> int \<Rightarrow> ('o, 'u, 'cc) ups_env \<Rightarrow> int \<Rightarrow> int
     \<Rightarrow> ('cc, ('o, 'cc, 'c rdns) storage) get_fn" where
  "program_get G E N ivl U now srcNow a d st =
     (case Get G U IsIdentifiable (consequent_identify [rdns_identify G E N, default_identify ivl])
        (None, None) (None, None) now srcNow a d st of (c, _, st) \<Rightarrow> (c, st))"

lemma program_get_inv:
  assumes "storage_inv (rdns_inv G E) IsIdentifiable st" "get_args a d" "a \<noteq> AZero" "\<not> has_zone a"
  shows "storage_inv (rdns_inv G E) IsIdentifiable (snd (program_get G E N ivl U now srcNow a d st))"
proof -
  have "plain_addr a" using assms by (simp add: plain_addr_def get_args_def)
  from program_src.Get_inv [OF assms(1) this] show ?thesis
    by (simp add: program_get_def case_prod_beta)
qed

interpretation default_storage: client_storage "program_get G E N ivl U now srcNow"
  "storage_inv (rdns_inv G E) IsIdentifiable" for G E N ivl U now srcNow
  by unfold_locales (rule program_get_inv)

section \<open>Properties\<close>

text \<open>
  Serving a question of a client with a plain address keeps the invariant of the program's
  storage, with whatever source answers, and the request that the proxy resolves has a custom
  upstream configuration of a found client, or is the request as it was.
\<close>

lemma ServeDNS_storage:
  assumes "storage_inv (rdns_inv G E) IsIdentifiable st" "fst (Addr dctx) \<noteq> AZero"
    "\<not> has_zone (unmap (fst (Addr dctx)))"
    "ServeDNS X (program_get G E N ivl U now srcNow) dctx st = Some (err, dctx', st')"
  shows "storage_inv (rdns_inv G E) IsIdentifiable st' \<and> err = Resolve X dctx' \<and>
    (dctx' = dctx \<or> (\<exists>c. dctx' = dctx\<lparr>CustomUpstreamConfig := Some (Upstreams c)\<rparr>))"
proof
  show "storage_inv (rdns_inv G E) IsIdentifiable st'"
    by (rule default_storage.serve_inv [OF assms])
  show "err = Resolve X dctx' \<and> (dctx' = dctx \<or> (\<exists>c. dctx' = dctx\<lparr>CustomUpstreamConfig := Some (Upstreams c)\<rparr>))"
    using assms(4) by (auto simp: ServeDNS_def Let_def split: if_splits list.splits prod.splits option.splits)
qed

lemma ServeDNS_returns:
  assumes "Question dctx \<noteq> []"
  shows "\<exists>err dctx' st'. ServeDNS X get dctx st = Some (err, dctx', st')"
proof -
  obtain q qs where "Question dctx = q # qs" using assms by (cases "Question dctx") auto
  then show ?thesis
    by (cases "get (unmap (fst (Addr dctx))) (to_lower (trim_right_dots q)) st") (simp add: ServeDNS_def Let_def)
qed

definition demo_prx :: "(unit, unit, nat \<times> string list, unit) proxy_env" where
  "demo_prx = \<lparr>ParseUpstreamsConfig = (\<lambda>_ _ _. Inr ()), proxy_New = (\<lambda>_. Inr ()), proxy_Start = (\<lambda>_. None),
     proxy_Shutdown = (\<lambda>_. None), Resolve = (\<lambda>_. None)\<rparr>"

definition demo_dctx :: "string \<Rightarrow> addr \<Rightarrow> (nat \<times> string list) dns_ctx" where
  "demo_dctx q a = \<lparr>Addr = (a, 53), IsPrivateClient = False, RequestedPrivateRDNS = PZero, Question = [q],
     CustomUpstreamConfig = None\<rparr>"

lemma ServeDNS_storage_witness:
  "\<exists>err dctx' st'. ServeDNS demo_prx (program_get ref_golibs ref_gocache (ref_net ''a.lan.'' 60) 5 demo_ups 0 0)
      (demo_dctx ''example.com.'' (A4 0xC0A80001)) (NewDefaultStorage demo_auto (NewRDNSIDSource (0, []))) = Some (err, dctx', st') \<and>
    storage_inv (rdns_inv ref_golibs ref_gocache) IsIdentifiable st'"
proof -
  have "rdns_inv ref_golibs ref_gocache (NewRDNSIDSource (0, []))"
    using ref_golibs_ok ref_gocache_ok
    by (simp add: rdns_inv_def NewRDNSIDSource_def) (simp add: ref_gocache_def ref_live_def)
  then have i: "storage_inv (rdns_inv ref_golibs ref_gocache) IsIdentifiable (NewDefaultStorage demo_auto (NewRDNSIDSource (0, [])))"
    by (rule NewDefaultStorage_inv)
  have q: "Question (demo_dctx ''example.com.'' (A4 0xC0A80001)) \<noteq> []" by (simp add: demo_dctx_def)
  obtain err dctx' st' where s: "ServeDNS demo_prx (program_get ref_golibs ref_gocache (ref_net ''a.lan.'' 60) 5 demo_ups 0 0)
      (demo_dctx ''example.com.'' (A4 0xC0A80001)) (NewDefaultStorage demo_auto (NewRDNSIDSource (0, []))) = Some (err, dctx', st')"
    using ServeDNS_returns [OF q, where X = demo_prx
        and get = "program_get ref_golibs ref_gocache (ref_net ''a.lan.'' 60) 5 demo_ups 0 0"
        and st = "NewDefaultStorage demo_auto (NewRDNSIDSource (0, []))"] by (elim exE)
  have "storage_inv (rdns_inv ref_golibs ref_gocache) IsIdentifiable st'"
    using ServeDNS_storage [OF i _ _ s] by (simp add: demo_dctx_def)
  with s show ?thesis by blast
qed

text \<open>
  A request for a private PTR record never touches the storage, and the client of any other
  request depends on the address and the name only up to the IPv4 mapping of the address and the
  case and final dots of the name.
\<close>

lemma ServeDNS_normalised:
  "(RequestedPrivateRDNS dctx \<noteq> PZero \<longrightarrow> ServeDNS X get dctx st = Some (Resolve X dctx, dctx, st)) \<and>
   (RequestedPrivateRDNS dctx = PZero \<and> Question dctx = q # qs \<and> Question dctx' = q' # qs' \<and>
    RequestedPrivateRDNS dctx' = PZero \<and> unmap (fst (Addr dctx)) = unmap (fst (Addr dctx')) \<and>
    to_lower (trim_right_dots q) = to_lower (trim_right_dots q') \<and> CustomUpstreamConfig dctx = CustomUpstreamConfig dctx' \<longrightarrow>
      map_option (\<lambda>(_, c, s). (CustomUpstreamConfig c, s)) (ServeDNS X get dctx st)
        = map_option (\<lambda>(_, c, s). (CustomUpstreamConfig c, s)) (ServeDNS X get dctx' st))"
  by (auto simp: ServeDNS_def Let_def split: prod.splits option.splits)

lemma ServeDNS_normalised_witness:
  "map_option (\<lambda>(_, c, s). (CustomUpstreamConfig c, s)) (ServeDNS demo_prx EmptyStorage_Get (demo_dctx ''EXAMPLE.com.'' (A6 0xFFFF7F000001 [])) ())
     = map_option (\<lambda>(_, c, s). (CustomUpstreamConfig c, s)) (ServeDNS demo_prx EmptyStorage_Get (demo_dctx ''example.com'' (A4 0x7F000001)) ())"
proof -
  have "to_lower (trim_right_dots ''EXAMPLE.com.'') = to_lower (trim_right_dots ''example.com'')" by code_simp
  moreover have "unmap (A6 0xFFFF7F000001 []) = A4 0x7F000001" "unmap (A4 0x7F000001) = A4 0x7F000001" by code_simp+
  ultimately show ?thesis
    using ServeDNS_normalised [where dctx = "demo_dctx ''EXAMPLE.com.'' (A6 0xFFFF7F000001 [])"
        and dctx' = "demo_dctx ''example.com'' (A4 0x7F000001)" and q = "''EXAMPLE.com.''" and q' = "''example.com''"
        and qs = "[]" and qs' = "[]" and X = demo_prx and get = EmptyStorage_Get and st = "()"]
    by (simp add: demo_dctx_def del: unmap.simps)
qed

text \<open>
  The proxy's configuration fails only with the fallbacks; it listens on every address over both
  UDP and TCP, uses private reverse DNS exactly if it has upstreams for it, and trusts every address
  without a zone as a proxy.
\<close>

lemma newProxyConfig_spec:
  "(case newProxyConfig G X conf boot of
      Inl _ \<Rightarrow> \<exists>err. newFallbacks X (sv_Fallbacks conf) boot = Inl err
    | Inr c \<Rightarrow> px_UDPListenAddr c = sv_ListenAddrs conf \<and> px_TCPListenAddr c = sv_ListenAddrs conf \<and>
        (px_UsePrivateRDNS c \<longleftrightarrow> px_PrivateRDNSUpstreamConfig c \<noteq> None) \<and>
        newFallbacks X (sv_Fallbacks conf) boot = Inr (px_Fallbacks c) \<and>
        ((\<exists>p \<in> set (px_TrustedProxies c). pfx_contains p a) \<longleftrightarrow> a \<noteq> AZero \<and> \<not> has_zone a))"
proof -
  have l: "fold (\<lambda>a (udp, tcp). (udp @ [a], tcp @ [a])) addrs (xs, ys) = (xs @ addrs, ys @ addrs)"
    for addrs xs ys :: "addr_port list"
    by (induction addrs arbitrary: xs ys) auto
  have t: "pfx_contains (P4 0 0) a \<or> pfx_contains (P6 0 0) a \<longleftrightarrow> a \<noteq> AZero \<and> \<not> has_zone a"
    by (cases a) simp_all
  show ?thesis
    using t by (simp add: newProxyConfig_def newListenAddrs_def l split: sum.splits)
qed

end
