(* ===== verification/CmdConfig.thy ===== *)
theory CmdConfig
  imports DnsSvc
begin

text \<open>
  \<open>internal/cmd\<close>: the structure of the configuration file and its validation
  (\<open>config.go\<close>, \<open>dns.go\<close>, \<open>server.go\<close>, \<open>bootstrap.go\<close>, \<open>fallback.go\<close>, \<open>cache.go\<close>, \<open>debug.go\<close>,
  \<open>autodevice.go\<close>, the first half of \<open>upstream.go\<close>, \<open>Validate\<close> of \<open>log.go\<close>) and its conversion
  for the DNS service.  A pointer is an option, since any part of the file may be absent; the map of
  the upstream groups is an association list with distinct keys, in no particular order.
  \<open>url.Parse\<close> and \<open>slogutil.NewFormat\<close> are parameters (\<open>conf_env\<close>).
\<close>

section \<open>Structure\<close>

record ipPortConfig =
  ip_Address :: addr_port

record urlConfig =
  url_Address :: string

record bindRetryConfig =
  brc_Enabled :: bool
  brc_Interval :: int
  brc_Count :: nat

record pendingRequestsConfig =
  prc_Enabled :: bool

record serverConfig =
  BindRetry :: "bindRetryConfig option"
  PendingRequests :: "pendingRequestsConfig option"
  ListenAddresses :: "ipPortConfig option list"

record bootstrapConfig =
  bs_Servers :: "ipPortConfig option list"
  bs_Timeout :: int

record fallbackConfig =
  fbc_Servers :: "urlConfig option list"
  fbc_Timeout :: int

text \<open>\<open>datasize.ByteSize\<close> is a \<open>uint64\<close>.\<close>

record cacheConfig =
  cc_Enabled :: bool
  cc_Size :: "64 word"
  cc_ClientSize :: "64 word"

record pprofConfig =
  pp_Port :: "16 word"
  pp_Enabled :: bool

record debugConfig =
  Pprof :: "pprofConfig option"

record logConfig =
  lc_Output :: string
  lc_Format :: string
  lc_Timestamp :: bool
  lc_Verbose :: bool

record autodeviceConfig =
  adc_ProfileID :: string
  adc_DeviceType :: string
  adc_Enabled :: bool

record upstreamMatchConfig =
  um_Client :: prefix
  um_QuestionDomain :: string

record upstreamGroupConfig =
  ug_Address :: string
  ug_Autodevice :: "autodeviceConfig option"
  ug_Match :: "upstreamMatchConfig option list"

type_synonym group_name = string

type_synonym upstreamGroupsConfig = "(group_name \<times> upstreamGroupConfig option) list"

record upstreamConfig =
  us_Groups :: "upstreamGroupsConfig option"
  us_Timeout :: int

record dnsConfig =
  Cache :: "cacheConfig option"
  Server :: "serverConfig option"
  Bootstrap :: "bootstrapConfig option"
  Upstream :: "upstreamConfig option"
  Fallback :: "fallbackConfig option"

record configuration =
  DNS :: "dnsConfig option"
  Debug :: "debugConfig option"
  Log :: "logConfig option"
  SchemaVersion :: nat

record conf_env =
  url_Parse :: "string \<Rightarrow> goerr + url"
  NewFormat :: "string \<Rightarrow> goerr + string"

section \<open>Validation\<close>

definition ipPort_Validate :: "golibs \<Rightarrow> ipPortConfig option \<Rightarrow> goerr option" where
  "ipPort_Validate G c = (case c of
     None \<Rightarrow> Some ErrNoValue
   | Some c \<Rightarrow> v_not_empty G ''address'' (ip_Address c = (AZero, 0)))"

definition url_Validate :: "golibs \<Rightarrow> urlConfig option \<Rightarrow> goerr option" where
  "url_Validate G c = (case c of
     None \<Rightarrow> Some ErrNoValue
   | Some c \<Rightarrow> v_not_empty G ''address'' (url_Address c = []))"

definition bindRetry_Validate :: "golibs \<Rightarrow> bindRetryConfig option \<Rightarrow> goerr option" where
  "bindRetry_Validate G c = (case c of
     None \<Rightarrow> Some ErrNoValue
   | Some c \<Rightarrow> if \<not> brc_Enabled c then None else v_positive G ''interval'' (brc_Interval c))"

definition pendingRequests_Validate :: "pendingRequestsConfig option \<Rightarrow> goerr option" where
  "pendingRequests_Validate c = (case c of None \<Rightarrow> Some ErrNoValue | Some c \<Rightarrow> None)"

definition server_Validate :: "golibs \<Rightarrow> serverConfig option \<Rightarrow> goerr option" where
  "server_Validate G c = (case c of
     None \<Rightarrow> Some ErrNoValue
   | Some c \<Rightarrow>
       let errs = v_append_slice G [] ''listen_addresses'' (map (ipPort_Validate G) (ListenAddresses c));
           errs = v_append G errs ''bind_retry'' (bindRetry_Validate G (BindRetry c));
           errs = v_append G errs ''pending_requests'' (pendingRequests_Validate (PendingRequests c))
       in errors_join errs)"

definition bootstrap_Validate :: "golibs \<Rightarrow> bootstrapConfig option \<Rightarrow> goerr option" where
  "bootstrap_Validate G c = (case c of
     None \<Rightarrow> Some ErrNoValue
   | Some c \<Rightarrow>
       let errs = [v_positive G ''timeout'' (bs_Timeout c)];
           errs = v_append_slice G errs ''servers'' (map (ipPort_Validate G) (bs_Servers c))
       in errors_join errs)"

definition fallback_Validate :: "golibs \<Rightarrow> fallbackConfig option \<Rightarrow> goerr option" where
  "fallback_Validate G c = (case c of
     None \<Rightarrow> Some ErrNoValue
   | Some c \<Rightarrow>
       let errs = [v_positive G ''timeout'' (fbc_Timeout c)];
           errs = v_append_slice G errs ''servers'' (map (url_Validate G) (fbc_Servers c))
       in errors_join errs)"

text \<open>\<open>math.MaxInt\<close> of a 64-bit platform.\<close>

definition MaxInt :: int where "MaxInt = 2 ^ 63 - 1"

definition cache_Validate :: "golibs \<Rightarrow> cacheConfig option \<Rightarrow> goerr option" where
  "cache_Validate G c = (case c of
     None \<Rightarrow> Some ErrNoValue
   | Some c \<Rightarrow>
       if \<not> cc_Enabled c then None
       else errors_join
         [v_in_range G ''size'' (uint (cc_Size c)) 1 MaxInt,
          v_in_range G ''client_size'' (uint (cc_ClientSize c)) 1 MaxInt])"

definition pprof_Validate :: "pprofConfig option \<Rightarrow> goerr option" where
  "pprof_Validate c = (case c of None \<Rightarrow> Some ErrNoValue | Some c \<Rightarrow> None)"

definition debug_Validate :: "debugConfig option \<Rightarrow> goerr option" where
  "debug_Validate c = (case c of
     None \<Rightarrow> Some ErrNoValue
   | Some c \<Rightarrow>
       (case pprof_Validate (Pprof c) of
          Some err \<Rightarrow> Some (EWrap (Msg ''pprof'') err)
        | None \<Rightarrow> None))"

text \<open>\<open>filepath.IsAbs\<close> of Unix.\<close>

definition is_abs :: "string \<Rightarrow> bool" where
  "is_abs p = has_prefix p [slash]"

definition outputSyslog :: string where "outputSyslog = ''syslog''"
definition outputStdout :: string where "outputStdout = ''stdout''"
definition outputStderr :: string where "outputStderr = ''stderr''"

lemmas output_defs = outputSyslog_def outputStdout_def outputStderr_def

definition log_Validate :: "conf_env \<Rightarrow> logConfig option \<Rightarrow> goerr option" where
  "log_Validate E c = (case c of
     None \<Rightarrow> Some ErrNoValue
   | Some c \<Rightarrow>
       let errs = (if lc_Output c \<in> {outputSyslog, outputStdout, outputStderr} then []
             else if \<not> is_abs (lc_Output c) then [Some (EWrap (MsgQ ''output'' (lc_Output c)) ErrBadEnumValue)]
             else []);
           errs = (case NewFormat E (lc_Format c) of Inl err \<Rightarrow> errs @ [Some err] | Inr _ \<Rightarrow> errs)
       in errors_join errs)"

definition autodevice_Validate :: "golibs \<Rightarrow> autodeviceConfig option \<Rightarrow> goerr option" where
  "autodevice_Validate G c = (case c of
     None \<Rightarrow> Some ErrNoValue
   | Some c \<Rightarrow>
       if \<not> adc_Enabled c then None
       else
         let errs = (case NewProfileID G (adc_ProfileID c) of
               Inl err \<Rightarrow> [Some (EWrap (Msg ''profile_id'') err)] | Inr _ \<Rightarrow> []);
             errs = (case NewDeviceType (adc_DeviceType c) of
               Inl err \<Rightarrow> errs @ [Some (EWrap (Msg ''device_type'') err)] | Inr _ \<Rightarrow> errs)
         in errors_join errs)"

section \<open>Validation of the upstream groups\<close>

type_synonym indexedMatch = "string \<times> prefix"

type_synonym matchSet = "indexedMatch \<rightharpoonup> group_name"

definition toIndexedMatch :: "upstreamMatchConfig \<Rightarrow> indexedMatch" where
  "toIndexedMatch c = (to_lower (um_QuestionDomain c), um_Client c)"

definition addMatch :: "group_name \<Rightarrow> upstreamMatchConfig \<Rightarrow> matchSet \<Rightarrow> goerr option \<times> matchSet" where
  "addMatch name m s =
     (let key = toIndexedMatch m in
      case s key of
        None \<Rightarrow> (None, s(key \<mapsto> name))
      | Some another \<Rightarrow>
          if another = name then (Some ErrDuplicated, s)
          else (Some (EWrap (MsgQ ''conflicts with group'' another) (ErrOther ''conflict'')), s))"

definition validateValues ::
  "golibs \<Rightarrow> group_name \<Rightarrow> upstreamMatchConfig \<Rightarrow> matchSet \<Rightarrow> goerr option \<times> matchSet" where
  "validateValues G name c s =
     (let errs = (if um_QuestionDomain c \<noteq> [] then
            (case domain_name G (um_QuestionDomain c) of
               Some err \<Rightarrow> [Some (EWrap (Msg ''question_domain'') err)]
             | None \<Rightarrow> [])
          else []);
          errs = (if um_Client c \<noteq> masked (um_Client c)
            then errs @ [Some (EWrap (Msg ''client'') (ErrOther ''significant bits''))]
            else errs);
          (err, s) = addMatch name c s
      in (errors_join (errs @ [err]), s))"

definition match_validate ::
  "golibs \<Rightarrow> group_name \<Rightarrow> upstreamMatchConfig option \<Rightarrow> matchSet \<Rightarrow> goerr option \<times> matchSet" where
  "match_validate G name c s = (case c of
     None \<Rightarrow> (Some ErrNoValue, s)
   | Some c \<Rightarrow>
       if c = \<lparr>um_Client = PZero, um_QuestionDomain = []\<rparr> then (Some ErrEmptyValue, s)
       else validateValues G name c s)"

definition validateAutodeviceAddress :: "golibs \<Rightarrow> conf_env \<Rightarrow> string \<Rightarrow> goerr option" where
  "validateAutodeviceAddress G E address =
     (case v_not_empty G ''address'' (address = []) of
        Some err \<Rightarrow> Some err
      | None \<Rightarrow>
          (case url_Parse E address of
             Inl err \<Rightarrow> Some (EWrap (Msg ''address'') err)
           | Inr u \<Rightarrow>
               if Scheme u \<in> {SchemeHTTPS, SchemeTLS, SchemeQUIC} then None
               else Some (EWrap (MsgQ ''address: scheme'' (Scheme u)) ErrBadEnumValue)))"

definition UpstreamGroupNameDefault :: group_name where "UpstreamGroupNameDefault = ''default''"
definition UpstreamGroupNamePrivate :: group_name where "UpstreamGroupNamePrivate = ''private''"

lemmas group_names = UpstreamGroupNameDefault_def UpstreamGroupNamePrivate_def

definition requiredGroups :: "group_name list" where
  "requiredGroups = [UpstreamGroupNameDefault]"

definition predefinedGroups :: "group_name list" where
  "predefinedGroups = [UpstreamGroupNameDefault, UpstreamGroupNamePrivate]"

text \<open>\<open>Autodevice.Enabled\<close> is read after a nil pointer has failed the validation.\<close>

definition autodevice_enabled :: "upstreamGroupConfig \<Rightarrow> bool" where
  "autodevice_enabled c = (case ug_Autodevice c of Some a \<Rightarrow> adc_Enabled a | None \<Rightarrow> False)"

definition validateAsPredefined ::
  "golibs \<Rightarrow> conf_env \<Rightarrow> group_name \<Rightarrow> upstreamGroupConfig option \<Rightarrow> goerr option" where
  "validateAsPredefined G E name c = (case c of
     None \<Rightarrow> Some ErrNoValue
   | Some c \<Rightarrow>
       let errs = [v_empty_slice G ''match'' (length (ug_Match c))] in
       (case autodevice_Validate G (ug_Autodevice c) of
          Some err \<Rightarrow> errors_join (errs @ [Some (EWrap (Msg ''autodevice'') err),
            v_not_empty G ''address'' (ug_Address c = [])])
        | None \<Rightarrow>
            if \<not> autodevice_enabled c
            then errors_join (errs @ [v_not_empty G ''address'' (ug_Address c = [])])
            else if name = UpstreamGroupNamePrivate
            then errors_join (errs @ [Some (EWrap (MsgQ ''autodevice'' name) (ErrOther ''unsupported''))])
            else errors_join (errs @ [validateAutodeviceAddress G E (ug_Address c)])))"

fun match_loop ::
  "golibs \<Rightarrow> group_name \<Rightarrow> nat \<Rightarrow> goerr option list \<Rightarrow> upstreamMatchConfig option list \<Rightarrow> matchSet
     \<Rightarrow> goerr option list \<times> matchSet" where
  "match_loop G n i errs [] s = (errs, s)"
| "match_loop G n i errs (m # ms) s =
     (case match_validate G n m s of
        (Some err, s) \<Rightarrow> match_loop G n (Suc i) (errs @ [Some (EWrap (MsgAt ''match: at index'' i) err)]) ms s
      | (None, s) \<Rightarrow> match_loop G n (Suc i) errs ms s)"

definition validateAsCustom ::
  "golibs \<Rightarrow> conf_env \<Rightarrow> group_name \<Rightarrow> upstreamGroupConfig option \<Rightarrow> matchSet \<Rightarrow> goerr option \<times> matchSet" where
  "validateAsCustom G E n c s = (case c of
     None \<Rightarrow> (Some ErrNoValue, s)
   | Some c \<Rightarrow>
       let errs = (case autodevice_Validate G (ug_Autodevice c) of
             Some err \<Rightarrow> [Some (EWrap (Msg ''autodevice'') err)]
           | None \<Rightarrow>
               if \<not> autodevice_enabled c then [v_not_empty G ''address'' (ug_Address c = [])]
               else [validateAutodeviceAddress G E (ug_Address c)]);
           (errs, s) = match_loop G n 0 errs (ug_Match c) s
       in (errors_join errs, s))"

text \<open>A missing key of the map reads as a nil pointer.\<close>

definition group_of :: "upstreamGroupsConfig \<Rightarrow> group_name \<Rightarrow> upstreamGroupConfig option" where
  "group_of c name = (case map_of c name of Some g \<Rightarrow> g | None \<Rightarrow> None)"

fun validate_loop ::
  "golibs \<Rightarrow> conf_env \<Rightarrow> upstreamGroupsConfig \<Rightarrow> group_name list \<Rightarrow> goerr option list \<Rightarrow> matchSet
     \<Rightarrow> goerr option list" where
  "validate_loop G E c [] errs ms = errs"
| "validate_loop G E c (name # names) errs ms =
     (let g = group_of c name;
          (err, ms) = (if name \<in> set predefinedGroups then (validateAsPredefined G E name g, ms)
            else validateAsCustom G E name g ms)
      in case err of
           Some err \<Rightarrow> validate_loop G E c names (errs @ [Some (EWrap (MsgQ ''group'' name) err)]) ms
         | None \<Rightarrow> validate_loop G E c names errs ms)"

definition validateGroups ::
  "golibs \<Rightarrow> conf_env \<Rightarrow> upstreamGroupsConfig \<Rightarrow> goerr option list \<Rightarrow> goerr option list" where
  "validateGroups G E c errs = validate_loop G E c (sort (map fst c)) errs Map.empty"

definition groups_Validate :: "golibs \<Rightarrow> conf_env \<Rightarrow> upstreamGroupsConfig option \<Rightarrow> goerr option" where
  "groups_Validate G E c = (case c of
     None \<Rightarrow> Some ErrNoValue
   | Some c \<Rightarrow>
       let errs = List.map_filter (\<lambda>name. case map_of c name of
             None \<Rightarrow> Some (Some (EWrap (MsgQ ''group'' name) (ErrOther ''must be present'')))
           | Some _ \<Rightarrow> None) requiredGroups;
           errs = validateGroups G E c errs
       in errors_join errs)"

definition upstream_Validate :: "golibs \<Rightarrow> conf_env \<Rightarrow> upstreamConfig option \<Rightarrow> goerr option" where
  "upstream_Validate G E c = (case c of
     None \<Rightarrow> Some ErrNoValue
   | Some c \<Rightarrow>
       let errs = [v_positive G ''timeout'' (us_Timeout c)];
           errs = v_append G errs ''groups'' (groups_Validate G E (us_Groups c))
       in errors_join errs)"

definition dns_Validate :: "golibs \<Rightarrow> conf_env \<Rightarrow> dnsConfig option \<Rightarrow> goerr option" where
  "dns_Validate G E c = (case c of
     None \<Rightarrow> Some ErrNoValue
   | Some c \<Rightarrow>
       let validators = [(''cache'', cache_Validate G (Cache c)), (''server'', server_Validate G (Server c)),
             (''bootstrap'', bootstrap_Validate G (Bootstrap c)), (''upstream'', upstream_Validate G E (Upstream c)),
             (''fallback'', fallback_Validate G (Fallback c))];
           errs = fold (\<lambda>(key, res) errs. v_append G errs key res) validators []
       in errors_join errs)"

definition conf_Validate :: "golibs \<Rightarrow> conf_env \<Rightarrow> configuration option \<Rightarrow> goerr option" where
  "conf_Validate G E c = (case c of
     None \<Rightarrow> Some ErrNoValue
   | Some c \<Rightarrow>
       let validators = [(''dns'', dns_Validate G E (DNS c)), (''log'', log_Validate E (Log c)),
             (''debug'', debug_Validate (Debug c))];
           errs = fold (\<lambda>(key, res) errs. v_append G errs key res) validators []
       in errors_join errs)"

section \<open>Conversion\<close>

text \<open>\<open>int\<close> of a 64-bit platform.\<close>

definition go_int :: "64 word \<Rightarrow> int" where "go_int w = sint w"

definition cache_toInternal :: "cacheConfig \<Rightarrow> cache_conf" where
  "cache_toInternal c = \<lparr>cch_Enabled = cc_Enabled c, cch_Size = go_int (cc_Size c)\<rparr>"

definition fallback_toInternal :: "fallbackConfig \<Rightarrow> fallback_conf" where
  "fallback_toInternal c = fold (\<lambda>addrConf conf. conf\<lparr>fb_Addresses := fb_Addresses conf @ [url_Address addrConf]\<rparr>)
     (map the (fbc_Servers c)) \<lparr>fb_Addresses = [], fb_Timeout = fbc_Timeout c\<rparr>"

definition bindRetry_toInternal :: "bindRetryConfig \<Rightarrow> bind_retry" where
  "bindRetry_toInternal c = \<lparr>br_Enabled = brc_Enabled c, br_Interval = brc_Interval c, br_Count = brc_Count c\<rparr>"

definition pendingRequests_toInternal :: "pendingRequestsConfig \<Rightarrow> pending_conf" where
  "pendingRequests_toInternal c = \<lparr>pr_Enabled = prc_Enabled c\<rparr>"

end
