(* ===== verification/CmdValid.thy ===== *)
theory CmdValid
  imports CmdConfig
begin

text \<open>
  What a valid configuration is, and that \<open>Validate\<close> accepts exactly those: the predicates follow the
  documentation of the configuration, not the order in which the errors are collected.
\<close>

section \<open>Valid configurations\<close>

definition valid_ipPort :: "ipPortConfig option \<Rightarrow> bool" where
  "valid_ipPort c = (\<exists>x. c = Some x \<and> ip_Address x \<noteq> (AZero, 0))"

definition valid_server :: "serverConfig \<Rightarrow> bool" where
  "valid_server c = ((\<forall>a \<in> set (ListenAddresses c). valid_ipPort a) \<and> PendingRequests c \<noteq> None \<and>
     (\<exists>b. BindRetry c = Some b \<and> (brc_Enabled b \<longrightarrow> 0 < brc_Interval b)))"

definition valid_bootstrap :: "bootstrapConfig \<Rightarrow> bool" where
  "valid_bootstrap c = (0 < bs_Timeout c \<and> (\<forall>a \<in> set (bs_Servers c). valid_ipPort a))"

definition valid_fallback :: "fallbackConfig \<Rightarrow> bool" where
  "valid_fallback c = (0 < fbc_Timeout c \<and> (\<forall>a \<in> set (fbc_Servers c). \<exists>x. a = Some x \<and> url_Address x \<noteq> []))"

definition valid_cache :: "cacheConfig \<Rightarrow> bool" where
  "valid_cache c = (cc_Enabled c \<longrightarrow> 0 < uint (cc_Size c) \<and> uint (cc_Size c) \<le> MaxInt \<and>
     0 < uint (cc_ClientSize c) \<and> uint (cc_ClientSize c) \<le> MaxInt)"

definition valid_log :: "conf_env \<Rightarrow> logConfig \<Rightarrow> bool" where
  "valid_log E c = ((lc_Output c \<in> {outputSyslog, outputStdout, outputStderr} \<or> is_abs (lc_Output c)) \<and>
     (\<exists>f. NewFormat E (lc_Format c) = Inr f))"

definition valid_autodevice :: "autodeviceConfig \<Rightarrow> bool" where
  "valid_autodevice a = (adc_Enabled a \<longrightarrow> valid_profile_id (adc_ProfileID a) \<and> adc_DeviceType a \<in> set deviceTypes)"

definition valid_template :: "conf_env \<Rightarrow> string \<Rightarrow> bool" where
  "valid_template E address = (address \<noteq> [] \<and>
     (case url_Parse E address of Inl _ \<Rightarrow> False | Inr u \<Rightarrow> Scheme u \<in> {SchemeHTTPS, SchemeTLS, SchemeQUIC}))"

definition valid_match :: "golibs \<Rightarrow> upstreamMatchConfig \<Rightarrow> bool" where
  "valid_match G m = ((um_Client m \<noteq> PZero \<or> um_QuestionDomain m \<noteq> []) \<and>
     (um_QuestionDomain m \<noteq> [] \<longrightarrow> domain_name G (um_QuestionDomain m) = None) \<and>
     masked (um_Client m) = um_Client m)"

text \<open>
  A predefined group has no criteria; the private group has no autodevice.  Every group has an
  address, which is a template of a supported scheme if autodevice is enabled.
\<close>

definition valid_group :: "golibs \<Rightarrow> conf_env \<Rightarrow> group_name \<Rightarrow> upstreamGroupConfig \<Rightarrow> bool" where
  "valid_group G E name g = (
     (\<exists>a. ug_Autodevice g = Some a \<and> valid_autodevice a \<and>
       (if adc_Enabled a then name \<noteq> UpstreamGroupNamePrivate \<and> valid_template E (ug_Address g)
        else ug_Address g \<noteq> [])) \<and>
     (if name \<in> set predefinedGroups then ug_Match g = []
      else \<forall>m \<in> set (ug_Match g). \<exists>x. m = Some x \<and> valid_match G x))"

definition group_keys :: "upstreamGroupConfig \<Rightarrow> indexedMatch list" where
  "group_keys g = map (\<lambda>m. toIndexedMatch (the m)) (ug_Match g)"

text \<open>The criteria of the given groups, but those that are predefined.\<close>

definition custom_keys :: "upstreamGroupsConfig \<Rightarrow> group_name list \<Rightarrow> indexedMatch list" where
  "custom_keys c names = concat (map (\<lambda>n. group_keys (the (group_of c n)))
     (filter (\<lambda>n. n \<notin> set predefinedGroups) names))"

definition valid_groups :: "golibs \<Rightarrow> conf_env \<Rightarrow> upstreamGroupsConfig \<Rightarrow> bool" where
  "valid_groups G E c = (UpstreamGroupNameDefault \<in> fst ` set c \<and>
     (\<forall>(name, g) \<in> set c. \<exists>x. g = Some x \<and> valid_group G E name x) \<and>
     distinct (custom_keys c (map fst c)))"

definition valid_upstream :: "golibs \<Rightarrow> conf_env \<Rightarrow> upstreamConfig \<Rightarrow> bool" where
  "valid_upstream G E c = (0 < us_Timeout c \<and> (\<exists>gs. us_Groups c = Some gs \<and> valid_groups G E gs))"

definition valid_dns :: "golibs \<Rightarrow> conf_env \<Rightarrow> dnsConfig \<Rightarrow> bool" where
  "valid_dns G E c = (
     (\<exists>x. Cache c = Some x \<and> valid_cache x) \<and> (\<exists>x. Server c = Some x \<and> valid_server x) \<and>
     (\<exists>x. Bootstrap c = Some x \<and> valid_bootstrap x) \<and> (\<exists>x. Upstream c = Some x \<and> valid_upstream G E x) \<and>
     (\<exists>x. Fallback c = Some x \<and> valid_fallback x))"

definition valid_conf :: "golibs \<Rightarrow> conf_env \<Rightarrow> configuration \<Rightarrow> bool" where
  "valid_conf G E c = (
     (\<exists>x. DNS c = Some x \<and> valid_dns G E x) \<and> (\<exists>x. Log c = Some x \<and> valid_log E x) \<and>
     (\<exists>x. Debug c = Some x \<and> Pprof x \<noteq> None))"

text \<open>The keys of the map of groups are distinct.\<close>

definition groups_map :: "configuration \<Rightarrow> bool" where
  "groups_map c = (\<forall>d u gs. DNS c = Some d \<longrightarrow> Upstream d = Some u \<longrightarrow> us_Groups u = Some gs \<longrightarrow> distinct (map fst gs))"

section \<open>The validation of each part\<close>

lemma errors_join_ex [simp]: "(\<exists>e. errors_join es = Some e) \<longleftrightarrow> \<not> (\<forall>e \<in> set es. e = None)"
  by (metis errors_join_None not_None_eq)

lemma ipPort_Validate_iff: "validate_ok G \<Longrightarrow> ipPort_Validate G c = None \<longleftrightarrow> valid_ipPort c"
  by (cases c) (simp_all add: ipPort_Validate_def valid_ipPort_def)

lemma server_Validate_iff: "validate_ok G \<Longrightarrow> server_Validate G c = None \<longleftrightarrow> (\<exists>x. c = Some x \<and> valid_server x)"
  by (cases c) (auto simp: server_Validate_def valid_server_def Let_def ipPort_Validate_iff
      bindRetry_Validate_def pendingRequests_Validate_def split: option.splits)

lemma bootstrap_Validate_iff:
  "validate_ok G \<Longrightarrow> bootstrap_Validate G c = None \<longleftrightarrow> (\<exists>x. c = Some x \<and> valid_bootstrap x)"
  by (cases c) (auto simp: bootstrap_Validate_def valid_bootstrap_def Let_def ipPort_Validate_iff)

lemma url_Validate_iff: "validate_ok G \<Longrightarrow> url_Validate G c = None \<longleftrightarrow> (\<exists>x. c = Some x \<and> url_Address x \<noteq> [])"
  by (cases c) (simp_all add: url_Validate_def)

lemma fallback_Validate_iff:
  "validate_ok G \<Longrightarrow> fallback_Validate G c = None \<longleftrightarrow> (\<exists>x. c = Some x \<and> valid_fallback x)"
  by (cases c) (auto simp: fallback_Validate_def valid_fallback_def Let_def url_Validate_iff)

lemma cache_Validate_iff: "validate_ok G \<Longrightarrow> cache_Validate G c = None \<longleftrightarrow> (\<exists>x. c = Some x \<and> valid_cache x)"
  by (cases c) (auto simp: cache_Validate_def valid_cache_def)

lemma debug_Validate_iff: "debug_Validate c = None \<longleftrightarrow> (\<exists>x. c = Some x \<and> Pprof x \<noteq> None)"
  by (cases c) (auto simp: debug_Validate_def pprof_Validate_def split: option.splits)

lemma log_Validate_iff: "log_Validate E c = None \<longleftrightarrow> (\<exists>x. c = Some x \<and> valid_log E x)"
  by (cases c) (auto simp: log_Validate_def valid_log_def Let_def split: sum.splits)

lemma autodevice_Validate_iff:
  assumes "golibs_ok G"
  shows "autodevice_Validate G c = None \<longleftrightarrow> (\<exists>x. c = Some x \<and> valid_autodevice x)"
proof (cases c)
  case (Some x)
  show ?thesis
    using Some NewProfileID_Inr [OF assms, of "adc_ProfileID x"]
    by (cases "NewProfileID G (adc_ProfileID x)")
      (auto simp: autodevice_Validate_def valid_autodevice_def NewDeviceType_def Let_def)
qed (simp add: autodevice_Validate_def)

section \<open>The validation of the groups\<close>

lemma validateAutodeviceAddress_iff:
  "validate_ok G \<Longrightarrow> validateAutodeviceAddress G E address = None \<longleftrightarrow> valid_template E address"
proof -
  assume ok: "validate_ok G"
  show ?thesis
  proof (cases "address = []")
    case True
    obtain e where "v_not_empty G ''address'' True = Some e" using ok by (metis not_None_eq validate_simps(5))
    with True show ?thesis by (simp add: validateAutodeviceAddress_def valid_template_def)
  next
    case False
    have "v_not_empty G ''address'' False = None" using ok by simp
    with False show ?thesis
      by (cases "url_Parse E address")
        (simp_all add: validateAutodeviceAddress_def valid_template_def del: validate_simps)
  qed
qed

lemma match_empty: "x = \<lparr>um_Client = PZero, um_QuestionDomain = []\<rparr> \<longleftrightarrow> um_Client x = PZero \<and> um_QuestionDomain x = []"
  by (cases x) simp

lemma addMatch_iff:
  "fst (addMatch n x s) = None \<longleftrightarrow> toIndexedMatch x \<notin> dom s"
  "fst (addMatch n x s) = None \<Longrightarrow> snd (addMatch n x s) = s(toIndexedMatch x \<mapsto> n)"
  by (auto simp: addMatch_def Let_def split: option.splits)

lemma validateValues_iff:
  "fst (validateValues G n x s) = None \<longleftrightarrow>
     (um_QuestionDomain x \<noteq> [] \<longrightarrow> domain_name G (um_QuestionDomain x) = None) \<and>
     masked (um_Client x) = um_Client x \<and> fst (addMatch n x s) = None"
  "snd (validateValues G n x s) = snd (addMatch n x s)"
proof -
  show "fst (validateValues G n x s) = None \<longleftrightarrow>
     (um_QuestionDomain x \<noteq> [] \<longrightarrow> domain_name G (um_QuestionDomain x) = None) \<and>
     masked (um_Client x) = um_Client x \<and> fst (addMatch n x s) = None"
    by (cases "um_QuestionDomain x = []"; cases "masked (um_Client x) = um_Client x";
        cases "domain_name G (um_QuestionDomain x)")
      (simp_all add: validateValues_def Let_def case_prod_beta)
  show "snd (validateValues G n x s) = snd (addMatch n x s)"
    by (simp add: validateValues_def Let_def case_prod_beta)
qed

lemma match_validate_iff:
  "fst (match_validate G n m s) = None \<longleftrightarrow>
     (\<exists>x. m = Some x \<and> valid_match G x \<and> toIndexedMatch x \<notin> dom s)"
  "fst (match_validate G n m s) = None \<Longrightarrow> snd (match_validate G n m s) = s(toIndexedMatch (the m) \<mapsto> n)"
proof -
  show "fst (match_validate G n m s) = None \<longleftrightarrow>
     (\<exists>x. m = Some x \<and> valid_match G x \<and> toIndexedMatch x \<notin> dom s)"
    by (cases m) (auto simp: match_validate_def match_empty valid_match_def validateValues_iff addMatch_iff)
  show "snd (match_validate G n m s) = s(toIndexedMatch (the m) \<mapsto> n)" if "fst (match_validate G n m s) = None"
    using that by (cases m) (auto simp: match_validate_def validateValues_iff addMatch_iff(2) split: if_splits)
qed

text \<open>One round of the loops over the criteria and over the groups, on the sets of their keys.\<close>

lemma round_keys:
  assumes "N' \<longleftrightarrow> N \<and> M \<and> D \<and> S \<inter> (T \<union> K) = {}" "N' \<longrightarrow> T' = (T \<union> K) \<union> S" "K \<inter> T = {}"
  shows "(N' \<longleftrightarrow> N \<and> M \<and> (K \<inter> S = {} \<and> D) \<and> (K \<union> S) \<inter> T = {}) \<and> (N' \<longrightarrow> T' = T \<union> (K \<union> S))"
proof -
  have "S \<inter> (T \<union> K) = {} \<longleftrightarrow> K \<inter> S = {} \<and> (K \<union> S) \<inter> T = {}" using assms(3) by blast
  then show ?thesis using assms(1,2) by (simp add: Un_assoc) argo
qed

lemma match_loop_keeps: "e \<in> set errs \<Longrightarrow> e \<in> set (fst (match_loop G n i errs ms s))"
  by (induction ms arbitrary: i errs s) (auto split: prod.splits option.splits)

lemma match_loop_iff:
  assumes "match_loop G n i errs ms s = (errs', s')"
  shows "((\<forall>e \<in> set errs'. e = None) \<longleftrightarrow> (\<forall>e \<in> set errs. e = None) \<and>
      (\<forall>m \<in> set ms. \<exists>x. m = Some x \<and> valid_match G x) \<and>
      distinct (map (\<lambda>m. toIndexedMatch (the m)) ms) \<and> toIndexedMatch ` the ` set ms \<inter> dom s = {}) \<and>
      ((\<forall>e \<in> set errs'. e = None) \<longrightarrow> dom s' = dom s \<union> toIndexedMatch ` the ` set ms)"
  using assms
proof (induction ms arbitrary: i errs s)
    case (Cons m ms)
    obtain err s1 where v: "match_validate G n m s = (err, s1)" by (cases "match_validate G n m s")
    show ?case
    proof (cases err)
      case None
      with v match_validate_iff [of G n m s] obtain x where x: "m = Some x" "valid_match G x"
        "toIndexedMatch x \<notin> dom s" "s1 = s(toIndexedMatch x \<mapsto> n)" by auto
      have "match_loop G n (Suc i) errs ms s1 = (errs', s')" using Cons.prems v None by simp
      note IH = Cons.IH [OF this]
      have d: "dom s1 = dom s \<union> {toIndexedMatch x}" using x(4) by simp
      have M: "(\<forall>m \<in> set (m # ms). \<exists>x. m = Some x \<and> valid_match G x) \<longleftrightarrow>
          (\<forall>m \<in> set ms. \<exists>x. m = Some x \<and> valid_match G x)" using x(1,2) by simp
      have S: "toIndexedMatch ` the ` set (m # ms) = {toIndexedMatch x} \<union> toIndexedMatch ` the ` set ms"
        using x(1) by simp
      have D: "distinct (map (\<lambda>m. toIndexedMatch (the m)) (m # ms)) \<longleftrightarrow>
          {toIndexedMatch x} \<inter> toIndexedMatch ` the ` set ms = {} \<and> distinct (map (\<lambda>m. toIndexedMatch (the m)) ms)"
        using x(1) by (simp add: image_image)
      have k: "{toIndexedMatch x} \<inter> dom s = {}" using x(3) by simp
      show ?thesis unfolding M S D
        by (rule round_keys [OF conjunct1 [OF IH [unfolded d]] conjunct2 [OF IH [unfolded d]] k])
    next
      case (Some e)
      then have "\<not> (\<exists>x. m = Some x \<and> valid_match G x \<and> toIndexedMatch x \<notin> dom s)"
        using v match_validate_iff(1) [of G n m s] by simp
      moreover have "\<not> (\<forall>e \<in> set errs'. e = None)"
        using match_loop_keeps [of "Some (EWrap (MsgAt ''match: at index'' i) e)"
            "errs @ [Some (EWrap (MsgAt ''match: at index'' i) e)]" G n "Suc i" ms s1]
          Cons.prems v Some by auto
      ultimately show ?thesis by auto
    qed
  qed auto

lemma validateAsPredefined_iff:
  assumes "golibs_ok G" "name \<in> set predefinedGroups"
  shows "validateAsPredefined G E name g = None \<longleftrightarrow> (\<exists>x. g = Some x \<and> valid_group G E name x)"
proof (cases g)
  case (Some x)
  note [simp] = golibs_okD [OF assms(1)]
  show ?thesis
    using autodevice_Validate_iff [OF assms(1), of "ug_Autodevice x"] assms(2) Some
    by (cases "autodevice_Validate G (ug_Autodevice x)")
      (auto simp: validateAsPredefined_def valid_group_def autodevice_enabled_def Let_def
        validateAutodeviceAddress_iff)
qed (simp add: validateAsPredefined_def)

lemma validateAsCustom_iff:
  assumes "golibs_ok G" "name \<notin> set predefinedGroups" "validateAsCustom G E name g s = (err, s')"
  shows "err = None \<longleftrightarrow> (\<exists>x. g = Some x \<and> valid_group G E name x \<and>
      distinct (group_keys x) \<and> set (group_keys x) \<inter> dom s = {})"
    and "err = None \<Longrightarrow> dom s' = dom s \<union> set (group_keys (the g))"
proof -
  note [simp] = golibs_okD [OF assms(1)]
  have p: "name \<noteq> UpstreamGroupNamePrivate" using assms(2) by (auto simp: predefinedGroups_def)
  have "(err = None \<longleftrightarrow> (\<exists>x. g = Some x \<and> valid_group G E name x \<and>
      distinct (group_keys x) \<and> set (group_keys x) \<inter> dom s = {})) \<and>
      (err = None \<longrightarrow> dom s' = dom s \<union> set (group_keys (the g)))"
  proof (cases g)
    case None
    with assms(3) show ?thesis by (auto simp: validateAsCustom_def)
  next
    case (Some x)
    define e0 where "e0 = (case autodevice_Validate G (ug_Autodevice x) of
             Some err \<Rightarrow> [Some (EWrap (Msg ''autodevice'') err)]
           | None \<Rightarrow>
               if \<not> autodevice_enabled x then [v_not_empty G ''address'' (ug_Address x = [])]
               else [validateAutodeviceAddress G E (ug_Address x)])"
    obtain errs s1 where l: "match_loop G name 0 e0 (ug_Match x) s = (errs, s1)"
      by (cases "match_loop G name 0 e0 (ug_Match x) s")
    have r: "err = errors_join errs" "s' = s1"
      using assms(3) l Some by (simp_all add: validateAsCustom_def Let_def flip: e0_def)
    have "(\<forall>e \<in> set e0. e = None) \<longleftrightarrow> (\<exists>a. ug_Autodevice x = Some a \<and> valid_autodevice a \<and>
        (if adc_Enabled a then valid_template E (ug_Address x) else ug_Address x \<noteq> []))"
      using autodevice_Validate_iff [OF assms(1), of "ug_Autodevice x"]
      by (cases "autodevice_Validate G (ug_Autodevice x)")
        (auto simp: e0_def autodevice_enabled_def validateAutodeviceAddress_iff)
    with match_loop_iff [OF l] p assms(2) Some r show ?thesis
      by (auto simp: valid_group_def group_keys_def image_image)
  qed
  then show "err = None \<longleftrightarrow> (\<exists>x. g = Some x \<and> valid_group G E name x \<and>
      distinct (group_keys x) \<and> set (group_keys x) \<inter> dom s = {})"
    and "err = None \<Longrightarrow> dom s' = dom s \<union> set (group_keys (the g))" by blast+
qed

lemma validate_loop_keeps: "e \<in> set errs \<Longrightarrow> e \<in> set (validate_loop G E c names errs ms)"
proof (induction names arbitrary: errs ms)
  case (Cons n names)
  then show ?case
    by (cases "n \<in> set predefinedGroups"; cases "validateAsCustom G E n (group_of c n) ms")
      (auto simp: Let_def split: option.splits)
qed simp

lemma validate_loop_iff:
  assumes "golibs_ok G"
  shows "(\<forall>e \<in> set (validate_loop G E c names errs ms). e = None) \<longleftrightarrow> (\<forall>e \<in> set errs. e = None) \<and>
      (\<forall>n \<in> set names. \<exists>x. group_of c n = Some x \<and> valid_group G E n x) \<and>
      distinct (custom_keys c names) \<and> set (custom_keys c names) \<inter> dom ms = {}"
proof (induction names arbitrary: errs ms)
  case Nil
  then show ?case by (simp add: custom_keys_def)
next
  case (Cons n names)
  obtain err ms1 where v: "(if n \<in> set predefinedGroups then (validateAsPredefined G E n (group_of c n), ms)
            else validateAsCustom G E n (group_of c n) ms) = (err, ms1)"
    by (cases "(if n \<in> set predefinedGroups then (validateAsPredefined G E n (group_of c n), ms)
            else validateAsCustom G E n (group_of c n) ms)")
  let ?ks = "custom_keys c [n]"
  have ks: "custom_keys c (n # names) = ?ks @ custom_keys c names" by (simp add: custom_keys_def)
  have e: "(err = None \<longleftrightarrow> (\<exists>x. group_of c n = Some x \<and> valid_group G E n x) \<and> distinct ?ks \<and> set ?ks \<inter> dom ms = {})
      \<and> (err = None \<longrightarrow> dom ms1 = dom ms \<union> set ?ks)"
  proof (cases "n \<in> set predefinedGroups")
    case True
    with v validateAsPredefined_iff [OF assms True] show ?thesis by (auto simp: custom_keys_def)
  next
    case False
    with v have "validateAsCustom G E n (group_of c n) ms = (err, ms1)" by simp
    from validateAsCustom_iff [OF assms False this] False show ?thesis by (auto simp: custom_keys_def)
  qed
  show ?case
  proof (cases err)
    case None
    have l: "validate_loop G E c (n # names) errs ms = validate_loop G E c names errs ms1"
      using v None by (simp add: Let_def)
    have k: "set ?ks \<inter> dom ms = {}" "distinct ?ks" "dom ms1 = dom ms \<union> set ?ks"
      "\<exists>x. group_of c n = Some x \<and> valid_group G E n x" using e None by simp_all
    have "(\<forall>e \<in> set (validate_loop G E c names errs ms1). e = None) \<longleftrightarrow> (\<forall>e \<in> set errs. e = None) \<and>
      (\<forall>n \<in> set names. \<exists>x. group_of c n = Some x \<and> valid_group G E n x) \<and>
      (set ?ks \<inter> set (custom_keys c names) = {} \<and> distinct (custom_keys c names)) \<and>
      (set ?ks \<union> set (custom_keys c names)) \<inter> dom ms = {}"
      by (rule conjunct1 [OF round_keys [OF Cons.IH [of errs ms1, unfolded k(3)] impI [OF refl] k(1)]])
    then show ?thesis unfolding l ks using k(2,4) by simp blast
  next
    case (Some x)
    then have "\<not> (\<forall>e \<in> set (validate_loop G E c (n # names) errs ms). e = None)"
      using v validate_loop_keeps [of "Some (EWrap (MsgQ ''group'' n) x)" "errs @ [Some (EWrap (MsgQ ''group'' n) x)]" G E c names ms1]
      by (auto simp: Let_def)
    moreover have "\<not> ((\<forall>n \<in> set (n # names). \<exists>x. group_of c n = Some x \<and> valid_group G E n x) \<and>
      distinct (custom_keys c (n # names)) \<and> set (custom_keys c (n # names)) \<inter> dom ms = {})"
      (is "\<not> (?v \<and> ?d \<and> ?i)")
    proof
      assume *: "?v \<and> ?d \<and> ?i"
      then have "set ?ks \<inter> dom ms = {}" unfolding ks by auto
      with * e Some show False unfolding ks by simp
    qed
    ultimately show ?thesis by blast
  qed
qed

lemma custom_keys_perm: "mset xs = mset ys \<Longrightarrow> mset (custom_keys c xs) = mset (custom_keys c ys)"
  by (simp only: custom_keys_def mset_concat mset_map mset_filter sum_mset_sum_list [symmetric])

lemma group_of_Some: "distinct (map fst c) \<Longrightarrow> (n, g) \<in> set c \<Longrightarrow> group_of c n = g"
  by (simp add: group_of_def)

lemma groups_Validate_iff:
  assumes "golibs_ok G" "\<forall>gs. c = Some gs \<longrightarrow> distinct (map fst gs)"
  shows "groups_Validate G E c = None \<longleftrightarrow> (\<exists>gs. c = Some gs \<and> valid_groups G E gs)"
proof (cases c)
  case (Some gs)
  then have d: "distinct (map fst gs)" using assms(2) by simp
  have s: "mset (sort (map fst gs)) = mset (map fst gs)" by simp
  have k: "distinct (custom_keys gs (sort (map fst gs))) \<longleftrightarrow> distinct (custom_keys gs (map fst gs))"
    by (rule mset_eq_imp_distinct_iff [OF custom_keys_perm [OF s]])
  have all: "(\<forall>n \<in> set (sort (map fst gs)). \<exists>x. group_of gs n = Some x \<and> valid_group G E n x) \<longleftrightarrow>
      (\<forall>(n, g) \<in> set gs. \<exists>x. g = Some x \<and> valid_group G E n x)"
    using group_of_Some [OF d] by fastforce
  have req: "map_of gs UpstreamGroupNameDefault = None \<longleftrightarrow> UpstreamGroupNameDefault \<notin> fst ` set gs"
    by (rule map_of_eq_None_iff)
  show ?thesis
    using Some k all req
    by (auto simp: groups_Validate_def validateGroups_def validate_loop_iff [OF assms(1)] valid_groups_def
        requiredGroups_def List.map_filter_def Let_def split: option.splits)
qed (simp add: groups_Validate_def)

lemma upstream_Validate_iff:
  assumes "golibs_ok G" "\<forall>u gs. c = Some u \<longrightarrow> us_Groups u = Some gs \<longrightarrow> distinct (map fst gs)"
  shows "upstream_Validate G E c = None \<longleftrightarrow> (\<exists>u. c = Some u \<and> valid_upstream G E u)"
proof (cases c)
  case (Some u)
  have "groups_Validate G E (us_Groups u) = None \<longleftrightarrow> (\<exists>gs. us_Groups u = Some gs \<and> valid_groups G E gs)"
    using Some assms(2) by (intro groups_Validate_iff [OF assms(1)]) auto
  with Some show ?thesis
    using golibs_okD(2) [OF assms(1)] by (auto simp: upstream_Validate_def valid_upstream_def Let_def)
qed (simp add: upstream_Validate_def)

lemmas part_iffs = cache_Validate_iff server_Validate_iff bootstrap_Validate_iff fallback_Validate_iff
  log_Validate_iff debug_Validate_iff

lemma dns_Validate_iff:
  assumes "golibs_ok G" "\<forall>d u gs. c = Some d \<longrightarrow> Upstream d = Some u \<longrightarrow> us_Groups u = Some gs \<longrightarrow> distinct (map fst gs)"
  shows "dns_Validate G E c = None \<longleftrightarrow> (\<exists>d. c = Some d \<and> valid_dns G E d)"
proof (cases c)
  case (Some d)
  have "upstream_Validate G E (Upstream d) = None \<longleftrightarrow> (\<exists>u. Upstream d = Some u \<and> valid_upstream G E u)"
    using Some assms(2) by (intro upstream_Validate_iff [OF assms(1)]) auto
  with Some show ?thesis
    using golibs_okD(2) [OF assms(1)] by (simp add: dns_Validate_def valid_dns_def Let_def part_iffs)
qed (simp add: dns_Validate_def)

lemma conf_Validate_valid:
  assumes "golibs_ok G" "groups_map c"
  shows "conf_Validate G E (Some c) = None \<longleftrightarrow> valid_conf G E c"
proof -
  have "dns_Validate G E (DNS c) = None \<longleftrightarrow> (\<exists>d. DNS c = Some d \<and> valid_dns G E d)"
    using assms(2) by (intro dns_Validate_iff [OF assms(1)]) (auto simp: groups_map_def)
  then show ?thesis
    using golibs_okD(2) [OF assms(1)] by (auto simp: conf_Validate_def valid_conf_def Let_def part_iffs)
qed

section \<open>A concrete configuration\<close>

text \<open>A URL is split at the first \<open>://\<close>; every format is known.\<close>

definition ref_conf_env :: conf_env where
  "ref_conf_env = \<lparr>
     url_Parse = (\<lambda>s. case str_index ''://'' s of
         None \<Rightarrow> Inl (ErrOther ''no scheme'')
       | Some i \<Rightarrow> Inr \<lparr>Scheme = to_lower (take i s), Host = drop (i + 3) s, Path = [], url_rest = []\<rparr>),
     NewFormat = Inr\<rparr>"

definition demo_group :: "string \<Rightarrow> autodeviceConfig \<Rightarrow> upstreamMatchConfig option list \<Rightarrow> upstreamGroupConfig option" where
  "demo_group address auto ms = Some \<lparr>ug_Address = address, ug_Autodevice = Some auto, ug_Match = ms\<rparr>"

definition no_autodevice :: autodeviceConfig where
  "no_autodevice = \<lparr>adc_ProfileID = [], adc_DeviceType = [], adc_Enabled = False\<rparr>"

text \<open>The criteria of the group \<open>lan\<close> are those of the group \<open>vpn\<close>, or others.\<close>

definition demo_groups :: "string \<Rightarrow> upstreamGroupsConfig" where
  "demo_groups domain =
     [(''vpn'', demo_group ''https://dns.vpn'' \<lparr>adc_ProfileID = ''abcd1234'', adc_DeviceType = ''lnx'', adc_Enabled = True\<rparr>
        [Some \<lparr>um_Client = P4 0x0A000000 8, um_QuestionDomain = ''Example.org''\<rparr>]),
      (''default'', demo_group ''1.1.1.1'' no_autodevice []),
      (''lan'', demo_group ''192.168.0.1'' no_autodevice
        [Some \<lparr>um_Client = PZero, um_QuestionDomain = ''lan''\<rparr>, Some \<lparr>um_Client = P4 0x0A000000 8, um_QuestionDomain = domain\<rparr>])]"

definition demo_dns :: "upstreamGroupsConfig \<Rightarrow> dnsConfig" where
  "demo_dns gs = \<lparr>
     Cache = Some \<lparr>cc_Enabled = True, cc_Size = 0x8000000, cc_ClientSize = 0x400000\<rparr>,
     Server = Some \<lparr>BindRetry = Some \<lparr>brc_Enabled = False, brc_Interval = 0, brc_Count = 0\<rparr>,
       PendingRequests = Some \<lparr>prc_Enabled = True\<rparr>, ListenAddresses = [Some \<lparr>ip_Address = (A4 0x7F000001, 53)\<rparr>]\<rparr>,
     Bootstrap = Some \<lparr>bs_Servers = [Some \<lparr>ip_Address = (A4 0x0909090A, 53)\<rparr>], bs_Timeout = 2000000000\<rparr>,
     Upstream = Some \<lparr>us_Groups = Some gs, us_Timeout = 2000000000\<rparr>,
     Fallback = Some \<lparr>fbc_Servers = [Some \<lparr>url_Address = ''tls://dns''\<rparr>], fbc_Timeout = 2000000000\<rparr>\<rparr>"

definition demo_configuration :: "upstreamGroupsConfig \<Rightarrow> configuration" where
  "demo_configuration gs = \<lparr>DNS = Some (demo_dns gs),
     Debug = Some \<lparr>Pprof = Some \<lparr>pp_Port = 6060, pp_Enabled = False\<rparr>\<rparr>,
     Log = Some \<lparr>lc_Output = ''syslog'', lc_Format = ''default'', lc_Timestamp = False, lc_Verbose = False\<rparr>,
     SchemaVersion = 4\<rparr>"

lemma demo_groups_map: "groups_map (demo_configuration (demo_groups domain))"
  by (simp add: groups_map_def demo_configuration_def demo_dns_def demo_groups_def)

lemmas demo_conf_defs = demo_configuration_def demo_dns_def demo_groups_def demo_group_def no_autodevice_def

lemma demo_valid:
  "valid_groups ref_golibs ref_conf_env (demo_groups ''corp'')"
  "valid_conf ref_golibs ref_conf_env (demo_configuration (demo_groups ''corp''))"
proof -
  have e: "valid_profile_id ''abcd1234''" by code_simp
  have l: "to_lower ''Example.org'' = ''example.org''" "to_lower ''lan'' = ''lan''" "to_lower ''corp'' = ''corp''"
    by code_simp+
  have u: "valid_template ref_conf_env ''https://dns.vpn''" by code_simp
  have d: "non_fqdn ''Example.org''" "non_fqdn ''lan''" "non_fqdn ''corp''" by code_simp+
  have p: "masked (P4 0x0A000000 8) = P4 0x0A000000 8" by code_simp
  show g: "valid_groups ref_golibs ref_conf_env (demo_groups ''corp'')"
    using e u d p
    by (simp add: valid_groups_def demo_conf_defs group_names valid_group_def valid_autodevice_def deviceTypes_def
        predefinedGroups_def valid_match_def custom_keys_def group_of_def group_keys_def toIndexedMatch_def l
        ref_golibs_def del: masked.simps(2,3))
  show "valid_conf ref_golibs ref_conf_env (demo_configuration (demo_groups ''corp''))"
    using g by (simp add: valid_conf_def demo_configuration_def demo_dns_def valid_dns_def valid_cache_def MaxInt_def
        valid_server_def valid_ipPort_def valid_bootstrap_def valid_upstream_def valid_fallback_def valid_log_def
        output_defs ref_conf_env_def)
qed

lemma demo_invalid: "\<not> valid_conf ref_golibs ref_conf_env (demo_configuration (demo_groups ''EXAMPLE.org''))"
proof -
  have l: "to_lower ''Example.org'' = ''example.org''" "to_lower ''EXAMPLE.org'' = ''example.org''"
    by code_simp+
  have "\<not> distinct (custom_keys (demo_groups ''EXAMPLE.org'') (map fst (demo_groups ''EXAMPLE.org'')))"
    by (simp add: demo_conf_defs group_names predefinedGroups_def custom_keys_def group_of_def group_keys_def
        toIndexedMatch_def l)
  then show ?thesis
    by (simp add: valid_conf_def valid_dns_def valid_upstream_def valid_groups_def demo_configuration_def demo_dns_def)
qed

section \<open>Properties\<close>

text \<open>
  C7: Validation returns no error exactly for the valid configurations: every section is present, the
  times are positive, the sizes of an enabled cache fit an \<open>int\<close>, the default group exists, every group
  has an address (a template of a supported scheme if it creates devices), predefined groups have no
  criteria, and no two criteria of any groups have the same prefix and the same domain up to case.
\<close>

lemma Validate_exact:
  assumes "golibs_ok G" "groups_map c"
  shows "conf_Validate G E (Some c) = None \<longleftrightarrow> valid_conf G E c"
  by (rule conf_Validate_valid [OF assms])

lemma Validate_exact_witness:
  "conf_Validate ref_golibs ref_conf_env (Some (demo_configuration (demo_groups ''corp''))) = None \<and>
   conf_Validate ref_golibs ref_conf_env (Some (demo_configuration (demo_groups ''EXAMPLE.org''))) \<noteq> None"
  using Validate_exact [OF ref_golibs_ok demo_groups_map] demo_valid(2) demo_invalid by blast

text \<open>
  The conversion of the sizes of a validated cache to \<open>int\<close> does not overflow: it is the
  configured number of bytes, and positive.
\<close>

lemma cache_sizes_exact:
  assumes "validate_ok G" "cache_Validate G (Some c) = None" "cc_Enabled c"
  shows "cache_toInternal c = \<lparr>cch_Enabled = True, cch_Size = uint (cc_Size c)\<rparr> \<and> 0 < uint (cc_Size c) \<and>
    go_int (cc_ClientSize c) = uint (cc_ClientSize c) \<and> 0 < uint (cc_ClientSize c)"
proof -
  have v: "valid_cache c" using assms(1,2) cache_Validate_iff by blast
  have s: "sint w = uint w" if "uint w \<le> MaxInt" for w :: "64 word"
    using that by (simp add: sint_uint MaxInt_def) (rule signed_take_bit_int_eq_self, auto intro: order_trans [OF _ uint_ge_0])
  show ?thesis using v assms(3) s by (auto simp: valid_cache_def cache_toInternal_def go_int_def)
qed

lemma cache_sizes_exact_witness:
  "cache_toInternal \<lparr>cc_Enabled = True, cc_Size = 0x8000000, cc_ClientSize = 0x400000\<rparr> = \<lparr>cch_Enabled = True, cch_Size = 134217728\<rparr>"
proof -
  let ?c = "\<lparr>cc_Enabled = True, cc_Size = 0x8000000, cc_ClientSize = 0x400000\<rparr>"
  have "cache_Validate ref_golibs (Some ?c) = None"
    using golibs_okD(2) [OF ref_golibs_ok] by (simp add: cache_Validate_iff valid_cache_def MaxInt_def)
  from cache_sizes_exact [OF golibs_okD(2) [OF ref_golibs_ok] this] show ?thesis by simp
qed

end
