(* ===== verification/CmdUpstreams.thy ===== *)
theory CmdUpstreams
  imports CmdValid
begin

text \<open>
  \<open>internal/cmd\<close>: the upstreams and the storage that are built from a configuration (the second half
  of \<open>upstream.go\<close>, \<open>clientstorage.go\<close>, \<open>bootstrap.go\<close>).  The maps that the code fills are a state
  that is passed on; reading through a nil pointer panics (\<open>None\<close>).  The constructors of \<open>dnsproxy\<close>
  are parameters.  The loggers of the options are left out.
\<close>

section \<open>Upstreams\<close>

text \<open>\<open>upstream.Options\<close>; a bootstrap resolver is a list of resolvers that are asked in order.\<close>

record 'r ups_options =
  op_Timeout :: int
  op_Bootstrap :: "'r list option"

type_synonym 'u static_map = "(prefix \<times> (string \<times> 'u list) list) list"

type_synonym 'r auto_map = "(prefix \<times> (string \<times> 'r ups_options autodev_conf) list) list"

text \<open>The arguments that \<open>newUpstreams\<close> fills; of \<open>proxy.UpstreamConfig\<close> it sets \<open>Upstreams\<close> only.\<close>

record ('u, 'r) ups_maps =
  generalUps :: "'u list"
  privateUps :: "'u list"
  staticUps :: "'u static_map"
  autodeviceUps :: "'r auto_map"

type_synonym ('r, 'u, 'cc) cmd_ups_env = "('r ups_options, 'u, 'cc) ups_env"

text \<open>Reading a map of maps: a missing key reads as a nil map.\<close>

definition inner_map :: "('k \<times> ('d \<times> 'v) list) list \<Rightarrow> 'k \<Rightarrow> ('d \<times> 'v) list" where
  "inner_map m k = (case map_of m k of Some c \<Rightarrow> c | None \<Rightarrow> [])"

definition put_inner :: "'k \<Rightarrow> 'd \<Rightarrow> 'v \<Rightarrow> ('k \<times> ('d \<times> 'v) list) list \<Rightarrow> ('k \<times> ('d \<times> 'v) list) list" where
  "put_inner k d v m = AList.update k (AList.update d v (inner_map m k)) m"

definition device_conf :: "url \<Rightarrow> autodeviceConfig \<Rightarrow> 'r ups_options \<Rightarrow> 'r ups_options autodev_conf" where
  "device_conf upsTmpl a opts = \<lparr>UpstreamTemplate = upsTmpl, Options = opts,
     DeviceType = adc_DeviceType a, ProfileID = adc_ProfileID a\<rparr>"

definition addDefaultGroup ::
  "conf_env \<Rightarrow> ('r, 'u, 'cc) cmd_ups_env \<Rightarrow> upstreamGroupConfig \<Rightarrow> 'r ups_options \<Rightarrow> ('u, 'r) ups_maps
     \<Rightarrow> (goerr option \<times> ('u, 'r) ups_maps) option" where
  "addDefaultGroup E U c opts st =
     (case ug_Autodevice c of
        None \<Rightarrow> None
      | Some a \<Rightarrow>
          let add = (\<lambda>st. case AddressToUpstream U (ug_Address c) opts of
                Inl err \<Rightarrow> (Some err, st)
              | Inr u \<Rightarrow> (None, st\<lparr>generalUps := generalUps st @ [u]\<rparr>))
          in Some (if adc_Enabled a then
                let cliConf = inner_map (autodeviceUps st) PZero;
                    st = st\<lparr>autodeviceUps := AList.update PZero cliConf (autodeviceUps st)\<rparr>
                in case url_Parse E (ug_Address c) of
                     Inl err \<Rightarrow> (Some (EWrap (Msg ''address'') err), st)
                   | Inr upsTmpl \<Rightarrow>
                       add (st\<lparr>autodeviceUps := put_inner PZero [] (device_conf upsTmpl a opts) (autodeviceUps st)\<rparr>)
              else add st))"

definition addPrivateGroup ::
  "('r, 'u, 'cc) cmd_ups_env \<Rightarrow> upstreamGroupConfig \<Rightarrow> 'r ups_options \<Rightarrow> ('u, 'r) ups_maps
     \<Rightarrow> goerr option \<times> ('u, 'r) ups_maps" where
  "addPrivateGroup U c opts st =
     (case AddressToUpstream U (ug_Address c) opts of
        Inl err \<Rightarrow> (Some err, st)
      | Inr u \<Rightarrow> (None, st\<lparr>privateUps := privateUps st @ [u]\<rparr>))"

fun autodevice_loop ::
  "'r ups_options autodev_conf \<Rightarrow> nat \<Rightarrow> upstreamMatchConfig option list \<Rightarrow> 'r auto_map
     \<Rightarrow> (goerr option \<times> 'r auto_map) option" where
  "autodevice_loop conf i [] ups = Some (None, ups)"
| "autodevice_loop conf i (None # ms) ups = None"
| "autodevice_loop conf i (Some m # ms) ups =
     (let pref = um_Client m; domain = to_lower (um_QuestionDomain m) in
      if map_of (inner_map ups pref) domain \<noteq> None
      then Some (Some (EWrap (MsgAt ''match: at index'' i) ErrDuplicated), ups)
      else autodevice_loop conf (Suc i) ms (put_inner pref domain conf ups))"

definition addAutodeviceGroup ::
  "conf_env \<Rightarrow> upstreamGroupConfig \<Rightarrow> autodeviceConfig \<Rightarrow> 'r ups_options \<Rightarrow> ('u, 'r) ups_maps
     \<Rightarrow> (goerr option \<times> ('u, 'r) ups_maps) option" where
  "addAutodeviceGroup E c a opts st =
     (case url_Parse E (ug_Address c) of
        Inl err \<Rightarrow> Some (Some (EWrap (Msg ''address'') err), st)
      | Inr upsTmpl \<Rightarrow>
          map_option (\<lambda>(err, ups). (err, st\<lparr>autodeviceUps := ups\<rparr>))
            (autodevice_loop (device_conf upsTmpl a opts) 0 (ug_Match c) (autodeviceUps st)))"

fun common_loop ::
  "('r, 'u, 'cc) cmd_ups_env \<Rightarrow> string \<Rightarrow> 'r ups_options \<Rightarrow> nat \<Rightarrow> upstreamMatchConfig option list \<Rightarrow> 'u static_map
     \<Rightarrow> (goerr option \<times> 'u static_map) option" where
  "common_loop U address opts i [] ups = Some (None, ups)"
| "common_loop U address opts i (m # ms) ups =
     (case AddressToUpstream U address opts of
        Inl err \<Rightarrow> Some (Some (EWrap (MsgAt ''match: at index'' i) (EWrap (Msg ''address'') err)), ups)
      | Inr u \<Rightarrow>
          (case m of
             None \<Rightarrow> None
           | Some m \<Rightarrow>
               let pref = um_Client m; domain = to_lower (um_QuestionDomain m) in
               if map_of (inner_map ups pref) domain \<noteq> None
               then Some (Some (EWrap (MsgAt ''match: at index'' i) ErrDuplicated), ups)
               else common_loop U address opts (Suc i) ms (put_inner pref domain [u] ups)))"

definition addCommonGroup ::
  "('r, 'u, 'cc) cmd_ups_env \<Rightarrow> upstreamGroupConfig \<Rightarrow> 'r ups_options \<Rightarrow> ('u, 'r) ups_maps
     \<Rightarrow> (goerr option \<times> ('u, 'r) ups_maps) option" where
  "addCommonGroup U c opts st =
     map_option (\<lambda>(err, ups). (err, st\<lparr>staticUps := ups\<rparr>))
       (common_loop U (ug_Address c) opts 0 (ug_Match c) (staticUps st))"

text \<open>The \<open>switch\<close> of \<open>newUpstreams\<close> for one group.\<close>

definition addGroup ::
  "conf_env \<Rightarrow> ('r, 'u, 'cc) cmd_ups_env \<Rightarrow> group_name \<Rightarrow> upstreamGroupConfig option \<Rightarrow> 'r ups_options
     \<Rightarrow> ('u, 'r) ups_maps \<Rightarrow> (goerr option \<times> ('u, 'r) ups_maps) option" where
  "addGroup E U name g opts st =
     (case g of
        None \<Rightarrow> None
      | Some g \<Rightarrow>
          if name = UpstreamGroupNameDefault then addDefaultGroup E U g opts st
          else if name = UpstreamGroupNamePrivate then Some (addPrivateGroup U g opts st)
          else (case ug_Autodevice g of
             None \<Rightarrow> None
           | Some a \<Rightarrow> if adc_Enabled a then addAutodeviceGroup E g a opts st else addCommonGroup U g opts st))"

fun groups_add ::
  "conf_env \<Rightarrow> ('r, 'u, 'cc) cmd_ups_env \<Rightarrow> upstreamGroupsConfig \<Rightarrow> 'r ups_options \<Rightarrow> group_name list
     \<Rightarrow> goerr option list \<Rightarrow> ('u, 'r) ups_maps \<Rightarrow> (goerr option list \<times> ('u, 'r) ups_maps) option" where
  "groups_add E U c opts [] errs st = Some (errs, st)"
| "groups_add E U c opts (name # names) errs st =
     (case addGroup E U name (group_of c name) opts st of
        None \<Rightarrow> None
      | Some (Some err, st) \<Rightarrow> groups_add E U c opts names (errs @ [Some (EWrap (MsgQ ''group'' name) err)]) st
      | Some (None, st) \<Rightarrow> groups_add E U c opts names errs st)"

text \<open>Ranging over a nil map does nothing.\<close>

definition newUpstreams ::
  "golibs \<Rightarrow> conf_env \<Rightarrow> ('r, 'u, 'cc) cmd_ups_env \<Rightarrow> upstreamConfig \<Rightarrow> 'r list \<Rightarrow> ('u, 'r) ups_maps
     \<Rightarrow> (goerr option \<times> ('u, 'r) ups_maps) option" where
  "newUpstreams G E U conf boot st =
     (let gs = (case us_Groups conf of Some gs \<Rightarrow> gs | None \<Rightarrow> []);
          opts = \<lparr>op_Timeout = us_Timeout conf, op_Bootstrap = Some boot\<rparr>
      in map_option (\<lambda>(errs, st). (annotate G (Msg ''creating upstreams'') (errors_join errs), st))
           (groups_add E U gs opts (sort (map fst gs)) [] st))"

section \<open>Bootstrap resolvers\<close>

record 'r boot_env =
  addr_port_String :: "addr_port \<Rightarrow> string"
  NewUpstreamResolver :: "string \<Rightarrow> 'r ups_options \<Rightarrow> goerr + 'r"
  CloseResolver :: "'r \<Rightarrow> goerr option"

text \<open>
  The loop of \<open>newResolvers\<close>: a failed server is skipped.  Each resolver is wrapped with a cache,
  which the model leaves out, and its upstream is closed on shutdown.
\<close>

fun resolvers_loop ::
  "'r boot_env \<Rightarrow> 'r ups_options \<Rightarrow> nat \<Rightarrow> ipPortConfig option list \<Rightarrow> goerr option list \<Rightarrow> 'r list \<Rightarrow> 'r list
     \<Rightarrow> ('r list \<times> 'r list \<times> goerr option list) option" where
  "resolvers_loop B opts i [] errs resolvers cls = Some (resolvers, cls, errs)"
| "resolvers_loop B opts i (None # ps) errs resolvers cls = None"
| "resolvers_loop B opts i (Some p # ps) errs resolvers cls =
     (case NewUpstreamResolver B (addr_port_String B (ip_Address p)) opts of
        Inl err \<Rightarrow> resolvers_loop B opts (Suc i) ps (errs @ [Some (EWrap (MsgAt ''resolvers: at index'' i) err)]) resolvers cls
      | Inr b \<Rightarrow> resolvers_loop B opts (Suc i) ps errs (resolvers @ [b]) (cls @ [b]))"

definition newResolvers ::
  "golibs \<Rightarrow> 'r boot_env \<Rightarrow> bootstrapConfig \<Rightarrow> ('r list \<times> 'r list \<times> goerr option) option" where
  "newResolvers G B conf =
     map_option (\<lambda>(resolvers, cls, errs). (resolvers, cls, annotate G (Msg ''creating bootstraps'') (errors_join errs)))
       (resolvers_loop B \<lparr>op_Timeout = bs_Timeout conf, op_Bootstrap = None\<rparr> 0 (bs_Servers conf) [] [] [])"

fun closers_loop :: "'r boot_env \<Rightarrow> nat \<Rightarrow> 'r list \<Rightarrow> goerr option list \<Rightarrow> goerr option list" where
  "closers_loop B i [] errs = errs"
| "closers_loop B i (c # cl) errs =
     (case CloseResolver B c of
        Some err \<Rightarrow> closers_loop B (Suc i) cl (errs @ [Some (EWrap (MsgAt ''closing bootstrap at index'' i) err)])
      | None \<Rightarrow> closers_loop B (Suc i) cl errs)"

definition closers_Shutdown :: "'r boot_env \<Rightarrow> 'r list \<Rightarrow> goerr option" where
  "closers_Shutdown B cl = errors_join (closers_loop B 0 cl [])"

section \<open>The storage of clients\<close>

definition minute :: int where "minute = 60 * second"

definition defaultClientCleanupIvl :: int where "defaultClientCleanupIvl = 5 * minute"

definition defaultClientValidityIvl :: int where "defaultClientValidityIvl = 60 * minute"

type_synonym 'cc static_clients = "(prefix \<times> (string \<times> 'cc client) list) list"

definition addStaticClient ::
  "('r, 'u, 'cc) cmd_ups_env \<Rightarrow> prefix \<Rightarrow> string \<Rightarrow> 'u list \<Rightarrow> cacheConfig \<Rightarrow> 'cc static_clients \<Rightarrow> 'cc static_clients" where
  "addStaticClient U pref domain conf c cs =
     (let upsConf = NewCustomUpstreamConfig U conf (cc_Enabled c) (go_int (cc_ClientSize c)) False
      in put_inner pref domain (StaticClient upsConf) cs)"

text \<open>The loops over the sorted prefixes and over the sorted domains of each.\<close>

definition newStaticClients ::
  "('r, 'u, 'cc) cmd_ups_env \<Rightarrow> 'u static_map \<Rightarrow> cacheConfig \<Rightarrow> 'cc static_clients" where
  "newStaticClients U upsConfs c =
     fold (\<lambda>pref clients.
         fold (\<lambda>domain clients. addStaticClient U pref domain (the (map_of (inner_map upsConfs pref) domain)) c clients)
           (sort (map fst (inner_map upsConfs pref))) clients)
       (sort_stable prefix_compare (map fst upsConfs)) []"

text \<open>\<open>newHumanIDSource\<close>: the network of reverse DNS is that of the private upstreams.\<close>

definition newHumanIDSource ::
  "golibs \<Rightarrow> 'c gocache \<Rightarrow> ('u list \<Rightarrow> dns_net) \<Rightarrow> 'u list \<Rightarrow> 'c rdns identify_fn" where
  "newHumanIDSource G C N private =
     (let defaultSrc = NewDefaultHumanIDSource \<lparr>hc_ValidityIvl = defaultClientValidityIvl\<rparr> in
      if length private = 0 then default_identify (hs_validityIvl defaultSrc)
      else consequent_identify [rdns_identify G C (N private), default_identify (hs_validityIvl defaultSrc)])"

definition storage_config ::
  "('r, 'u, 'cc) cmd_ups_env \<Rightarrow> 'u static_map \<Rightarrow> 'r auto_map \<Rightarrow> cacheConfig \<Rightarrow> ('r ups_options, 'cc) storage_conf" where
  "storage_config U statics autos cacheConf =
     \<lparr>Static = newStaticClients U statics cacheConf, Autodevice = autos,
      CacheEnabled = cc_Enabled cacheConf, CacheSize = go_int (cc_ClientSize cacheConf)\<rparr>"

text \<open>
  \<open>newClientStorage\<close>: the storage, with the empty cache \<open>c0\<close> for a source that needs one, and the
  source that its operations ask.
\<close>

definition newClientStorage ::
  "golibs \<Rightarrow> 'c gocache \<Rightarrow> ('u list \<Rightarrow> dns_net) \<Rightarrow> 'c \<Rightarrow> ('r, 'u, 'cc) cmd_ups_env \<Rightarrow> 'u list \<Rightarrow> 'u static_map
     \<Rightarrow> 'r auto_map \<Rightarrow> cacheConfig \<Rightarrow> 'c rdns identify_fn \<times> ('r ups_options, 'cc, 'c rdns) storage" where
  "newClientStorage G C N c0 U private statics autos cacheConf =
     (let humanIDSrc = (if 0 < length autos then newHumanIDSource G C N private else empty_identify)
      in (humanIDSrc, NewDefaultStorage (storage_config U statics autos cacheConf) (NewRDNSIDSource c0)))"

end
