(* ===== verification/CmdBuild.thy ===== *)
theory CmdBuild
  imports CmdUpstreams
begin

text \<open>
  What is built from a valid configuration: the upstreams of every group under its criteria, and a
  storage that meets what its package asks for.
\<close>

section \<open>Maps of maps\<close>

text \<open>The value at a domain and a prefix.\<close>

definition lookup :: "(prefix \<times> (string \<times> 'v) list) list \<Rightarrow> indexedMatch \<Rightarrow> 'v option" where
  "lookup m k = map_of (inner_map m (snd k)) (fst k)"

lemma lookup_Nil [simp]: "lookup [] k = None"
  by (simp add: lookup_def inner_map_def)

lemma inner_map_put: "inner_map (put_inner p d v m) q = (if q = p then AList.update d v (inner_map m p) else inner_map m q)"
  by (simp add: inner_map_def put_inner_def map_of_update)

lemma lookup_put: "lookup (put_inner p d v m) k = (if k = (d, p) then Some v else lookup m k)"
  by (cases k) (auto simp: lookup_def inner_map_put map_of_update)

lemma map_wf_inner: "map_wf m \<Longrightarrow> distinct (map fst (inner_map m p)) \<and> (\<forall>d \<in> fst ` set (inner_map m p). non_fqdn d)"
  by (cases "map_of m p") (auto simp: map_wf_def inner_map_def dest!: map_of_SomeD)

lemma set_AList_update: "(a, b) \<in> set (AList.update k v m) \<Longrightarrow> (a = k \<and> b = v) \<or> (a, b) \<in> set m"
  by (induction m) (auto split: if_splits)

lemma map_wf_put:
  assumes "map_wf m" "non_fqdn d"
  shows "map_wf (put_inner p d v m)"
proof -
  have i: "distinct (map fst (AList.update d v (inner_map m p)))"
    "\<forall>e \<in> fst ` set (AList.update d v (inner_map m p)). non_fqdn e"
    using map_wf_inner [OF assms(1), of p] assms(2)
    by (simp add: distinct_update) (use map_wf_inner [OF assms(1), of p] assms(2) in \<open>auto simp: dom_update\<close>)
  have "distinct (map fst (put_inner p d v m))"
    using assms(1) by (simp add: map_wf_def put_inner_def distinct_update)
  moreover have "distinct (map fst conf) \<and> (\<forall>e \<in> fst ` set conf. non_fqdn e)"
    if "(q, conf) \<in> set (put_inner p d v m)" for q conf
    using set_AList_update [OF that [unfolded put_inner_def]] i assms(1) by (auto simp: map_wf_def)
  ultimately show ?thesis by (auto simp: map_wf_def)
qed

text \<open>The maps are well formed, and no prefix has an empty map.\<close>

definition map_ok :: "(prefix \<times> (string \<times> 'v) list) list \<Rightarrow> bool" where
  "map_ok m = (map_wf m \<and> (\<forall>(p, conf) \<in> set m. conf \<noteq> []))"

lemma update_ne: "AList.update k v m \<noteq> []"
  by (cases m) auto

lemma map_ok_put:
  assumes "map_ok m" "non_fqdn d"
  shows "map_ok (put_inner p d v m)"
proof -
  have "conf \<noteq> []" if "(q, conf) \<in> set (put_inner p d v m)" for q conf
    using set_AList_update [OF that [unfolded put_inner_def]] assms(1)
    by (auto simp: map_ok_def update_ne update_ne [THEN not_sym])
  then show ?thesis using assms map_wf_put by (auto simp: map_ok_def)
qed

section \<open>The loops over the criteria\<close>

lemma to_lower_Nil [simp]: "to_lower d = [] \<longleftrightarrow> d = []"
  by (simp add: to_lower_def)

lemma split_on_lower: "split_on dot (to_lower d) = map to_lower (split_on dot d)"
  by (induction d) (auto simp: to_lower_def lower_char_dot split: list.splits)

lemma valid_match_non_fqdn:
  assumes "netutil_ok G" "valid_match G m"
  shows "non_fqdn (to_lower (um_QuestionDomain m))"
proof (cases "um_QuestionDomain m = []")
  case False
  then have "non_fqdn (um_QuestionDomain m)"
    using assms netutil_simps(3) by (auto simp: valid_match_def)
  then have "[] \<notin> set (split_on dot (um_QuestionDomain m))" using False by (simp add: non_fqdn_def)
  then have "[] \<notin> to_lower ` set (split_on dot (um_QuestionDomain m))" by (metis image_iff to_lower_Nil)
  then show ?thesis by (simp add: non_fqdn_def split_on_lower)
qed (simp add: non_fqdn_def to_lower_def)

text \<open>The keys of a list of criteria, as the validation collects them.\<close>

abbreviation keys_of :: "upstreamMatchConfig option list \<Rightarrow> indexedMatch list" where
  "keys_of ms \<equiv> map (\<lambda>m. toIndexedMatch (the m)) ms"

abbreviation valid_matches :: "golibs \<Rightarrow> upstreamMatchConfig option list \<Rightarrow> bool" where
  "valid_matches G ms \<equiv> \<forall>m \<in> set ms. \<exists>x. m = Some x \<and> valid_match G x"

lemma autodevice_loop_valid:
  assumes "netutil_ok G" "valid_matches G ms" "distinct (keys_of ms)" "\<forall>k \<in> set (keys_of ms). lookup ups k = None"
  shows "\<exists>ups'. autodevice_loop conf i ms ups = Some (None, ups') \<and>
    (\<forall>k. lookup ups' k = (if k \<in> set (keys_of ms) then Some conf else lookup ups k)) \<and> (map_ok ups \<longrightarrow> map_ok ups')"
  using assms(2-)
proof (induction ms arbitrary: i ups)
  case (Cons m ms)
  then obtain x where x: "m = Some x" "valid_match G x" by auto
  let ?ups = "put_inner (um_Client x) (to_lower (um_QuestionDomain x)) conf ups"
  have "lookup ups (toIndexedMatch x) = None" using Cons.prems(3) x(1) by simp
  then have e: "autodevice_loop conf i (m # ms) ups = autodevice_loop conf (Suc i) ms ?ups"
    using x(1) by (simp add: lookup_def toIndexedMatch_def Let_def)
  have "\<forall>k \<in> set (keys_of ms). lookup ?ups k = None"
    using Cons.prems(2,3) x(1) by (auto simp: lookup_put toIndexedMatch_def image_iff)
  from Cons.IH [OF _ _ this, of "Suc i"] Cons.prems(1,2) obtain ups' where
    "autodevice_loop conf (Suc i) ms ?ups = Some (None, ups')"
    "\<forall>k. lookup ups' k = (if k \<in> set (keys_of ms) then Some conf else lookup ?ups k)" "map_ok ?ups \<longrightarrow> map_ok ups'"
    by auto
  moreover have "map_ok ups \<longrightarrow> map_ok ?ups"
    by (intro impI map_ok_put valid_match_non_fqdn [OF assms(1) x(2)])
  ultimately show ?case
    using e x(1) by (auto simp: lookup_put toIndexedMatch_def)
qed simp

lemma common_loop_valid:
  assumes "netutil_ok G" "valid_matches G ms" "distinct (keys_of ms)" "\<forall>k \<in> set (keys_of ms). lookup ups k = None"
    "AddressToUpstream U address opts = Inr u"
  shows "\<exists>ups'. common_loop U address opts i ms ups = Some (None, ups') \<and>
    (\<forall>k. lookup ups' k = (if k \<in> set (keys_of ms) then Some [u] else lookup ups k)) \<and> (map_ok ups \<longrightarrow> map_ok ups')"
  using assms(2-4)
proof (induction ms arbitrary: i ups)
  case (Cons m ms)
  then obtain x where x: "m = Some x" "valid_match G x" by auto
  let ?ups = "put_inner (um_Client x) (to_lower (um_QuestionDomain x)) [u] ups"
  have "lookup ups (toIndexedMatch x) = None" using Cons.prems(3) x(1) by simp
  then have e: "common_loop U address opts i (m # ms) ups = common_loop U address opts (Suc i) ms ?ups"
    using x(1) assms(5) by (simp add: lookup_def toIndexedMatch_def Let_def)
  have "\<forall>k \<in> set (keys_of ms). lookup ?ups k = None"
    using Cons.prems(2,3) x(1) by (auto simp: lookup_put toIndexedMatch_def image_iff)
  from Cons.IH [OF _ _ this, of "Suc i"] Cons.prems(1,2) obtain ups' where
    "common_loop U address opts (Suc i) ms ?ups = Some (None, ups')"
    "\<forall>k. lookup ups' k = (if k \<in> set (keys_of ms) then Some [u] else lookup ?ups k)" "map_ok ?ups \<longrightarrow> map_ok ups'"
    by auto
  moreover have "map_ok ups \<longrightarrow> map_ok ?ups"
    by (intro impI map_ok_put valid_match_non_fqdn [OF assms(1) x(2)])
  ultimately show ?case
    using e x(1) by (auto simp: lookup_put toIndexedMatch_def)
qed simp

section \<open>The groups\<close>

text \<open>The criteria of a group that choose a static client, and those that create devices.\<close>

definition static_keys :: "group_name \<Rightarrow> upstreamGroupConfig \<Rightarrow> indexedMatch set" where
  "static_keys n g = (if n \<in> set predefinedGroups \<or> autodevice_enabled g then {} else set (group_keys g))"

definition device_keys :: "group_name \<Rightarrow> upstreamGroupConfig \<Rightarrow> indexedMatch set" where
  "device_keys n g = (if \<not> autodevice_enabled g then {}
     else if n = UpstreamGroupNameDefault then {([], PZero)} else if n \<in> set predefinedGroups then {} else set (group_keys g))"

text \<open>The upstream of a group, and its device configuration, where its address can be used.\<close>

definition group_ups :: "('r, 'u, 'cc) cmd_ups_env \<Rightarrow> 'r ups_options \<Rightarrow> upstreamGroupConfig \<Rightarrow> 'u" where
  "group_ups U opts g = projr (AddressToUpstream U (ug_Address g) opts)"

definition group_device :: "conf_env \<Rightarrow> 'r ups_options \<Rightarrow> upstreamGroupConfig \<Rightarrow> 'r ups_options autodev_conf" where
  "group_device E opts g = device_conf (projr (url_Parse E (ug_Address g))) (the (ug_Autodevice g)) opts"

text \<open>What adding a group does to the maps.\<close>

definition group_added ::
  "conf_env \<Rightarrow> ('r, 'u, 'cc) cmd_ups_env \<Rightarrow> 'r ups_options \<Rightarrow> group_name \<Rightarrow> upstreamGroupConfig
     \<Rightarrow> ('u, 'r) ups_maps \<Rightarrow> ('u, 'r) ups_maps \<Rightarrow> bool" where
  "group_added E U opts n g st st' = (
     generalUps st' = generalUps st @ (if n = UpstreamGroupNameDefault then [group_ups U opts g] else []) \<and>
     privateUps st' = privateUps st @ (if n = UpstreamGroupNamePrivate then [group_ups U opts g] else []) \<and>
     (\<forall>k. lookup (staticUps st') k = (if k \<in> static_keys n g then Some [group_ups U opts g] else lookup (staticUps st) k)) \<and>
     (\<forall>k. lookup (autodeviceUps st') k =
        (if k \<in> device_keys n g then Some (group_device E opts g) else lookup (autodeviceUps st) k)) \<and>
     (map_ok (staticUps st) \<longrightarrow> map_ok (staticUps st')) \<and> (map_ok (autodeviceUps st) \<longrightarrow> map_ok (autodeviceUps st')))"

lemma put_inner_twice:
  "put_inner p d v (AList.update p (inner_map m p) m) = put_inner p d v m"
  by (simp add: put_inner_def inner_map_def map_of_update)

lemma addGroup_valid:
  assumes "golibs_ok G" "valid_group G E n g" "AddressToUpstream U (ug_Address g) opts = Inr u"
    "n \<notin> set predefinedGroups \<Longrightarrow> distinct (group_keys g) \<and>
      (\<forall>k \<in> set (group_keys g). lookup (staticUps st) k = None \<and> lookup (autodeviceUps st) k = None)"
  shows "\<exists>st'. addGroup E U n (Some g) opts st = Some (None, st') \<and> group_added E U opts n g st st'"
proof -
  have net: "netutil_ok G" by (rule golibs_okD(3) [OF assms(1)])
  obtain a where a: "ug_Autodevice g = Some a" "adc_Enabled a \<Longrightarrow> n \<noteq> UpstreamGroupNamePrivate \<and> valid_template E (ug_Address g)"
    using assms(2) by (auto simp: valid_group_def split: if_splits)
  have en: "autodevice_enabled g = adc_Enabled a" by (simp add: autodevice_enabled_def a(1))
  define t where "t = projr (url_Parse E (ug_Address g))"
  have t: "url_Parse E (ug_Address g) = Inr t" if "adc_Enabled a"
    using a(2) [OF that] by (auto simp: valid_template_def t_def split: sum.splits)
  have u: "group_ups U opts g = u" by (simp add: group_ups_def assms(3))
  have dev: "adc_Enabled a \<Longrightarrow> group_device E opts g = device_conf t a opts" by (simp add: group_device_def t a(1))
  have dp: "UpstreamGroupNameDefault \<noteq> UpstreamGroupNamePrivate" by (simp add: group_names)
  consider (def) "n = UpstreamGroupNameDefault" | (priv) "n = UpstreamGroupNamePrivate" | (cust) "n \<notin> set predefinedGroups"
    by (auto simp: predefinedGroups_def)
  then show ?thesis
  proof cases
    case def
    then have sk: "static_keys n g = {}" by (simp add: static_keys_def predefinedGroups_def)
    have nf: "non_fqdn []" by (simp add: non_fqdn_def)
    show ?thesis
      using def sk dp assms(3) t dev a(1) u
      by (cases "adc_Enabled a")
        (auto simp: addGroup_def addDefaultGroup_def group_added_def device_keys_def en Let_def put_inner_twice lookup_put
          intro: map_ok_put [OF _ nf])
  next
    case priv
    then have "static_keys n g = {}" "device_keys n g = {}"
      using a(2) en by (auto simp: static_keys_def device_keys_def predefinedGroups_def)
    with priv show ?thesis
      using dp assms(3) by (auto simp: addGroup_def addPrivateGroup_def group_added_def u)
  next
    case cust
    then have nd: "n \<noteq> UpstreamGroupNameDefault" "n \<noteq> UpstreamGroupNamePrivate" by (auto simp: predefinedGroups_def)
    have m: "valid_matches G (ug_Match g)" using assms(2) cust by (simp add: valid_group_def)
    note k = assms(4) [OF cust, unfolded group_keys_def]
    show ?thesis
    proof (cases "adc_Enabled a")
      case True
      have sk: "static_keys n g = {}" "device_keys n g = set (group_keys g)"
        using True en cust nd by (simp_all add: static_keys_def device_keys_def)
      obtain ups' where "autodevice_loop (device_conf t a opts) 0 (ug_Match g) (autodeviceUps st) = Some (None, ups')"
        "\<forall>k. lookup ups' k = (if k \<in> set (keys_of (ug_Match g)) then Some (device_conf t a opts) else lookup (autodeviceUps st) k)"
        "map_ok (autodeviceUps st) \<longrightarrow> map_ok ups'"
        using autodevice_loop_valid [OF net m conjunct1 [OF k], of "autodeviceUps st"] k by blast
      then show ?thesis
        using nd a(1) True sk t [OF True] dev [OF True]
        by (simp add: addGroup_def addAutodeviceGroup_def group_added_def group_keys_def)
    next
      case False
      have sk: "static_keys n g = set (group_keys g)" "device_keys n g = {}"
        using False en cust by (simp_all add: static_keys_def device_keys_def)
      obtain ups' where "common_loop U (ug_Address g) opts 0 (ug_Match g) (staticUps st) = Some (None, ups')"
        "\<forall>k. lookup ups' k = (if k \<in> set (keys_of (ug_Match g)) then Some [u] else lookup (staticUps st) k)"
        "map_ok (staticUps st) \<longrightarrow> map_ok ups'"
        using common_loop_valid [OF net m conjunct1 [OF k] _ assms(3), of "staticUps st"] k by blast
      then show ?thesis
        using nd a(1) False sk u
        by (simp add: addGroup_def addCommonGroup_def group_added_def group_keys_def)
    qed
  qed
qed

section \<open>All groups\<close>

text \<open>A group of a configuration, and all the keys it takes.\<close>

abbreviation grp :: "upstreamGroupsConfig \<Rightarrow> group_name \<Rightarrow> upstreamGroupConfig" where
  "grp gs n \<equiv> the (group_of gs n)"

definition taken_keys :: "upstreamGroupsConfig \<Rightarrow> group_name \<Rightarrow> indexedMatch set" where
  "taken_keys gs n = static_keys n (grp gs n) \<union> device_keys n (grp gs n)"

lemma taken_custom: "n \<notin> set predefinedGroups \<Longrightarrow> taken_keys gs n = set (group_keys (grp gs n))"
  by (auto simp: taken_keys_def static_keys_def device_keys_def predefinedGroups_def)

lemma taken_predefined:
  "n \<in> set predefinedGroups \<Longrightarrow> taken_keys gs n \<subseteq> (if n = UpstreamGroupNameDefault then {([], PZero)} else {})"
  by (auto simp: taken_keys_def static_keys_def device_keys_def)

lemma distinct_concat_disjoint:
  assumes "distinct (concat (map f xs))" "x \<in> set xs" "y \<in> set xs" "x \<noteq> y"
  shows "set (f x) \<inter> set (f y) = {}"
  using assms by (induction xs) auto

lemma valid_keys_nonempty:
  assumes "valid_group G E n g" "n \<notin> set predefinedGroups"
  shows "([], PZero) \<notin> set (group_keys g)"
proof
  assume "([], PZero) \<in> set (group_keys g)"
  then obtain m where m: "m \<in> set (ug_Match g)" "toIndexedMatch (the m) = ([], PZero)"
    by (auto simp: group_keys_def)
  then obtain x where "m = Some x" "valid_match G x" using assms by (auto simp: valid_group_def)
  with m(2) show False by (simp add: toIndexedMatch_def valid_match_def)
qed

lemma taken_disjoint:
  assumes v: "\<forall>n \<in> set names. valid_group G E n (grp gs n)" and d: "distinct (custom_keys gs names)"
    and mn: "m \<in> set names" "n \<in> set names" "m \<noteq> n"
  shows "taken_keys gs m \<inter> taken_keys gs n = {}"
proof -
  have pc: "taken_keys gs p \<inter> taken_keys gs q = {}"
    if "p \<in> set predefinedGroups" "q \<notin> set predefinedGroups" "q \<in> set names" for p q
    using taken_predefined [OF that(1), of gs] taken_custom [OF that(2), of gs]
      valid_keys_nonempty [of G E q "grp gs q"] v that by (auto split: if_splits)
  consider "m \<in> set predefinedGroups" "n \<in> set predefinedGroups" | "m \<in> set predefinedGroups" "n \<notin> set predefinedGroups"
    | "m \<notin> set predefinedGroups" "n \<in> set predefinedGroups" | "m \<notin> set predefinedGroups" "n \<notin> set predefinedGroups" by blast
  then show ?thesis
  proof cases
    case 1
    then show ?thesis using taken_predefined [of m gs] taken_predefined [of n gs] mn(3) by (auto split: if_splits)
  next
    case 2
    then show ?thesis using pc mn by blast
  next
    case 3
    then show ?thesis using pc [of n m] mn by blast
  next
    case 4
    then show ?thesis
      using distinct_concat_disjoint [OF d [unfolded custom_keys_def], of m n] mn
      by (simp add: taken_custom)
  qed
qed

lemma custom_keys_group:
  assumes "distinct (custom_keys gs names)" "n \<in> set names" "n \<notin> set predefinedGroups"
  shows "distinct (group_keys (grp gs n))"
proof -
  have "distinct (concat (map f xs)) \<Longrightarrow> x \<in> set xs \<Longrightarrow> distinct (f x)"
    for f :: "group_name \<Rightarrow> indexedMatch list" and xs x
    by (induction xs) auto
  from this [OF assms(1) [unfolded custom_keys_def], of n] assms(2,3) show ?thesis by simp
qed

text \<open>What adding the groups does to the maps.\<close>

definition groups_added ::
  "conf_env \<Rightarrow> ('r, 'u, 'cc) cmd_ups_env \<Rightarrow> 'r ups_options \<Rightarrow> upstreamGroupsConfig \<Rightarrow> group_name list
     \<Rightarrow> ('u, 'r) ups_maps \<Rightarrow> ('u, 'r) ups_maps \<Rightarrow> bool" where
  "groups_added E U opts gs names st st' = (
     generalUps st' = generalUps st @ map (\<lambda>n. group_ups U opts (grp gs n)) (filter (\<lambda>n. n = UpstreamGroupNameDefault) names) \<and>
     privateUps st' = privateUps st @ map (\<lambda>n. group_ups U opts (grp gs n)) (filter (\<lambda>n. n = UpstreamGroupNamePrivate) names) \<and>
     (\<forall>k v. lookup (staticUps st') k = Some v \<longleftrightarrow>
        (\<exists>n \<in> set names. k \<in> static_keys n (grp gs n) \<and> v = [group_ups U opts (grp gs n)]) \<or>
        (\<forall>n \<in> set names. k \<notin> static_keys n (grp gs n)) \<and> lookup (staticUps st) k = Some v) \<and>
     (\<forall>k v. lookup (autodeviceUps st') k = Some v \<longleftrightarrow>
        (\<exists>n \<in> set names. k \<in> device_keys n (grp gs n) \<and> v = group_device E opts (grp gs n)) \<or>
        (\<forall>n \<in> set names. k \<notin> device_keys n (grp gs n)) \<and> lookup (autodeviceUps st) k = Some v) \<and>
     (map_ok (staticUps st) \<longrightarrow> map_ok (staticUps st')) \<and> (map_ok (autodeviceUps st) \<longrightarrow> map_ok (autodeviceUps st')))"

text \<open>The lookups of one group followed by those of the others, whose keys are different.\<close>

lemma lookups_compose:
  assumes "\<forall>k. l1 k = (if k \<in> K n then Some (f n) else l0 k)"
    "\<forall>k v. l2 k = Some v \<longleftrightarrow> (\<exists>n \<in> N. k \<in> K n \<and> v = f n) \<or> (\<forall>n \<in> N. k \<notin> K n) \<and> l1 k = Some v"
    "\<forall>m \<in> N. K n \<inter> K m = {}"
  shows "\<forall>k v. l2 k = Some v \<longleftrightarrow>
    (\<exists>m \<in> insert n N. k \<in> K m \<and> v = f m) \<or> (\<forall>m \<in> insert n N. k \<notin> K m) \<and> l0 k = Some v"
proof (intro allI)
  fix k v
  show "l2 k = Some v \<longleftrightarrow>
    (\<exists>m \<in> insert n N. k \<in> K m \<and> v = f m) \<or> (\<forall>m \<in> insert n N. k \<notin> K m) \<and> l0 k = Some v"
    using assms(1) assms(2) [rule_format, of k v] assms(3) by (cases "k \<in> K n") auto
qed

lemma groups_add_valid:
  assumes "golibs_ok G" "\<forall>n \<in> set names. group_of gs n \<noteq> None \<and> valid_group G E n (grp gs n) \<and>
      (\<exists>u. AddressToUpstream U (ug_Address (grp gs n)) opts = Inr u)"
    "distinct names" "distinct (custom_keys gs names)"
    "\<forall>n \<in> set names. n \<notin> set predefinedGroups \<longrightarrow>
       (\<forall>k \<in> taken_keys gs n. lookup (staticUps st) k = None \<and> lookup (autodeviceUps st) k = None)"
  shows "\<exists>st'. groups_add E U gs opts names errs st = Some (errs, st') \<and> groups_added E U opts gs names st st'"
  using assms(2-)
proof (induction names arbitrary: st)
  case Nil
  then show ?case by (simp add: groups_added_def)
next
  case (Cons n names)
  obtain g0 where g0: "group_of gs n = Some g0" using Cons.prems(1) by auto
  have g: "valid_group G E n (grp gs n)" using Cons.prems(1) by simp
  obtain u where u: "AddressToUpstream U (ug_Address (grp gs n)) opts = Inr u" using Cons.prems(1) by auto
  have disj: "taken_keys gs n \<inter> taken_keys gs m = {}" if "m \<in> set names" for m
    using Cons.prems(1,2) that by (intro taken_disjoint [OF _ Cons.prems(3)]) auto
  have free: "distinct (group_keys (grp gs n)) \<and>
      (\<forall>k \<in> set (group_keys (grp gs n)). lookup (staticUps st) k = None \<and> lookup (autodeviceUps st) k = None)"
    if "n \<notin> set predefinedGroups"
    using Cons.prems(4) custom_keys_group [OF Cons.prems(3) _ that] taken_custom [OF that, of gs] that by simp
  from addGroup_valid [OF assms(1) g u free] obtain st1 where
    st1: "addGroup E U n (Some (grp gs n)) opts st = Some (None, st1)" "group_added E U opts n (grp gs n) st st1" by blast
  have e: "groups_add E U gs opts (n # names) errs st = groups_add E U gs opts names errs st1"
    using st1(1) g0 by simp
  have d: "distinct (custom_keys gs names)" using Cons.prems(3) by (simp add: custom_keys_def split: if_splits)
  have "lookup (staticUps st1) k = None \<and> lookup (autodeviceUps st1) k = None"
    if "m \<in> set names" "m \<notin> set predefinedGroups" "k \<in> taken_keys gs m" for m k
  proof -
    have "k \<notin> static_keys n (grp gs n)" "k \<notin> device_keys n (grp gs n)"
      using disj [OF that(1)] that(3) unfolding taken_keys_def by blast+
    moreover have "lookup (staticUps st) k = None \<and> lookup (autodeviceUps st) k = None"
      using Cons.prems(4) that by simp
    ultimately show ?thesis using st1(2) by (cases k) (simp add: group_added_def)
  qed
  with Cons.IH [of st1] Cons.prems(1,2) d obtain st2 where
    st2: "groups_add E U gs opts names errs st1 = Some (errs, st2)" "groups_added E U opts gs names st1 st2" by auto
  have sd: "\<forall>m \<in> set names. static_keys n (grp gs n) \<inter> static_keys m (grp gs m) = {}"
    "\<forall>m \<in> set names. device_keys n (grp gs n) \<inter> device_keys m (grp gs m) = {}"
    using disj unfolding taken_keys_def by blast+
  note ga = st1(2) [unfolded group_added_def] and gas = st2(2) [unfolded groups_added_def]
  have s: "\<forall>k v. lookup (staticUps st2) k = Some v \<longleftrightarrow>
      (\<exists>m \<in> insert n (set names). k \<in> static_keys m (grp gs m) \<and> v = [group_ups U opts (grp gs m)]) \<or>
      (\<forall>m \<in> insert n (set names). k \<notin> static_keys m (grp gs m)) \<and> lookup (staticUps st) k = Some v"
    by (rule lookups_compose [OF _ _ sd(1), where ?l1.0 = "lookup (staticUps st1)"]) (use ga gas in argo)+
  have a: "\<forall>k v. lookup (autodeviceUps st2) k = Some v \<longleftrightarrow>
      (\<exists>m \<in> insert n (set names). k \<in> device_keys m (grp gs m) \<and> v = group_device E opts (grp gs m)) \<or>
      (\<forall>m \<in> insert n (set names). k \<notin> device_keys m (grp gs m)) \<and> lookup (autodeviceUps st) k = Some v"
    by (rule lookups_compose [OF _ _ sd(2), where ?l1.0 = "lookup (autodeviceUps st1)"]) (use ga gas in argo)+
  have "groups_added E U opts gs (n # names) st st2"
    unfolding groups_added_def list.set using ga gas s a by (intro conjI) simp_all
  with e st2(1) show ?case by auto
qed

section \<open>The maps of a valid configuration\<close>

definition empty_maps :: "('u, 'r) ups_maps" where
  "empty_maps = \<lparr>generalUps = [], privateUps = [], staticUps = [], autodeviceUps = []\<rparr>"

abbreviation conf_opts :: "upstreamConfig \<Rightarrow> 'r list \<Rightarrow> 'r ups_options" where
  "conf_opts conf boot \<equiv> \<lparr>op_Timeout = us_Timeout conf, op_Bootstrap = Some boot\<rparr>"

text \<open>Every address of the configuration gives an upstream.\<close>

definition addresses_ok :: "('r, 'u, 'cc) cmd_ups_env \<Rightarrow> 'r ups_options \<Rightarrow> upstreamGroupsConfig \<Rightarrow> bool" where
  "addresses_ok U opts gs = (\<forall>(n, g) \<in> set gs. \<exists>u. AddressToUpstream U (ug_Address (the g)) opts = Inr u)"

definition maps_built ::
  "conf_env \<Rightarrow> ('r, 'u, 'cc) cmd_ups_env \<Rightarrow> 'r ups_options \<Rightarrow> upstreamGroupsConfig \<Rightarrow> ('u, 'r) ups_maps \<Rightarrow> bool" where
  "maps_built E U opts gs st = (
     generalUps st = [group_ups U opts (grp gs UpstreamGroupNameDefault)] \<and>
     privateUps st = (if UpstreamGroupNamePrivate \<in> fst ` set gs
       then [group_ups U opts (grp gs UpstreamGroupNamePrivate)] else []) \<and>
     (\<forall>k v. lookup (staticUps st) k = Some v \<longleftrightarrow>
        (\<exists>n \<in> fst ` set gs. k \<in> static_keys n (grp gs n) \<and> v = [group_ups U opts (grp gs n)])) \<and>
     (\<forall>k v. lookup (autodeviceUps st) k = Some v \<longleftrightarrow>
        (\<exists>n \<in> fst ` set gs. k \<in> device_keys n (grp gs n) \<and> v = group_device E opts (grp gs n))) \<and>
     map_ok (staticUps st) \<and> map_ok (autodeviceUps st))"

lemma filter_eq_distinct: "distinct xs \<Longrightarrow> filter (\<lambda>n. n = a) xs = (if a \<in> set xs then [a] else [])"
  by (induction xs) auto

lemma newUpstreams_built:
  assumes "golibs_ok G" "valid_groups G E gs" "us_Groups conf = Some gs" "distinct (map fst gs)"
    "addresses_ok U (conf_opts conf boot) gs"
  shows "\<exists>st. newUpstreams G E U conf boot empty_maps = Some (None, st) \<and> maps_built E U (conf_opts conf boot) gs st"
proof -
  let ?names = "sort (map fst gs)"
  let ?opts = "conf_opts conf boot"
  have g: "group_of gs n \<noteq> None \<and> valid_group G E n (grp gs n) \<and> (\<exists>u. AddressToUpstream U (ug_Address (grp gs n)) ?opts = Inr u)"
    if "n \<in> set ?names" for n
  proof -
    from that obtain g where "(n, g) \<in> set gs" by auto
    then show ?thesis
      using group_of_Some [OF assms(4)] assms(2,5) by (fastforce simp: valid_groups_def addresses_ok_def)
  qed
  have "distinct (custom_keys gs (map fst gs))" using assms(2) by (simp add: valid_groups_def)
  moreover have "mset ?names = mset (map fst gs)" by simp
  ultimately have d: "distinct (custom_keys gs ?names)"
    using mset_eq_imp_distinct_iff [OF custom_keys_perm] by blast
  have n: "distinct ?names" using assms(4) by simp
  from groups_add_valid [OF assms(1) _ n d, of E U ?opts empty_maps "[]"] g obtain st where
    st: "groups_add E U gs ?opts ?names [] empty_maps = Some ([], st)" "groups_added E U ?opts gs ?names empty_maps st"
    by (auto simp: empty_maps_def)
  have "newUpstreams G E U conf boot empty_maps = Some (None, st)"
    using st(1) golibs_okD(1) [OF assms(1)] by (simp add: newUpstreams_def assms(3) Let_def)
  moreover have "UpstreamGroupNameDefault \<in> fst ` set gs" using assms(2) by (simp add: valid_groups_def)
  ultimately show ?thesis
    using st(2) by (auto simp: groups_added_def maps_built_def empty_maps_def filter_eq_distinct [OF n]
        map_ok_def map_wf_def)
qed

section \<open>The static clients\<close>

lemma fold_put_lookup:
  "lookup (fold (\<lambda>d. put_inner p d (f d)) ds cs) k = (if snd k = p \<and> fst k \<in> set ds then Some (f (fst k)) else lookup cs k)"
  by (induction ds arbitrary: cs) (auto simp: lookup_put)

lemma fold_put_ok: "map_ok cs \<Longrightarrow> \<forall>d \<in> set ds. non_fqdn d \<Longrightarrow> map_ok (fold (\<lambda>d. put_inner p d (f d)) ds cs)"
  by (induction ds arbitrary: cs) (auto intro: map_ok_put)

lemma fold_fold_lookup:
  "lookup (fold (\<lambda>p cs. fold (\<lambda>d. put_inner p d (f p d)) (ds p) cs) ps cs) k =
     (if snd k \<in> set ps \<and> fst k \<in> set (ds (snd k)) then Some (f (snd k) (fst k)) else lookup cs k)"
  by (induction ps arbitrary: cs) (auto simp: fold_put_lookup)

lemma fold_fold_ok:
  "map_ok cs \<Longrightarrow> \<forall>p d. d \<in> set (ds p) \<longrightarrow> non_fqdn d \<Longrightarrow> map_ok (fold (\<lambda>p cs. fold (\<lambda>d. put_inner p d (f p d)) (ds p) cs) ps cs)"
  by (induction ps arbitrary: cs) (auto intro: fold_put_ok)

abbreviation static_client ::
  "('r, 'u, 'cc) cmd_ups_env \<Rightarrow> cacheConfig \<Rightarrow> 'u list \<Rightarrow> 'cc client" where
  "static_client U c us \<equiv> StaticClient (NewCustomUpstreamConfig U us (cc_Enabled c) (go_int (cc_ClientSize c)) False)"

lemma newStaticClients_fold:
  "newStaticClients U ups c = fold (\<lambda>p cs. fold (\<lambda>d. put_inner p d (static_client U c (the (map_of (inner_map ups p) d))))
     (sort (map fst (inner_map ups p))) cs) (sort_stable prefix_compare (map fst ups)) []"
  by (simp add: newStaticClients_def addStaticClient_def)

lemma newStaticClients_lookup:
  assumes "map_ok ups"
  shows "lookup (newStaticClients U ups c) k = map_option (static_client U c) (lookup ups k)"
    and "map_ok (newStaticClients U ups c)"
proof -
  have d: "fst k \<in> set (sort (map fst (inner_map ups (snd k)))) \<longleftrightarrow> lookup ups k \<noteq> None"
    by (auto simp: lookup_def map_of_eq_None_iff)
  have p: "snd k \<in> set (sort_stable prefix_compare (map fst ups))" if "lookup ups k \<noteq> None"
    using that by (auto simp: lookup_def inner_map_def split: option.splits dest!: map_of_SomeD) force
  show "lookup (newStaticClients U ups c) k = map_option (static_client U c) (lookup ups k)"
  proof (cases "lookup ups k")
    case None
    with d show ?thesis unfolding newStaticClients_fold fold_fold_lookup by simp
  next
    case (Some us)
    then have "the (map_of (inner_map ups (snd k)) (fst k)) = us" by (simp add: lookup_def)
    with d p Some show ?thesis unfolding newStaticClients_fold fold_fold_lookup by simp
  qed
  show "map_ok (newStaticClients U ups c)"
    unfolding newStaticClients_fold
    using assms map_wf_inner by (intro fold_fold_ok) (auto simp: map_ok_def map_wf_def)
qed

end
