(* ===== verification/CmdStorage.thy ===== *)
theory CmdStorage
  imports CmdBuild
begin

text \<open>
  The composition of the configuration with the storage: the client that a question of an address
  gets from the storage that the program builds, said in terms of the configuration file.
\<close>

section \<open>The configuration of the storage\<close>

lemma map_ok_prefix:
  assumes "map_ok m" "p \<in> fst ` set m"
  shows "\<exists>d. lookup m (d, p) \<noteq> None"
proof -
  obtain conf where c: "(p, conf) \<in> set m" using assms(2) by auto
  with assms(1) have "inner_map m p = conf" "conf \<noteq> []" by (auto simp: map_ok_def map_wf_def inner_map_def)
  then obtain d v rest where "inner_map m p = (d, v) # rest" by (cases conf) auto
  then show ?thesis by (auto simp: lookup_def)
qed

lemma map_wf_entry:
  assumes "map_wf m"
  shows "(\<exists>conf. (p, conf) \<in> set m \<and> (d, v) \<in> set conf) \<longleftrightarrow> lookup m (d, p) = Some v"
proof
  assume "\<exists>conf. (p, conf) \<in> set m \<and> (d, v) \<in> set conf"
  then obtain conf where c: "(p, conf) \<in> set m" "(d, v) \<in> set conf" by blast
  with assms have "inner_map m p = conf" "distinct (map fst conf)" by (auto simp: map_wf_def inner_map_def)
  with c(2) show "lookup m (d, p) = Some v" by (simp add: lookup_def)
next
  assume "lookup m (d, p) = Some v"
  then obtain conf where "map_of m p = Some conf" "map_of conf d = Some v"
    by (auto simp: lookup_def inner_map_def split: option.splits)
  then show "\<exists>conf. (p, conf) \<in> set m \<and> (d, v) \<in> set conf" by (blast dest: map_of_SomeD)
qed

lemma static_clients_lookup:
  assumes "map_wf (Static c)"
  shows "x \<in> set (static_clients c) \<longleftrightarrow> lookup (Static c) (sc_domain x, sc_prefix x) = Some (sc_client x)"
  using map_wf_entry [OF assms, of "sc_prefix x" "sc_domain x" "sc_client x", symmetric]
  by (cases x) (force simp: static_clients_def)

text \<open>The criteria of a configuration that choose a static client, in the order of the storage's keys.\<close>

definition static_criteria :: "upstreamGroupsConfig \<Rightarrow> (prefix \<times> string) set" where
  "static_criteria gs = (\<Union>n \<in> fst ` set gs. prod.swap ` static_keys n (grp gs n))"

definition device_criteria :: "upstreamGroupsConfig \<Rightarrow> (prefix \<times> string) set" where
  "device_criteria gs = (\<Union>n \<in> fst ` set gs. prod.swap ` device_keys n (grp gs n))"

text \<open>
  What validation leaves to the user: the prefixes of the criteria do not overlap unless they are
  equal.
\<close>

definition criteria_disjoint :: "upstreamGroupsConfig \<Rightarrow> bool" where
  "criteria_disjoint gs = (prefixes_disjoint (fst ` static_criteria gs) \<and> prefixes_disjoint (fst ` device_criteria gs))"

lemma storage_config_wf:
  assumes "maps_built E U opts gs st" "criteria_disjoint gs"
  shows "conf_wf (storage_config U (staticUps st) (autodeviceUps st) c)"
proof -
  note b = assms(1) [unfolded maps_built_def]
  have ok: "map_ok (staticUps st)" "map_ok (autodeviceUps st)" using b by simp_all
  note n = newStaticClients_lookup [OF ok(1), of U c]
  have "fst ` set (newStaticClients U (staticUps st) c) \<subseteq> fst ` static_criteria gs"
  proof
    fix p assume "p \<in> fst ` set (newStaticClients U (staticUps st) c)"
    from map_ok_prefix [OF n(2) this] obtain d where "lookup (newStaticClients U (staticUps st) c) (d, p) \<noteq> None" by blast
    then obtain v where "lookup (staticUps st) (d, p) = Some v" unfolding n(1) by auto
    with b obtain m where "m \<in> fst ` set gs" "(d, p) \<in> static_keys m (grp gs m)" by blast
    then have "(p, d) \<in> static_criteria gs" by (force simp: static_criteria_def)
    then show "p \<in> fst ` static_criteria gs" by force
  qed
  moreover have "fst ` set (autodeviceUps st) \<subseteq> fst ` device_criteria gs"
  proof
    fix p assume "p \<in> fst ` set (autodeviceUps st)"
    from map_ok_prefix [OF ok(2) this] obtain d v where "lookup (autodeviceUps st) (d, p) = Some v" by blast
    with b obtain m where "m \<in> fst ` set gs" "(d, p) \<in> device_keys m (grp gs m)" by blast
    then have "(p, d) \<in> device_criteria gs" by (force simp: device_criteria_def)
    then show "p \<in> fst ` device_criteria gs" by force
  qed
  ultimately show ?thesis
    using n(2) ok(2) assms(2) prefixes_disjoint_mono
    by (auto simp: conf_wf_def storage_config_def map_ok_def criteria_disjoint_def)
qed

text \<open>The static clients of the storage are those of the criteria.\<close>

lemma storage_config_clients:
  assumes "maps_built E U opts gs st" "s = storage_config U (staticUps st) (autodeviceUps st) c"
  shows "x \<in> set (static_clients s) \<longleftrightarrow> (\<exists>n \<in> fst ` set gs. (sc_domain x, sc_prefix x) \<in> static_keys n (grp gs n) \<and>
      sc_client x = static_client U c [group_ups U opts (grp gs n)])"
    and "sc_key ` set (static_clients s) = static_criteria gs"
proof -
  note b = assms(1) [unfolded maps_built_def]
  have ok: "map_ok (staticUps st)" using b by simp
  note n = newStaticClients_lookup [OF ok, of U c]
  have wf: "map_wf (Static s)" using n(2) by (simp add: assms(2) storage_config_def map_ok_def)
  have *: "x \<in> set (static_clients s) \<longleftrightarrow> (\<exists>n \<in> fst ` set gs. (sc_domain x, sc_prefix x) \<in> static_keys n (grp gs n) \<and>
      sc_client x = static_client U c [group_ups U opts (grp gs n)])" for x
  proof -
    have "x \<in> set (static_clients s) \<longleftrightarrow>
        (\<exists>v. lookup (staticUps st) (sc_domain x, sc_prefix x) = Some v \<and> sc_client x = static_client U c v)"
      unfolding static_clients_lookup [OF wf] by (auto simp: assms(2) storage_config_def n(1))
    moreover have "\<forall>k v. lookup (staticUps st) k = Some v \<longleftrightarrow>
        (\<exists>n \<in> fst ` set gs. k \<in> static_keys n (grp gs n) \<and> v = [group_ups U opts (grp gs n)])"
      using b by (elim conjE)
    ultimately show ?thesis by auto
  qed
  then show "x \<in> set (static_clients s) \<longleftrightarrow> (\<exists>n \<in> fst ` set gs. (sc_domain x, sc_prefix x) \<in> static_keys n (grp gs n) \<and>
      sc_client x = static_client U c [group_ups U opts (grp gs n)])" .
  show "sc_key ` set (static_clients s) = static_criteria gs"
  proof (intro equalityI subsetI)
    fix k assume "k \<in> sc_key ` set (static_clients s)"
    then obtain x where "x \<in> set (static_clients s)" "k = sc_key x" by blast
    with * show "k \<in> static_criteria gs" by (force simp: static_criteria_def)
  next
    fix k assume "k \<in> static_criteria gs"
    then obtain n where m: "n \<in> fst ` set gs" "(snd k, fst k) \<in> static_keys n (grp gs n)"
      by (force simp: static_criteria_def)
    let ?x = "\<lparr>sc_client = static_client U c [group_ups U opts (grp gs n)], sc_prefix = fst k, sc_domain = snd k\<rparr>"
    have "?x \<in> set (static_clients s)" unfolding * using m by auto
    then show "k \<in> sc_key ` set (static_clients s)" by force
  qed
qed

text \<open>The search in a storage with the static clients of a configuration.\<close>

lemma find_static_conf:
  assumes "maps_built E U opts gs st" "criteria_disjoint gs" "golibs_ok G" "non_fqdn domain"
    "static d = static (NewDefaultStorage (storage_config U (staticUps st) (autodeviceUps st) cacheConf) s)"
  shows "(findStaticClient G addr domain d = Some cl \<longleftrightarrow>
      (\<exists>n \<in> fst ` set gs. \<exists>(dom, pref) \<in> static_keys n (grp gs n).
         best_key G addr domain (static_criteria gs) (pref, dom) \<and> cl = static_client U cacheConf [group_ups U opts (grp gs n)])) \<and>
    (findStaticClient G addr domain d = None \<longleftrightarrow> (\<forall>k \<in> static_criteria gs. \<not> key_matches G addr domain k))"
proof -
  let ?c = "storage_config U (staticUps st) (autodeviceUps st) cacheConf"
  note f = find_static_correct [OF storage_config_wf [OF assms(1,2)] assms(3,4,5), of addr]
  note cl = storage_config_clients [OF assms(1) refl]
  have "(\<exists>x \<in> set (static_clients ?c). sc_client x = cl \<and>
         best_key G addr domain (sc_key ` set (static_clients ?c)) (sc_key x)) \<longleftrightarrow>
      (\<exists>n \<in> fst ` set gs. \<exists>(dom, pref) \<in> static_keys n (grp gs n).
         best_key G addr domain (static_criteria gs) (pref, dom) \<and>
         cl = static_client U cacheConf [group_ups U opts (grp gs n)])" (is "?l \<longleftrightarrow> ?r")
  proof
    assume ?l
    then show ?r unfolding cl(2) using cl(1) by fast
  next
    assume ?r
    then obtain n dom pref where m: "n \<in> fst ` set gs" "(dom, pref) \<in> static_keys n (grp gs n)"
      "best_key G addr domain (static_criteria gs) (pref, dom)"
      "cl = static_client U cacheConf [group_ups U opts (grp gs n)]" by blast
    let ?x = "\<lparr>sc_client = cl, sc_prefix = pref, sc_domain = dom\<rparr>"
    have "?x \<in> set (static_clients ?c)" unfolding cl(1) using m by auto
    with m(3) show ?l unfolding cl(2) by force
  qed
  moreover have "(\<forall>x \<in> set (static_clients ?c). \<not> storedClient_matches G x addr domain) \<longleftrightarrow>
      (\<forall>k \<in> static_criteria gs. \<not> key_matches G addr domain k)"
    unfolding cl(2) [of cacheConf, symmetric] by (auto simp: storedClient_matches_key)
  ultimately show ?thesis using f by blast
qed

text \<open>The source that the program builds is one of those with a contract.\<close>

interpretation conf_src: human_id_source "fst (newClientStorage G C N c0 U priv statics autos cacheConf)" "rdns_inv G C"
  for G C N c0 U priv statics autos cacheConf
proof -
  have "human_id_source (newHumanIDSource G C N priv) (rdns_inv G C)"
    using program_src.human_id_source_axioms default_src.human_id_source_axioms
    by (auto simp: newHumanIDSource_def Let_def)
  then show "human_id_source (fst (newClientStorage G C N c0 U priv statics autos cacheConf)) (rdns_inv G C)"
    by (simp add: newClientStorage_def Let_def empty_src.human_id_source_axioms)
qed

section \<open>A concrete environment\<close>

definition demo_cmd_ups :: "(string, string, nat \<times> string list) cmd_ups_env" where
  "demo_cmd_ups = \<lparr>url_string = (\<lambda>u. Scheme u @ ''://'' @ Host u @ (if take 1 (Path u) = [slash] then [] else [slash]) @ Path u), AddressToUpstream = (\<lambda>s _. Inr s),
     NewCustomUpstreamConfig = (\<lambda>us _ n _. (nat n, us)), CloseUpstreams = (\<lambda>_. None)\<rparr>"

definition demo_upstream :: "upstreamConfig" where
  "demo_upstream = \<lparr>us_Groups = Some (demo_groups ''corp''), us_Timeout = 2000000000\<rparr>"

definition demo_cache :: cacheConfig where
  "demo_cache = \<lparr>cc_Enabled = True, cc_Size = 0x8000000, cc_ClientSize = 0x400000\<rparr>"

lemma demo_upstream_ok:
  "us_Groups demo_upstream = Some (demo_groups ''corp'')" "distinct (map fst (demo_groups ''corp''))"
  "addresses_ok demo_cmd_ups opts (demo_groups ''corp'')"
  by (simp_all add: demo_upstream_def demo_groups_def addresses_ok_def demo_cmd_ups_def)

lemma demo_keys:
  "fst ` set (demo_groups ''corp'') = {''vpn'', ''default'', ''lan''}"
  "static_keys ''vpn'' (grp (demo_groups ''corp'') ''vpn'') = {}"
  "static_keys ''default'' (grp (demo_groups ''corp'') ''default'') = {}"
  "static_keys ''lan'' (grp (demo_groups ''corp'') ''lan'') = {(''lan'', PZero), (''corp'', P4 0x0A000000 8)}"
  "device_keys ''vpn'' (grp (demo_groups ''corp'') ''vpn'') = {(''example.org'', P4 0x0A000000 8)}"
  "device_keys ''default'' (grp (demo_groups ''corp'') ''default'') = {}"
  "device_keys ''lan'' (grp (demo_groups ''corp'') ''lan'') = {}"
proof -
  have l: "to_lower ''Example.org'' = ''example.org''" "to_lower ''lan'' = ''lan''" "to_lower ''corp'' = ''corp''"
    by code_simp+
  show "fst ` set (demo_groups ''corp'') = {''vpn'', ''default'', ''lan''}" by (auto simp: demo_groups_def)
  show "static_keys ''vpn'' (grp (demo_groups ''corp'') ''vpn'') = {}"
    "static_keys ''default'' (grp (demo_groups ''corp'') ''default'') = {}"
    "static_keys ''lan'' (grp (demo_groups ''corp'') ''lan'') = {(''lan'', PZero), (''corp'', P4 0x0A000000 8)}"
    "device_keys ''vpn'' (grp (demo_groups ''corp'') ''vpn'') = {(''example.org'', P4 0x0A000000 8)}"
    "device_keys ''default'' (grp (demo_groups ''corp'') ''default'') = {}"
    "device_keys ''lan'' (grp (demo_groups ''corp'') ''lan'') = {}"
    by (simp_all add: static_keys_def device_keys_def group_of_def demo_conf_defs predefinedGroups_def group_names
        autodevice_enabled_def group_keys_def toIndexedMatch_def l)
qed

lemma demo_criteria:
  "static_criteria (demo_groups ''corp'') = {(PZero, ''lan''), (P4 0x0A000000 8, ''corp'')}"
  "criteria_disjoint (demo_groups ''corp'')"
  by (simp_all add: criteria_disjoint_def static_criteria_def device_criteria_def demo_keys prefixes_disjoint_def)

section \<open>Properties\<close>

text \<open>
  C9: For a valid configuration whose addresses \<open>dnsproxy\<close> accepts, the upstreams are built without
  a panic and without an error (in particular no criterion is found twice): the general upstream is
  that of the default group, the private one that of the private group if there is one, the upstream
  of every other group is found under each of its criteria in lower case, or its device
  configuration if it creates devices, and nothing else is in the maps.
\<close>

lemma newUpstreams_valid:
  assumes "golibs_ok G" "valid_groups G E gs" "us_Groups conf = Some gs" "distinct (map fst gs)"
    "addresses_ok U (conf_opts conf boot) gs"
  shows "\<exists>st. newUpstreams G E U conf boot empty_maps = Some (None, st) \<and> maps_built E U (conf_opts conf boot) gs st"
  by (rule newUpstreams_built [OF assms])

lemma newUpstreams_valid_witness:
  "\<exists>st. newUpstreams ref_golibs ref_conf_env demo_cmd_ups demo_upstream [] empty_maps = Some (None, st) \<and>
     generalUps st = [''1.1.1.1''] \<and> privateUps st = [] \<and>
     lookup (staticUps st) (''corp'', P4 0x0A000000 8) = Some [''192.168.0.1'']"
proof -
  from newUpstreams_valid [OF ref_golibs_ok demo_valid(1) demo_upstream_ok] obtain st where
    st: "newUpstreams ref_golibs ref_conf_env demo_cmd_ups demo_upstream [] empty_maps = Some (None, st)"
    "maps_built ref_conf_env demo_cmd_ups (conf_opts demo_upstream []) (demo_groups ''corp'') st" by blast
  note b = st(2) [unfolded maps_built_def]
  have u: "group_ups demo_cmd_ups (conf_opts demo_upstream []) (grp (demo_groups ''corp'') ''lan'') = ''192.168.0.1''"
    "group_ups demo_cmd_ups (conf_opts demo_upstream []) (grp (demo_groups ''corp'') ''default'') = ''1.1.1.1''"
    by (simp_all add: group_ups_def demo_cmd_ups_def group_of_def demo_conf_defs)
  have "lookup (staticUps st) (''corp'', P4 0x0A000000 8) = Some [''192.168.0.1'']"
    using b demo_keys u(1) by auto
  with st(1) b u(2) demo_keys(1) show ?thesis by (auto simp: group_names)
qed

text \<open>
  C6: End to end: from a valid configuration whose different prefixes do not overlap, the static
  client that the program finds for an address and a name uses the upstream of the group whose
  criterion matches best (a prefix with the address before none, then the most specific domain),
  with the client's cache of the configured size, and there is none exactly if no criterion of a
  group without autodevice matches.
\<close>

lemma configured_static_client:
  assumes "golibs_ok G" "valid_groups G E gs" "us_Groups conf = Some gs" "distinct (map fst gs)"
    "addresses_ok U (conf_opts conf boot) gs" "criteria_disjoint gs" "non_fqdn domain"
    "newUpstreams G E U conf boot empty_maps = Some (err, st)"
    "newClientStorage G C N c0 U (privateUps st) (staticUps st) (autodeviceUps st) cacheConf = (src, d)"
  shows "err = None \<and>
    (findStaticClient G addr domain d = Some cl \<longleftrightarrow>
      (\<exists>n \<in> fst ` set gs. \<exists>(dom, pref) \<in> static_keys n (grp gs n).
         best_key G addr domain (static_criteria gs) (pref, dom) \<and>
         cl = StaticClient (NewCustomUpstreamConfig U [group_ups U (conf_opts conf boot) (grp gs n)]
           (cc_Enabled cacheConf) (go_int (cc_ClientSize cacheConf)) False))) \<and>
    (findStaticClient G addr domain d = None \<longleftrightarrow> (\<forall>k \<in> static_criteria gs. \<not> key_matches G addr domain k))"
proof -
  have st: "err = None" "maps_built E U (conf_opts conf boot) gs st"
    using newUpstreams_built [OF assms(1-5)] assms(8) by auto
  have "static d = static (NewDefaultStorage (storage_config U (staticUps st) (autodeviceUps st) cacheConf) (NewRDNSIDSource c0))"
    using assms(9) by (auto simp: newClientStorage_def Let_def)
  from find_static_conf [OF st(2) assms(6,1,7) this, of addr cl] st(1) show ?thesis by simp
qed

lemma configured_static_client_witness:
  "\<exists>st src d. newUpstreams ref_golibs ref_conf_env demo_cmd_ups demo_upstream [] empty_maps = Some (None, st) \<and>
     newClientStorage ref_golibs ref_gocache (\<lambda>_. ref_net ''a.lan.'' 60) (0, []) demo_cmd_ups (privateUps st)
       (staticUps st) (autodeviceUps st) demo_cache = (src, d) \<and>
     findStaticClient ref_golibs (A4 0x0A000001) ''www.corp'' d = Some (StaticClient (0x400000, [''192.168.0.1'']))"
proof -
  from newUpstreams_built [OF ref_golibs_ok demo_valid(1) demo_upstream_ok] obtain st where
    st: "newUpstreams ref_golibs ref_conf_env demo_cmd_ups demo_upstream [] empty_maps = Some (None, st)" by blast
  obtain src d where s: "newClientStorage ref_golibs ref_gocache (\<lambda>_. ref_net ''a.lan.'' 60) (0, []) demo_cmd_ups
       (privateUps st) (staticUps st) (autodeviceUps st) demo_cache = (src, d)"
    by (cases "newClientStorage ref_golibs ref_gocache (\<lambda>_. ref_net ''a.lan.'' 60) (0, []) demo_cmd_ups
       (privateUps st) (staticUps st) (autodeviceUps st) demo_cache")
  have dom: "non_fqdn ''www.corp''" by code_simp
  have best: "best_key ref_golibs (A4 0x0A000001) ''www.corp'' {(PZero, ''lan''), (P4 0x0A000000 8, ''corp'')} (P4 0x0A000000 8, ''corp'')"
    unfolding best_key_def by (simp add: key_matches_def matchesDomain_def beats_def ref_golibs_def has_suffix_def labels_def)
  have u: "group_ups demo_cmd_ups (conf_opts demo_upstream []) (grp (demo_groups ''corp'') ''lan'') = ''192.168.0.1''"
    by (simp add: group_ups_def demo_cmd_ups_def group_of_def demo_conf_defs)
  have "sint (0x400000 :: 64 word) = 0x400000" by simp
  then have c: "NewCustomUpstreamConfig demo_cmd_ups [''192.168.0.1''] (cc_Enabled demo_cache) (go_int (cc_ClientSize demo_cache)) False
      = (0x400000, [''192.168.0.1''])"
    by (simp add: demo_cmd_ups_def demo_cache_def go_int_def)
  have "findStaticClient ref_golibs (A4 0x0A000001) ''www.corp'' d = Some (StaticClient (0x400000, [''192.168.0.1'']))"
    using configured_static_client [OF ref_golibs_ok demo_valid(1) demo_upstream_ok demo_criteria(2) dom st s,
        of "A4 0x0A000001" "StaticClient (0x400000, [''192.168.0.1''])"] best u c
    by (auto simp: demo_keys demo_criteria(1))
  with st s show ?thesis by blast
qed

end
