(* ===== verification/CmdServe.thy ===== *)
theory CmdServe
  imports CmdStorage
begin

text \<open>
  From the configuration file to the answers: the requests that the DNS service (\<open>dnssvc/dnssvc.go\<close>)
  serves with the storage that the program builds, after any number of other requests and collections.
\<close>

section \<open>Serving from a storage\<close>




section \<open>The identifiers of a device\<close>









section \<open>What the requests leave\<close>















section \<open>The configurations of the devices\<close>






section \<open>Properties\<close>




end
