(* ===== verification/DebugService.thy ===== *)
theory DebugService
  imports DnsSvc
begin

text \<open>
  \<open>internal/debugsvc\<close>: the debug HTTP service.  The server, the middlewares and the handlers of
  \<open>httputil\<close> are parameters (\<open>debug_env\<close>); \<open>http.ServeMux\<close> and \<open>url.JoinPath\<close> are modelled on the
  patterns that the program uses, which have no wildcard.  A panic is \<open>None\<close>.
\<close>

section \<open>Route patterns\<close>

text \<open>
  The path that \<open>url.JoinPath\<close> gives for a base and an element with no characters to escape, which
  never fails; the code handles an error all the same, so it is a parameter of the routes.
\<close>

definition path_JoinPath :: "string \<Rightarrow> string \<Rightarrow> goerr + string" where
  "path_JoinPath base elem = Inr (Path (join_path \<lparr>Scheme = [], Host = [], Path = base, url_rest = []\<rparr> elem))"

definition pathPrefixPrivate :: string where "pathPrefixPrivate = ''/private''"

definition addPrefixToRoutePattern ::
  "(string \<Rightarrow> string \<Rightarrow> goerr + string) \<Rightarrow> string \<Rightarrow> string \<Rightarrow> string option" where
  "addPrefixToRoutePattern JoinPath routePattern pre =
     (case cut (CHR 0x20) routePattern of (method, pat, ok) \<Rightarrow>
        if \<not> ok then None
        else (case JoinPath pre pat of
             Inl err \<Rightarrow> None
           | Inr newPathPattern \<Rightarrow> Some (method @ CHR 0x20 # newPathPattern)))"

section \<open>The multiplexer\<close>

text \<open>
  \<open>http.ServeMux\<close>: \<open>Handle\<close> parses the pattern \<open>[METHOD ][HOST]/[PATH]\<close>, refuses a path that a
  cleaned request can never have, and panics for a pattern that is not valid or is registered
  already.  A pattern with a wildcard is not modelled and counts as not valid.
\<close>

type_synonym 'h mux = "(string \<times> 'h) list"

definition clean_path :: "string \<Rightarrow> string" where
  "clean_path p =
     (let np = slash # join_with slash (clean_segs [] (split_on slash p)) in
      if has_suffix p [slash] \<and> \<not> has_suffix np [slash] then np @ [slash] else np)"

definition token_char :: "char \<Rightarrow> bool" where
  "token_char c = (alnum c \<or> c \<in> set ''!#$%&*+-.^_`|~'' \<or> c = CHR 0x27)"

definition pattern_ok :: "string \<Rightarrow> bool" where
  "pattern_ok s =
     (case cut (CHR 0x20) s of (method, rest, found) \<Rightarrow>
        let rest = (if found then dropWhile (\<lambda>c. c = CHR 0x20 \<or> c = CHR 0x09) rest else s);
            method = (if found then method else []) in
        (found \<longrightarrow> method \<noteq> []) \<and> (\<forall>c \<in> set method. token_char c) \<and>
        slash \<in> set rest \<and> CHR ''{'' \<notin> set rest \<and>
        (let path = dropWhile (\<lambda>c. c \<noteq> slash) rest in
         method = [] \<or> method = ''CONNECT'' \<or> clean_path path = path))"

definition mux_Handle :: "string \<Rightarrow> 'h \<Rightarrow> 'h mux \<Rightarrow> 'h mux option" where
  "mux_Handle pattern h m =
     (if pattern_ok pattern \<and> pattern \<notin> fst ` set m then Some (m @ [(pattern, h)]) else None)"

section \<open>The service\<close>

text \<open>
  The parameters: the routes of \<open>httputil.RoutePprof\<close>, the middlewares, the handler of a multiplexer,
  the server and the version of the program.
\<close>

record ('h, 'srv) debug_env =
  JoinPath :: "string \<Rightarrow> string \<Rightarrow> goerr + string"
  RoutePprof :: "(string \<times> 'h) list"
  LogMiddleware :: "'h \<Rightarrow> 'h"
  ServerHeaderMiddleware :: "string \<Rightarrow> 'h \<Rightarrow> 'h"
  RequestIDMiddleware :: "'h \<Rightarrow> 'h"
  WrapHandler :: "'h \<Rightarrow> ('h \<Rightarrow> 'h) list \<Rightarrow> 'h"
  mux_handler :: "'h mux \<Rightarrow> 'h"
  NewServer :: "addr_port \<Rightarrow> 'h \<Rightarrow> 'srv"
  srv_Start :: "'srv \<Rightarrow> goerr option"
  srv_Shutdown :: "'srv \<Rightarrow> goerr option"
  srv_LocalAddr :: "'srv \<Rightarrow> addr_port option"
  app_version :: string

text \<open>The configuration and the service, without their loggers.\<close>

record debug_conf =
  InitialAddr :: addr_port

record 'srv debug_service =
  ds_srv :: 'srv
  ds_userAgent :: string

text \<open>\<open>route\<close> registers the routes in the order of \<open>RoutePprof\<close>.\<close>

fun debug_route :: "('h, 'srv) debug_env \<Rightarrow> (string \<times> 'h) list \<Rightarrow> 'h mux \<Rightarrow> 'h mux option" where
  "debug_route E [] m = Some m"
| "debug_route E ((pattern, h) # ps) m =
     (case addPrefixToRoutePattern (JoinPath E) pattern pathPrefixPrivate of
        None \<Rightarrow> None
      | Some routePattern \<Rightarrow>
          (case mux_Handle routePattern (LogMiddleware E h) m of
             None \<Rightarrow> None
           | Some m \<Rightarrow> debug_route E ps m))"

definition debug_New :: "('h, 'srv) debug_env \<Rightarrow> debug_conf \<Rightarrow> 'srv debug_service option" where
  "debug_New E c =
     (let userAgent = ''AdGuardDNSCLI/'' @ app_version E in
      case debug_route E (RoutePprof E) [] of
        None \<Rightarrow> None
      | Some mux \<Rightarrow>
          let srvHdrMw = ServerHeaderMiddleware E userAgent;
              reqIDMw = RequestIDMiddleware E;
              handler = WrapHandler E (mux_handler E mux) [srvHdrMw, reqIDMw]
          in Some \<lparr>ds_srv = NewServer E (InitialAddr c) handler, ds_userAgent = userAgent\<rparr>)"

definition debug_LocalAddr :: "('h, 'srv) debug_env \<Rightarrow> 'srv debug_service \<Rightarrow> addr_port option" where
  "debug_LocalAddr E svc = srv_LocalAddr E (ds_srv svc)"

text \<open>
  The goroutine of \<open>Start\<close> serves until the server is shut down; if the server fails, the program
  panics.
\<close>

definition debug_serve :: "('h, 'srv) debug_env \<Rightarrow> 'srv debug_service \<Rightarrow> unit option" where
  "debug_serve E svc = (case srv_Start E (ds_srv svc) of Some err \<Rightarrow> None | None \<Rightarrow> Some ())"

text \<open>
  \<open>Start\<close> itself.  The goroutine assigns to the named result of \<open>Start\<close>; \<open>raced\<close> says that it does so
  after the \<open>return\<close> has set the result and before the caller has read it.
\<close>

definition debug_Start :: "('h, 'srv) debug_env \<Rightarrow> bool \<Rightarrow> 'srv debug_service \<Rightarrow> goerr option" where
  "debug_Start E raced svc = (if raced then srv_Start E (ds_srv svc) else None)"

definition debug_Shutdown :: "golibs \<Rightarrow> ('h, 'srv) debug_env \<Rightarrow> 'srv debug_service \<Rightarrow> goerr option" where
  "debug_Shutdown G E svc = annotate G (Msg ''debugsvc: shutting down server'') (srv_Shutdown E (ds_srv svc))"

section \<open>The registered routes\<close>

text \<open>A clean rooted path: its segments, and whether it ends with a slash.\<close>

definition segs_path :: "string list \<Rightarrow> bool \<Rightarrow> string" where
  "segs_path ss trail = slash # join_with slash ss @ (if trail then [slash] else [])"

definition clean_segments :: "string list \<Rightarrow> bool" where
  "clean_segments ss = (ss \<noteq> [] \<and> (\<forall>s \<in> set ss. s \<noteq> [] \<and> s \<noteq> ''.'' \<and> s \<noteq> ''..'' \<and> slash \<notin> set s \<and> CHR ''{'' \<notin> set s))"

lemma clean_segs_clean: "\<forall>s \<in> set ss. s \<noteq> [] \<and> s \<noteq> ''.'' \<and> s \<noteq> ''..'' \<Longrightarrow> clean_segs acc ss = acc @ ss"
  by (induction acc ss rule: clean_segs.induct) auto

lemma split_segs_path:
  assumes "clean_segments ss"
  shows "split_on slash (segs_path ss trail) = [] # ss @ (if trail then [[]] else [])"
proof -
  have "split_on slash (join_with slash ss) = ss"
    using assms by (intro split_join) (auto simp: clean_segments_def)
  moreover have "segs_path ss True = [] @ slash # join_with slash ss @ slash # []"
    "segs_path ss False = [] @ slash # join_with slash ss" by (simp_all add: segs_path_def)
  ultimately show ?thesis
    by (cases trail) (simp_all only: split_on_append split_on_notin if_True if_False, simp_all add: split_on_notin)
qed

lemma has_suffix_one: "has_suffix s [c] \<longleftrightarrow> s \<noteq> [] \<and> last s = c"
  by (cases s rule: rev_cases) (auto simp: has_suffix_def)

lemma segs_path_suffix:
  assumes "clean_segments ss"
  shows "has_suffix (segs_path ss trail) [slash] \<longleftrightarrow> trail"
proof (cases trail)
  case False
  have ss: "ss \<noteq> []" "last ss \<noteq> []" "slash \<notin> set (last ss)"
    using assms last_in_set [of ss] by (auto simp: clean_segments_def)
  have "last (last ss) \<in> set (last ss)" using ss(2) by (rule last_in_set)
  then have l: "last (join_with slash ss) \<noteq> slash" using last_join_with [OF ss(1,2), of slash] ss(3) by metis
  have s: "split_on slash (join_with slash ss) = ss"
    by (rule split_join [OF ss(1)]) (use assms in \<open>simp add: clean_segments_def\<close>)
  have "join_with slash ss \<noteq> []"
  proof
    assume "join_with slash ss = []"
    then have "ss = [[]]" using s by simp
    with ss(2) show False by simp
  qed
  with l False show ?thesis by (simp add: has_suffix_one segs_path_def)
qed (simp add: has_suffix_one segs_path_def)

lemma clean_segs_path:
  assumes "clean_segments ss"
  shows "clean_segs acc (split_on slash (segs_path ss trail)) = acc @ ss"
proof -
  have "clean_segs (acc @ ss) (if trail then [[]] else []) = acc @ ss" by simp
  then show ?thesis
    using assms by (simp add: split_segs_path [OF assms] clean_segs_append clean_segs_clean clean_segments_def)
qed

lemma clean_path_id: "clean_segments ss \<Longrightarrow> clean_path (segs_path ss trail) = segs_path ss trail"
  using segs_path_suffix [of ss trail] segs_path_suffix [of ss False]
  by (simp add: clean_path_def Let_def clean_segs_path) (simp add: segs_path_def)

lemma private_segments: "clean_segments ss \<Longrightarrow> clean_segments (''private'' # ss)"
  by (simp add: clean_segments_def)

lemma segs_path_private:
  "ss \<noteq> [] \<Longrightarrow> segs_path (''private'' # ss) trail = pathPrefixPrivate @ segs_path ss trail"
  by (simp add: segs_path_def pathPrefixPrivate_def join_with_Cons)

lemma JoinPath_private:
  assumes "clean_segments ss"
  shows "path_JoinPath pathPrefixPrivate (segs_path ss trail) = Inr (pathPrefixPrivate @ segs_path ss trail)"
proof -
  note p = private_segments [OF assms]
  have "split_on slash pathPrefixPrivate = [[], ''private'']" by (simp add: pathPrefixPrivate_def)
  then have "clean_segs [] (split_on slash pathPrefixPrivate @ split_on slash (segs_path ss trail)) = ''private'' # ss"
    by (simp add: clean_segs_append clean_segs_path [OF assms])
  moreover have "ss \<noteq> []" using assms by (simp add: clean_segments_def)
  moreover have "has_prefix pathPrefixPrivate [slash]" by (simp add: has_prefix_def pathPrefixPrivate_def)
  ultimately show ?thesis
    using segs_path_suffix [OF assms, of trail] segs_path_suffix [OF p, of False]
    by (simp add: path_JoinPath_def join_path_def Let_def)
      (simp add: segs_path_def pathPrefixPrivate_def join_with_Cons)
qed

text \<open>A route of \<open>RoutePprof\<close>: a method, a clean path and a handler.\<close>

type_synonym 'h route = "string \<times> string list \<times> bool \<times> 'h"

definition route_pattern :: "string \<Rightarrow> 'h route \<Rightarrow> string" where
  "route_pattern pre r = (case r of (method, ss, trail, h) \<Rightarrow> method @ CHR 0x20 # pre @ segs_path ss trail)"

definition route_ok :: "'h route \<Rightarrow> bool" where
  "route_ok r = (case r of (method, ss, trail, h) \<Rightarrow>
     method \<noteq> [] \<and> (\<forall>c \<in> set method. token_char c) \<and> clean_segments ss)"

definition route_handler :: "'h route \<Rightarrow> 'h" where
  "route_handler r = (case r of (method, ss, trail, h) \<Rightarrow> h)"

lemma route_method: "route_ok (method, ss, trail, h) \<Longrightarrow> CHR 0x20 \<notin> set method"
  by (auto simp: route_ok_def token_char_def alnum_def)

lemma addPrefix_route:
  assumes "route_ok r" "JP = path_JoinPath"
  shows "addPrefixToRoutePattern JP (route_pattern [] r) pathPrefixPrivate = Some (route_pattern pathPrefixPrivate r)"
proof -
  obtain meth ss trail h where r: "r = (meth, ss, trail, h)" by (cases r)
  with assms have "clean_segments ss" "CHR 0x20 \<notin> set meth"
    using route_method [OF assms(1) [unfolded r]] by (simp_all add: route_ok_def)
  with r assms(2) show ?thesis
    by (simp add: addPrefixToRoutePattern_def route_pattern_def cut_append JoinPath_private)
qed

lemma set_segs_path: "clean_segments ss \<Longrightarrow> CHR ''{'' \<notin> set (segs_path ss trail)"
  using set_join_with [of slash ss] by (fastforce simp: segs_path_def clean_segments_def)

lemma pattern_route:
  assumes "route_ok r"
  shows "pattern_ok (route_pattern pathPrefixPrivate r)"
proof -
  obtain meth ss trail h where r: "r = (meth, ss, trail, h)" by (cases r)
  note m = route_method [OF assms [unfolded r]]
  have ss: "clean_segments ss" "ss \<noteq> []" using assms r by (auto simp: route_ok_def clean_segments_def)
  let ?p = "segs_path (''private'' # ss) trail"
  note p = private_segments [OF ss(1)]
  have "cut (CHR 0x20) (route_pattern pathPrefixPrivate r) = (meth, ?p, True)"
    using m ss(2) by (simp add: r route_pattern_def cut_append segs_path_private)
  moreover have "dropWhile (\<lambda>c. c = CHR 0x20 \<or> c = CHR 0x09) ?p = ?p" "dropWhile (\<lambda>c. c \<noteq> slash) ?p = ?p" "slash \<in> set ?p"
    by (simp_all add: segs_path_def)
  ultimately show ?thesis
    using assms r clean_path_id [OF p, of trail] set_segs_path [OF p, of trail]
    by (simp add: pattern_ok_def route_ok_def Let_def)
qed

lemma route_pattern_inj:
  assumes "route_ok r" "route_ok r'" "route_pattern pathPrefixPrivate r = route_pattern pathPrefixPrivate r'"
  shows "fst r = fst r' \<and> fst (snd r) = fst (snd r') \<and> fst (snd (snd r)) = fst (snd (snd r'))"
proof -
  obtain m ss t h where r: "r = (m, ss, t, h)" by (cases r)
  obtain m' ss' t' h' where r': "r' = (m', ss', t', h')" by (cases r')
  have "cut (CHR 0x20) (route_pattern pathPrefixPrivate r) = (m, pathPrefixPrivate @ segs_path ss t, True)"
    "cut (CHR 0x20) (route_pattern pathPrefixPrivate r') = (m', pathPrefixPrivate @ segs_path ss' t', True)"
    using route_method [OF assms(1) [unfolded r]] route_method [OF assms(2) [unfolded r']]
    by (simp_all add: r r' route_pattern_def cut_append)
  then have *: "m = m'" "segs_path ss t = segs_path ss' t'" using assms(3) by simp_all
  have c: "clean_segments ss" "clean_segments ss'" using assms(1,2) r r' by (auto simp: route_ok_def)
  have "t = t'" using segs_path_suffix [OF c(1), of t] segs_path_suffix [OF c(2), of t'] *(2) by simp
  moreover have "ss = ss'" using clean_segs_path [OF c(1), of "[]" t] clean_segs_path [OF c(2), of "[]" t'] *(2) by simp
  ultimately show ?thesis using *(1) r r' by simp
qed

lemma debug_route_run:
  assumes "\<forall>r \<in> set rs. route_ok r" "distinct (map (route_pattern pathPrefixPrivate) rs)"
    "\<forall>r \<in> set rs. route_pattern pathPrefixPrivate r \<notin> fst ` set m" "JoinPath E = path_JoinPath"
  shows "debug_route E (map (\<lambda>r. (route_pattern [] r, route_handler r)) rs) m =
    Some (m @ map (\<lambda>r. (route_pattern pathPrefixPrivate r, LogMiddleware E (route_handler r))) rs)"
  using assms
proof (induction rs arbitrary: m)
  case (Cons r rs)
  then have "mux_Handle (route_pattern pathPrefixPrivate r) (LogMiddleware E (route_handler r)) m =
      Some (m @ [(route_pattern pathPrefixPrivate r, LogMiddleware E (route_handler r))])"
    by (simp add: mux_Handle_def pattern_route)
  moreover have "route_pattern pathPrefixPrivate r' \<noteq> route_pattern pathPrefixPrivate r" if "r' \<in> set rs" for r'
    using Cons.prems(2) that by (metis distinct.simps(2) image_eqI list.simps(9) list.set_map)
  moreover have "debug_route E (map (\<lambda>r. (route_pattern [] r, route_handler r)) rs)
      (m @ [(route_pattern pathPrefixPrivate r, LogMiddleware E (route_handler r))]) =
    Some ((m @ [(route_pattern pathPrefixPrivate r, LogMiddleware E (route_handler r))]) @
      map (\<lambda>r. (route_pattern pathPrefixPrivate r, LogMiddleware E (route_handler r))) rs)"
    by (rule Cons.IH) (use Cons.prems calculation(2) in auto)
  ultimately show ?case using Cons.prems by (simp add: addPrefix_route)
qed simp

section \<open>Properties\<close>

lemma distinct_patterns:
  assumes "\<forall>r \<in> set rs. route_ok r" "distinct (map (\<lambda>(method, ss, trail, h). (method, ss, trail)) rs)"
  shows "distinct (map (route_pattern pathPrefixPrivate) rs)"
  using assms
proof (induction rs)
  case (Cons r rs)
  have "route_pattern pathPrefixPrivate r \<noteq> route_pattern pathPrefixPrivate r'" if "r' \<in> set rs" for r'
  proof
    assume "route_pattern pathPrefixPrivate r = route_pattern pathPrefixPrivate r'"
    with Cons.prems(1) that have "fst r = fst r' \<and> fst (snd r) = fst (snd r') \<and> fst (snd (snd r)) = fst (snd (snd r'))"
      by (intro route_pattern_inj) simp_all
    with Cons.prems(2) that show False by (force simp: case_prod_unfold)
  qed
  with Cons show ?case by auto
qed simp

lemma debug_New_total:
  assumes "JoinPath E = path_JoinPath" "\<forall>r \<in> set rs. route_ok r"
    "distinct (map (\<lambda>(method, ss, trail, h). (method, ss, trail)) rs)"
    "RoutePprof E = map (\<lambda>r. (route_pattern [] r, route_handler r)) rs"
  shows "\<exists>svc. debug_New E c = Some svc"
  using debug_route_run [OF assms(2) distinct_patterns [OF assms(2,3)], of "[]" E] assms(1,4)
  by (simp add: debug_New_def Let_def)

text \<open>
  C31: For any distinct routes of \<open>RoutePprof\<close> with clean paths the creation of the debug service does
  not panic: every route is registered with the same method, under \<open>/private\<close>, behind the log
  middleware, and the server gets the multiplexer behind the two outer middlewares.
\<close>

lemma debug_New_routes:
  assumes "JoinPath E = path_JoinPath" "\<forall>r \<in> set rs. route_ok r"
    "distinct (map (\<lambda>(method, ss, trail, h). (method, ss, trail)) rs)"
    "RoutePprof E = map (\<lambda>r. (route_pattern [] r, route_handler r)) rs"
  shows "debug_New E c = Some \<lparr>
      ds_srv = NewServer E (InitialAddr c) (WrapHandler E
        (mux_handler E (map (\<lambda>r. (route_pattern ''/private'' r, LogMiddleware E (route_handler r))) rs))
        [ServerHeaderMiddleware E (''AdGuardDNSCLI/'' @ app_version E), RequestIDMiddleware E]),
      ds_userAgent = ''AdGuardDNSCLI/'' @ app_version E\<rparr>"
  using debug_route_run [OF assms(2) distinct_patterns [OF assms(2,3)], of "[]" E] assms(1,4)
  by (simp add: debug_New_def Let_def pathPrefixPrivate_def)

definition demo_debug :: "(string, string) debug_env" where
  "demo_debug = \<lparr>JoinPath = path_JoinPath,
     RoutePprof = [(''GET /debug/pprof/'', ''index''), (''GET /debug/pprof/cmdline'', ''cmdline'')],
     LogMiddleware = (@) ''log:'', ServerHeaderMiddleware = (@), RequestIDMiddleware = (@) ''id:'',
     WrapHandler = (\<lambda>h ms. foldr id ms h), mux_handler = (\<lambda>m. concat (map (\<lambda>(p, h). p @ ''='' @ h @ '';'') m)),
     NewServer = (\<lambda>_ h. h), srv_Start = (\<lambda>_. None), srv_Shutdown = (\<lambda>_. Some ErrNoValue), srv_LocalAddr = (\<lambda>_. None),
     app_version = ''v0''\<rparr>"

definition demo_routes :: "string route list" where
  "demo_routes = [(''GET'', [''debug'', ''pprof''], True, ''index''), (''GET'', [''debug'', ''pprof'', ''cmdline''], False, ''cmdline'')]"

lemma demo_routes:
  "\<forall>r \<in> set demo_routes. route_ok r" "distinct (map (\<lambda>(method, ss, trail, h). (method, ss, trail)) demo_routes)"
  "RoutePprof demo_debug = map (\<lambda>r. (route_pattern [] r, route_handler r)) demo_routes"
  by code_simp (simp_all add: demo_debug_def demo_routes_def route_pattern_def route_handler_def segs_path_def)

lemma debug_New_routes_witness:
  "map_option ds_srv (debug_New demo_debug \<lparr>InitialAddr = (A4 0x7F000001, 6060)\<rparr>) =
     Some ''AdGuardDNSCLI/v0id:GET /private/debug/pprof/=log:index;GET /private/debug/pprof/cmdline=log:cmdline;''"
proof -
  have "JoinPath demo_debug = path_JoinPath" by (simp add: demo_debug_def)
  from debug_New_routes [OF this demo_routes, of "\<lparr>InitialAddr = (A4 0x7F000001, 6060)\<rparr>"] show ?thesis
    by (simp add: demo_debug_def demo_routes_def route_pattern_def route_handler_def segs_path_def)
qed

end
