(* ===== verification/Lifecycle.thy ===== *)
theory Lifecycle
  imports CmdStorage DebugService
begin

text \<open>
  The life of the program as a service: the handler that shuts services down
  (\<open>cmd/servicehandler.go\<close>), the creation of the DNS service from the configuration (\<open>cmd/dns.go\<close>), and the
  start and stop of the program (\<open>cmd/program.go\<close>).  A panic is \<open>None\<close>.  Loggers and the context with the
  timeout of the shutdown are left out.
\<close>

section \<open>The service handler\<close>

definition handler_add :: "'s list \<Rightarrow> 's list \<Rightarrow> 's list" where
  "handler_add services svcs = services @ svcs"

text \<open>
  The loop of \<open>shutdown\<close>, from the last service to the first; \<open>shut\<close> is the \<open>Shutdown\<close> of a service
  with the state that it changes.
\<close>

fun shutdown_loop ::
  "('s \<Rightarrow> 'w \<Rightarrow> (goerr option \<times> 'w) option) \<Rightarrow> (nat \<times> 's) list \<Rightarrow> goerr option list \<Rightarrow> 'w
     \<Rightarrow> (goerr option list \<times> 'w) option" where
  "shutdown_loop shut [] errs w = Some (errs, w)"
| "shutdown_loop shut ((i, s) # ss) errs w =
     (case shut s w of
        None \<Rightarrow> None
      | Some (Some err, w) \<Rightarrow> shutdown_loop shut ss (errs @ [Some (EWrap (MsgAt ''service: at index'' i) err)]) w
      | Some (None, w) \<Rightarrow> shutdown_loop shut ss errs w)"

definition handler_shutdown ::
  "('s \<Rightarrow> 'w \<Rightarrow> (goerr option \<times> 'w) option) \<Rightarrow> 's list \<Rightarrow> 'w \<Rightarrow> (goerr option \<times> 'w) option" where
  "handler_shutdown shut services w =
     map_option (\<lambda>(errs, w). (errors_join errs, w)) (shutdown_loop shut (rev (enumerate 0 services)) [] w)"

text \<open>
  \<open>handle\<close>: what it sends to \<open>errCh\<close> once the receive from \<open>done\<close> returns, with its \<open>ok\<close>.  A panic is
  recovered and logged, and then nothing is sent.
\<close>

definition handle ::
  "('s \<Rightarrow> 'w \<Rightarrow> (goerr option \<times> 'w) option) \<Rightarrow> bool \<Rightarrow> 's list \<Rightarrow> 'w \<Rightarrow> (goerr option \<times> 'w) option" where
  "handle shut ok services w = (if ok then None else handler_shutdown shut services w)"

section \<open>The environment\<close>

text \<open>
  The parameters of the program: \<open>dnsproxy\<close>, the network, the cache of answers with its empty value,
  \<open>netutil.IsLocallyServed\<close>, a \<open>proxy.UpstreamConfig\<close> with given \<open>Upstreams\<close>, and the library of the debug
  service.
\<close>

record ('r, 'u, 'cc, 'uc, 'prx, 'c, 'h, 'srv) life_env =
  le_E :: conf_env
  le_B :: "'r boot_env"
  le_U :: "('r, 'u, 'cc) cmd_ups_env"
  le_X :: "('uc, 'r list, 'cc, 'prx) proxy_env"
  le_UC :: "'u list \<Rightarrow> 'uc"
  le_N :: "'u list \<Rightarrow> dns_net"
  le_C :: "'c gocache"
  le_c0 :: 'c
  le_IsLocallyServed :: "addr \<Rightarrow> bool"
  le_D :: "('h, 'srv) debug_env"

datatype ('r, 'cc, 'c, 'prx, 'srv) service =
    DebugSvc "'srv debug_service"
  | ClosersSvc "'r list"
  | StorageSvc "('r ups_options, 'cc, 'c rdns) storage"
  | DnsSvc "'prx dns_service"

text \<open>The \<open>Shutdown\<close> of each service; the state records the services whose \<open>Shutdown\<close> has run.\<close>

definition shut_service ::
  "golibs \<Rightarrow> ('r, 'u, 'cc, 'uc, 'prx, 'c, 'h, 'srv) life_env \<Rightarrow> ('r, 'cc, 'c, 'prx, 'srv) service
     \<Rightarrow> ('r, 'cc, 'c, 'prx, 'srv) service list \<Rightarrow> (goerr option \<times> ('r, 'cc, 'c, 'prx, 'srv) service list) option" where
  "shut_service G L s w =
     (case s of
        DebugSvc svc \<Rightarrow> Some (debug_Shutdown G (le_D L) svc, w @ [s])
      | ClosersSvc cl \<Rightarrow> Some (closers_Shutdown (le_B L) cl, w @ [s])
      | StorageSvc st \<Rightarrow> map_option (\<lambda>(err, _). (err, w @ [s])) (Shutdown (le_U L) st)
      | DnsSvc svc \<Rightarrow> Some (svc_Shutdown (le_X L) svc, w @ [s]))"

section \<open>The DNS service\<close>

text \<open>\<open>dnsConfig.toInternal\<close>; reading through a nil pointer panics.\<close>

definition dns_toInternal ::
  "('r, 'u, 'cc, 'uc, 'prx, 'c, 'h, 'srv) life_env \<Rightarrow> dnsConfig \<Rightarrow> 'u list \<Rightarrow> 'u list \<Rightarrow> 'r list
     \<Rightarrow> ('uc, 'r list) svc_conf option" where
  "dns_toInternal L c general priv boot =
     (case (Server c, Cache c, Fallback c) of
        (Some srv, Some cch, Some fallback) \<Rightarrow>
          (case (BindRetry srv, PendingRequests srv) of
             (Some retry, Some pending) \<Rightarrow>
               (if None \<in> set (ListenAddresses srv) \<or> None \<in> set (fbc_Servers fallback) then None
                else
                  let listenAddrs = map (\<lambda>s. ip_Address (the s)) (ListenAddresses srv);
                      priv = (if length priv = 0 then None else Some (le_UC L priv))
                  in Some \<lparr>sv_PrivateSubnets = le_IsLocallyServed L, sv_Bootstrap = boot,
                       sv_GeneralUpstreams = le_UC L general, sv_PrivateRDNSUpstreams = priv,
                       sv_Cache = cache_toInternal cch,
                       sv_Fallbacks = fallback_toInternal fallback, sv_BindRetry = bindRetry_toInternal retry,
                       sv_PendingRequests = pendingRequests_toInternal pending, sv_ListenAddrs = listenAddrs\<rparr>)
           | _ \<Rightarrow> None)
      | _ \<Rightarrow> None)"

text \<open>
  \<open>newDNSServiceConfig\<close>: the configuration, the source of identifiers that the storage asks, and the
  services that are added to the handler, also on an error.
\<close>

definition newDNSServiceConfig ::
  "golibs \<Rightarrow> ('r, 'u, 'cc, 'uc, 'prx, 'c, 'h, 'srv) life_env \<Rightarrow> dnsConfig \<Rightarrow> ('r, 'cc, 'c, 'prx, 'srv) service list
     \<Rightarrow> ((goerr + ('uc, 'r list) svc_conf) \<times> ('r, 'cc, 'c, 'prx, 'srv) service list) option" where
  "newDNSServiceConfig G L c hdlr =
     (case Bootstrap c of
        None \<Rightarrow> None
      | Some bootConf \<Rightarrow>
          (case newResolvers G (le_B L) bootConf of
             None \<Rightarrow> None
           | Some (boot, closers, Some err) \<Rightarrow> Some (Inl (EWrap (Msg ''creating resolvers'') err), hdlr)
           | Some (boot, closers, None) \<Rightarrow>
               let hdlr = handler_add hdlr [ClosersSvc closers] in
               (case Upstream c of
                  None \<Rightarrow> None
                | Some upsConf \<Rightarrow>
                    (case newUpstreams G (le_E L) (le_U L) upsConf boot empty_maps of
                       None \<Rightarrow> None
                     | Some (Some err, st) \<Rightarrow> Some (Inl (EWrap (Msg ''classifying upstreams'') err), hdlr)
                     | Some (None, st) \<Rightarrow>
                         (case Cache c of
                            None \<Rightarrow> None
                          | Some cacheConf \<Rightarrow>
                              let cs = snd (newClientStorage G (le_C L) (le_N L) (le_c0 L) (le_U L) (privateUps st)
                                    (staticUps st) (autodeviceUps st) cacheConf) in
                              (case snd (Start cs) of
                                 Some err \<Rightarrow> Some (Inl (EWrap (Msg ''starting client storage'') err), hdlr)
                               | None \<Rightarrow>
                                   let hdlr = handler_add hdlr [StorageSvc cs] in
                                   map_option (\<lambda>dnsConf. (Inr dnsConf, hdlr))
                                     (dns_toInternal L c (generalUps st) (privateUps st) boot)))))))"

definition initDNSService ::
  "golibs \<Rightarrow> ('r, 'u, 'cc, 'uc, 'prx, 'c, 'h, 'srv) life_env \<Rightarrow> dnsConfig \<Rightarrow> ('r, 'cc, 'c, 'prx, 'srv) service list
     \<Rightarrow> (goerr option \<times> ('r, 'cc, 'c, 'prx, 'srv) service list) option" where
  "initDNSService G L c hdlr =
     (case newDNSServiceConfig G L c hdlr of
        None \<Rightarrow> None
      | Some (Inl err, hdlr) \<Rightarrow> Some (Some err, hdlr)
      | Some (Inr dnsConf, hdlr) \<Rightarrow>
          (case New G (le_X L) dnsConf of
             Inl err \<Rightarrow> Some (Some (EWrap (Msg ''creating dns service'') err), hdlr)
           | Inr dnsSvc \<Rightarrow>
               (case svc_Start (le_X L) dnsSvc of
                  Some err \<Rightarrow> Some (Some (EWrap (Msg ''starting dns service'') err), hdlr)
                | None \<Rightarrow> Some (None, handler_add hdlr [DnsSvc dnsSvc]))))"

section \<open>The program\<close>

text \<open>
  \<open>Start\<close>: the error, and the services that the handler waits to shut down.  \<open>raced\<close> is the schedule of
  the goroutine of the debug service; \<open>errors.Check\<close> panics on an error.
\<close>

definition prog_Start ::
  "golibs \<Rightarrow> ('r, 'u, 'cc, 'uc, 'prx, 'c, 'h, 'srv) life_env \<Rightarrow> bool \<Rightarrow> configuration
     \<Rightarrow> (goerr option \<times> ('r, 'cc, 'c, 'prx, 'srv) service list) option" where
  "prog_Start G L raced conf =
     (case Debug conf of
        None \<Rightarrow> None
      | Some debug \<Rightarrow>
          (case (Pprof debug, DNS conf) of
             (Some pprof, Some dns) \<Rightarrow>
               if pp_Enabled pprof then
                 (case debug_New (le_D L) \<lparr>InitialAddr = (A4 0x7F000001, unat (pp_Port pprof))\<rparr> of
                    None \<Rightarrow> None
                  | Some debugSvc \<Rightarrow>
                      if debug_Start (le_D L) raced debugSvc \<noteq> None then None
                      else initDNSService G L dns (handler_add [] [DebugSvc debugSvc]))
               else initDNSService G L dns []
           | _ \<Rightarrow> None))"

text \<open>
  \<open>Stop\<close> closes \<open>done\<close>: the error that the handler sends; \<open>None\<close> if it sends nothing, and \<open>Stop\<close>
  waits forever.
\<close>

definition prog_Stop ::
  "golibs \<Rightarrow> ('r, 'u, 'cc, 'uc, 'prx, 'c, 'h, 'srv) life_env \<Rightarrow> ('r, 'cc, 'c, 'prx, 'srv) service list
     \<Rightarrow> (goerr option \<times> ('r, 'cc, 'c, 'prx, 'srv) service list) option" where
  "prog_Stop G L services = handle (shut_service G L) False services []"

section \<open>Shutting down\<close>

text \<open>The errors of services that do not panic, with their indices, in the order of the shutdown.\<close>

definition shutdown_errs :: "('s \<Rightarrow> goerr option) \<Rightarrow> (nat \<times> 's) list \<Rightarrow> goerr list" where
  "shutdown_errs f ss = List.map_filter (\<lambda>(i, s). map_option (EWrap (MsgAt ''service: at index'' i)) (f s)) ss"

lemma shutdown_loop_total:
  assumes "\<forall>s \<in> snd ` set ss. \<forall>w. shut s w = Some (f s, w @ [s])"
  shows "shutdown_loop shut ss errs w = Some (errs @ map Some (shutdown_errs f ss), w @ map snd ss)"
  using assms
proof (induction ss arbitrary: errs w)
  case (Cons x ss)
  obtain i s where "x = (i, s)" by (metis surj_pair)
  with Cons show ?case by (cases "f s") (auto simp: shutdown_errs_def List.map_filter_def)
qed (simp add: shutdown_errs_def List.map_filter_def)

lemma errors_join_all: "errors_join (map Some es) = (if es = [] then None else Some (EJoin es))"
proof -
  have "List.map_filter id (map Some es) = es" by (induction es) (simp_all add: List.map_filter_def)
  then show ?thesis by (simp add: errors_join_def split: list.split)
qed

lemma handler_shutdown_total:
  assumes "\<forall>s \<in> set services. \<forall>w. shut s w = Some (f s, w @ [s])"
  shows "handler_shutdown shut services w =
    (let es = shutdown_errs f (rev (enumerate 0 services)) in Some (if es = [] then None else Some (EJoin es), w @ rev services))"
proof -
  have s: "snd ` set (rev (enumerate 0 services)) = set services" by (metis list.set_map map_snd_enumerate rev_map set_rev)
  show ?thesis
    using shutdown_loop_total [OF assms [folded s], of "[]" w]
    by (simp add: handler_shutdown_def errors_join_all Let_def rev_map [symmetric])
qed

section \<open>Starting\<close>

lemma resolvers_loop_ok:
  assumes "\<forall>p \<in> set ps. \<exists>x r. p = Some x \<and> NewUpstreamResolver B (addr_port_String B (ip_Address x)) opts = Inr r"
  shows "\<exists>rs. resolvers_loop B opts i ps errs res cls = Some (res @ rs, cls @ rs, errs) \<and> length rs = length ps"
  using assms
proof (induction ps arbitrary: i res cls)
  case (Cons p ps)
  then obtain x r where x: "p = Some x" "NewUpstreamResolver B (addr_port_String B (ip_Address x)) opts = Inr r" by auto
  from Cons.IH [of "Suc i" "res @ [r]" "cls @ [r]"] Cons.prems obtain rs where
    "resolvers_loop B opts (Suc i) ps errs (res @ [r]) (cls @ [r]) = Some ((res @ [r]) @ rs, (cls @ [r]) @ rs, errs)"
    "length rs = length ps" by auto
  with x show ?case by (intro exI [of _ "r # rs"]) simp
qed simp

text \<open>
  What \<open>dnsproxy\<close> accepts of a configuration: its bootstrap servers, the addresses of its groups when the
  bootstrap resolvers are there, its fallback servers, and the configuration of the proxy that the
  program makes of it, with which the proxy then starts.
\<close>

definition proxy_accepts :: "golibs \<Rightarrow> ('r, 'u, 'cc, 'uc, 'prx, 'c, 'h, 'srv) life_env \<Rightarrow> dnsConfig \<Rightarrow> bool" where
  "proxy_accepts G L d = (
     (\<forall>b p. Bootstrap d = Some b \<longrightarrow> Some p \<in> set (bs_Servers b) \<longrightarrow>
        (\<exists>r. NewUpstreamResolver (le_B L) (addr_port_String (le_B L) (ip_Address p))
           \<lparr>op_Timeout = bs_Timeout b, op_Bootstrap = None\<rparr> = Inr r)) \<and>
     (\<forall>b u gs boot closers. Bootstrap d = Some b \<longrightarrow> newResolvers G (le_B L) b = Some (boot, closers, None) \<longrightarrow>
        Upstream d = Some u \<longrightarrow> us_Groups u = Some gs \<longrightarrow> addresses_ok (le_U L) (conf_opts u boot) gs) \<and>
     (\<forall>hdlr hdlr' conf. newDNSServiceConfig G L d hdlr = Some (Inr conf, hdlr') \<longrightarrow>
        (\<exists>falls. ParseUpstreamsConfig (le_X L) (fb_Addresses (sv_Fallbacks conf)) (fb_Timeout (sv_Fallbacks conf))
           (sv_Bootstrap conf) = Inr falls) \<and>
        (\<forall>pc. newProxyConfig G (le_X L) conf (sv_Bootstrap conf) = Inr pc \<longrightarrow>
           (\<exists>prx. proxy_New (le_X L) pc = Inr prx \<and> proxy_Start (le_X L) prx = None))))"

lemma proxy_acceptsD:
  assumes "proxy_accepts G L d"
  shows "Bootstrap d = Some b \<Longrightarrow> Some p \<in> set (bs_Servers b) \<Longrightarrow>
      \<exists>r. NewUpstreamResolver (le_B L) (addr_port_String (le_B L) (ip_Address p)) \<lparr>op_Timeout = bs_Timeout b, op_Bootstrap = None\<rparr> = Inr r"
    "Bootstrap d = Some b \<Longrightarrow> newResolvers G (le_B L) b = Some (boot, closers, None) \<Longrightarrow>
      Upstream d = Some u \<Longrightarrow> us_Groups u = Some gs \<Longrightarrow> addresses_ok (le_U L) (conf_opts u boot) gs"
    "newDNSServiceConfig G L d hdlr = Some (Inr conf, hdlr') \<Longrightarrow>
      \<exists>falls. ParseUpstreamsConfig (le_X L) (fb_Addresses (sv_Fallbacks conf)) (fb_Timeout (sv_Fallbacks conf)) (sv_Bootstrap conf) = Inr falls"
    "newDNSServiceConfig G L d hdlr = Some (Inr conf, hdlr') \<Longrightarrow> newProxyConfig G (le_X L) conf (sv_Bootstrap conf) = Inr pc \<Longrightarrow>
      \<exists>prx. proxy_New (le_X L) pc = Inr prx \<and> proxy_Start (le_X L) prx = None"
  using assms unfolding proxy_accepts_def by blast+

lemma dns_toInternal_valid: "valid_dns G E d \<Longrightarrow> dns_toInternal L d general priv boot \<noteq> None"
  by (auto simp: valid_dns_def valid_server_def valid_fallback_def valid_ipPort_def dns_toInternal_def Let_def
      split: option.splits prod.splits)

lemma New_ok:
  assumes "proxy_accepts G L d" "newDNSServiceConfig G L d hdlr = Some (Inr conf, hdlr')"
  shows "\<exists>svc. New G (le_X L) conf = Inr svc \<and> svc_Start (le_X L) svc = None"
proof -
  obtain falls where "ParseUpstreamsConfig (le_X L) (fb_Addresses (sv_Fallbacks conf)) (fb_Timeout (sv_Fallbacks conf)) (sv_Bootstrap conf) = Inr falls"
    using proxy_acceptsD(3) [OF assms] by blast
  then obtain pc where pc: "newProxyConfig G (le_X L) conf (sv_Bootstrap conf) = Inr pc"
    by (auto simp: newProxyConfig_def newFallbacks_def case_prod_beta Let_def)
  obtain prx where "proxy_New (le_X L) pc = Inr prx" "proxy_Start (le_X L) prx = None"
    using proxy_acceptsD(4) [OF assms pc] by blast
  with pc show ?thesis by (simp add: New_def svc_Start_def)
qed

lemma initDNSService_valid:
  assumes "golibs_ok G" "valid_dns G (le_E L) d" "proxy_accepts G L d"
    "\<forall>u gs. Upstream d = Some u \<longrightarrow> us_Groups u = Some gs \<longrightarrow> distinct (map fst gs)"
  shows "\<exists>closers st svc. initDNSService G L d hdlr = Some (None, hdlr @ [ClosersSvc closers, StorageSvc st, DnsSvc svc]) \<and>
    length closers = length (bs_Servers (the (Bootstrap d))) \<and> \<not> gcDone st"
proof -
  obtain b u c gs where d: "Bootstrap d = Some b" "Upstream d = Some u" "Cache d = Some c" "us_Groups u = Some gs"
    "valid_bootstrap b" "valid_groups G (le_E L) gs"
    using assms(2) by (auto simp: valid_dns_def valid_upstream_def)
  have "\<forall>p \<in> set (bs_Servers b). \<exists>x r. p = Some x \<and>
      NewUpstreamResolver (le_B L) (addr_port_String (le_B L) (ip_Address x)) \<lparr>op_Timeout = bs_Timeout b, op_Bootstrap = None\<rparr> = Inr r"
  proof
    fix p assume p: "p \<in> set (bs_Servers b)"
    with d(5) obtain x where x: "p = Some x" by (auto simp: valid_bootstrap_def valid_ipPort_def)
    with p proxy_acceptsD(1) [OF assms(3) d(1)] show "\<exists>x r. p = Some x \<and>
        NewUpstreamResolver (le_B L) (addr_port_String (le_B L) (ip_Address x)) \<lparr>op_Timeout = bs_Timeout b, op_Bootstrap = None\<rparr> = Inr r"
      by blast
  qed
  from resolvers_loop_ok [OF this, of 0 "[]" "[]" "[]"] obtain boot where
    r: "newResolvers G (le_B L) b = Some (boot, boot, None)" "length boot = length (bs_Servers b)"
    using golibs_okD(1) [OF assms(1)] by (auto simp: newResolvers_def)
  have "addresses_ok (le_U L) (conf_opts u boot) gs" by (rule proxy_acceptsD(2) [OF assms(3) d(1) r(1) d(2,4)])
  from newUpstreams_built [OF assms(1) d(6,4) _ this] assms(4) d(2,4) obtain st where
    st: "newUpstreams G (le_E L) (le_U L) u boot empty_maps = Some (None, st)" by blast
  let ?cs = "snd (newClientStorage G (le_C L) (le_N L) (le_c0 L) (le_U L) (privateUps st) (staticUps st) (autodeviceUps st) c)"
  have gc: "\<not> gcDone ?cs" by (simp add: newClientStorage_def Let_def NewDefaultStorage_def)
  obtain conf where conf: "dns_toInternal L d (generalUps st) (privateUps st) boot = Some conf"
    using dns_toInternal_valid [OF assms(2)] by blast
  have n: "newDNSServiceConfig G L d hdlr = Some (Inr conf, hdlr @ [ClosersSvc boot, StorageSvc ?cs])"
    using d r st conf by (simp add: newDNSServiceConfig_def handler_add_def Let_def Start_def)
  obtain svc where "New G (le_X L) conf = Inr svc" "svc_Start (le_X L) svc = None" using New_ok [OF assms(3) n] by blast
  with n have "initDNSService G L d hdlr = Some (None, hdlr @ [ClosersSvc boot, StorageSvc ?cs, DnsSvc svc])"
    by (simp add: initDNSService_def handler_add_def)
  with gc r(2) d(1) show ?thesis by auto
qed

section \<open>Properties\<close>

text \<open>The result of the \<open>Shutdown\<close> of a service whose collector has not been stopped.\<close>

definition shut_result ::
  "golibs \<Rightarrow> ('r, 'u, 'cc, 'uc, 'prx, 'c, 'h, 'srv) life_env \<Rightarrow> ('r, 'cc, 'c, 'prx, 'srv) service \<Rightarrow> goerr option" where
  "shut_result G L s =
     (case s of
        DebugSvc svc \<Rightarrow> debug_Shutdown G (le_D L) svc
      | ClosersSvc cl \<Rightarrow> closers_Shutdown (le_B L) cl
      | StorageSvc st \<Rightarrow> fst (the (Shutdown (le_U L) st))
      | DnsSvc svc \<Rightarrow> svc_Shutdown (le_X L) svc)"

definition running :: "('r, 'cc, 'c, 'prx, 'srv) service list \<Rightarrow> bool" where
  "running services = (\<forall>st. StorageSvc st \<in> set services \<longrightarrow> \<not> gcDone st)"

lemma shut_service_running:
  assumes "running services"
  shows "\<forall>s \<in> set services. \<forall>w. shut_service G L s w = Some (shut_result G L s, w @ [s])"
proof (intro ballI allI)
  fix s w assume "s \<in> set services"
  with assms show "shut_service G L s w = Some (shut_result G L s, w @ [s])"
    by (cases s) (auto simp: shut_service_def shut_result_def running_def Shutdown_def)
qed

text \<open>
  A stop that finds the collector of the storage running shuts every service down, in the reverse
  of the order in which they were started and whatever errors the others return; it returns the
  errors of the services, joined, with their indices.
\<close>

lemma prog_Stop_all:
  assumes "running services"
  shows "prog_Stop G L services =
    (let es = shutdown_errs (shut_result G L) (rev (enumerate 0 services))
     in Some (if es = [] then None else Some (EJoin es), rev services))"
  using handler_shutdown_total [OF shut_service_running [OF assms, of G L], of "[]"]
  by (simp add: prog_Stop_def handle_def)

lemma prog_Stop_running:
  assumes "running services"
  shows "\<exists>err. prog_Stop G L services = Some (err, rev services)"
  using prog_Stop_all [OF assms, of G L] by (simp add: Let_def)

definition demo_proxy :: "(string list, string list, nat \<times> string list, string) proxy_env" where
  "demo_proxy = \<lparr>ParseUpstreamsConfig = (\<lambda>as _ _. Inr as), proxy_New = (\<lambda>_. Inr ''proxy''), proxy_Start = (\<lambda>_. None),
     proxy_Shutdown = (\<lambda>_. Some ErrNoValue), Resolve = (\<lambda>_. None)\<rparr>"

definition demo_life :: "(string, string, nat \<times> string list, string list, string, ref_cache, string, string) life_env" where
  "demo_life = \<lparr>le_E = ref_conf_env,
     le_B = \<lparr>addr_port_String = (\<lambda>_. ''9.9.9.10:53''), NewUpstreamResolver = (\<lambda>a _. Inr a), CloseResolver = (\<lambda>_. None)\<rparr>,
     le_U = demo_cmd_ups, le_X = demo_proxy, le_UC = id, le_N = (\<lambda>_. ref_net ''a.lan.'' 60), le_C = ref_gocache,
     le_c0 = (0, []), le_IsLocallyServed = (\<lambda>_. False), le_D = demo_debug\<rparr>"

lemma demo_accepted: "proxy_accepts G demo_life d"
  by (simp add: proxy_accepts_def demo_life_def demo_proxy_def demo_cmd_ups_def addresses_ok_def case_prod_beta)

text \<open>
  C10: The program starts from every valid configuration that \<open>dnsproxy\<close> accepts, that is if it makes a
  resolver of each bootstrap server, an upstream of the address of each group, and a proxy that starts of
  the configuration that the program passes to it: the debug service on the loopback address, if it is
  enabled, whose routes register and whose server starts, one resolver for each bootstrap server, the
  storage and the DNS service run, and a later stop returns after shutting all of them down in the
  reverse order.
\<close>

lemma valid_conf_starts:
  assumes "golibs_ok G" "groups_map c" "conf_Validate G (le_E L) (Some c) = None" "proxy_accepts G L (the (DNS c))"
    "JoinPath (le_D L) = path_JoinPath" "\<forall>r \<in> set rs. route_ok r"
    "distinct (map (\<lambda>(method, ss, trail, h). (method, ss, trail)) rs)"
    "RoutePprof (le_D L) = map (\<lambda>r. (route_pattern [] r, route_handler r)) rs"
    "\<forall>ds. pp_Enabled (the (Pprof (the (Debug c)))) \<longrightarrow>
       debug_New (le_D L) \<lparr>InitialAddr = (A4 0x7F000001, unat (pp_Port (the (Pprof (the (Debug c))))))\<rparr> = Some ds \<longrightarrow>
       srv_Start (le_D L) (ds_srv ds) = None"
  shows "\<exists>debug closers st svc err.
    prog_Start G L raced c = Some (None, debug @ [ClosersSvc closers, StorageSvc st, DnsSvc svc]) \<and>
    (if pp_Enabled (the (Pprof (the (Debug c))))
     then \<exists>ds. debug = [DebugSvc ds] \<and> debug_serve (le_D L) ds = Some () \<and>
       debug_New (le_D L) \<lparr>InitialAddr = (A4 0x7F000001, unat (pp_Port (the (Pprof (the (Debug c))))))\<rparr> = Some ds
     else debug = []) \<and>
    length closers = length (bs_Servers (the (Bootstrap (the (DNS c))))) \<and>
    prog_Stop G L (debug @ [ClosersSvc closers, StorageSvc st, DnsSvc svc]) =
      Some (err, [DnsSvc svc, StorageSvc st, ClosersSvc closers] @ debug)"
proof -
  have v: "valid_conf G (le_E L) c" using conf_Validate_valid [OF assms(1,2)] assms(3) by blast
  then obtain db pp d where p: "Debug c = Some db" "Pprof db = Some pp" "DNS c = Some d" "valid_dns G (le_E L) d"
    by (auto simp: valid_conf_def)
  let ?addr = "\<lparr>InitialAddr = (A4 0x7F000001, unat (pp_Port pp))\<rparr>"
  obtain ds where ds: "debug_New (le_D L) ?addr = Some ds"
    using debug_New_total [OF assms(5-8), of ?addr] by blast
  have start: "pp_Enabled pp \<Longrightarrow> srv_Start (le_D L) (ds_srv ds) = None" using assms(9) p(1,2) ds by simp
  let ?debug = "if pp_Enabled pp then [DebugSvc ds] else []"
  have "\<forall>u gs. Upstream d = Some u \<longrightarrow> us_Groups u = Some gs \<longrightarrow> distinct (map fst gs)"
    using assms(2) p(3) by (simp add: groups_map_def)
  from initDNSService_valid [OF assms(1) p(4) _ this, of ?debug] assms(4) p(3) obtain closers st svc where
    i: "initDNSService G L d ?debug = Some (None, ?debug @ [ClosersSvc closers, StorageSvc st, DnsSvc svc])"
    "length closers = length (bs_Servers (the (Bootstrap d)))" "\<not> gcDone st" by auto
  have s: "prog_Start G L raced c = Some (None, ?debug @ [ClosersSvc closers, StorageSvc st, DnsSvc svc])"
    using i(1) p ds start by (cases "pp_Enabled pp") (simp_all add: prog_Start_def handler_add_def debug_Start_def)
  have "running (?debug @ [ClosersSvc closers, StorageSvc st, DnsSvc svc])" using i(3) by (simp add: running_def)
  from prog_Stop_running [OF this] obtain err where
    e: "prog_Stop G L (?debug @ [ClosersSvc closers, StorageSvc st, DnsSvc svc]) =
      Some (err, rev (?debug @ [ClosersSvc closers, StorageSvc st, DnsSvc svc]))" by blast
  show ?thesis
    using s e i(2) p ds start by (cases "pp_Enabled pp") (fastforce simp: debug_serve_def)+
qed

lemma valid_conf_starts_witness:
  "\<exists>closers st svc err.
    prog_Start ref_golibs demo_life True (demo_configuration (demo_groups ''corp'')) =
      Some (None, [ClosersSvc closers, StorageSvc st, DnsSvc svc]) \<and> length closers = 1 \<and>
    prog_Stop ref_golibs demo_life [ClosersSvc closers, StorageSvc st, DnsSvc svc] =
      Some (err, [DnsSvc svc, StorageSvc st, ClosersSvc closers])"
proof -
  let ?c = "demo_configuration (demo_groups ''corp'')"
  have e: "le_E demo_life = ref_conf_env" by (simp add: demo_life_def)
  have v: "conf_Validate ref_golibs (le_E demo_life) (Some ?c) = None"
    unfolding e conf_Validate_valid [OF ref_golibs_ok demo_groups_map] by (rule demo_valid(2))
  from valid_conf_starts [OF ref_golibs_ok demo_groups_map v demo_accepted, where rs = demo_routes and raced = True] demo_routes show ?thesis
    by (simp add: demo_configuration_def demo_dns_def demo_life_def) (simp add: demo_debug_def)
qed

end
