(* ===== verification/ProgRun.thy ===== *)
theory ProgRun
  imports Lifecycle
begin

text \<open>
  The two goroutines of a running program and their channels: the handler that \<open>program.Start\<close> starts
  (\<open>cmd/servicehandler.go\<close>) and the caller of \<open>program.Stop\<close> (\<open>cmd/program.go\<close>).  \<open>prog_Stop\<close> of
  \<^theory_text>\<open>Lifecycle\<close> is what every interleaving of them comes to.
\<close>

section \<open>The program\<close>

text \<open>
  Where the handler is: not started, at the receive from \<open>done\<close>, in the loop of \<open>shutdown\<close> with the
  services and the errors it has, at the send to \<open>errCh\<close>, returned, or ended by a panic that
  \<open>RecoverAndLog\<close> has caught.
\<close>

datatype 's handler_pc =
    NoHandler
  | Receiving
  | ShuttingDown "(nat \<times> 's) list" "goerr option list"
  | Sending "goerr option"
  | HandlerReturned
  | HandlerRecovered

text \<open>Where the caller of \<open>Stop\<close> is: before the call, at the receive from \<open>errCh\<close>, or returned.\<close>

datatype stop_pc = NotStopped | AwaitingErr | StopReturned "goerr option"

text \<open>
  The channel \<open>done\<close> is only ever closed; \<open>errCh\<close> has no buffer, so that a send and a receive are one step.
  \<open>pr_down\<close> are the services that have been shut down.
\<close>

record 's prog_state =
  pr_done :: bool
  pr_handler :: "'s handler_pc"
  pr_stop :: stop_pc
  pr_down :: "'s list"

text \<open>After \<open>Start\<close>, which starts the handler only if it returns no error.\<close>

definition prog_started :: "goerr option \<Rightarrow> 's prog_state" where
  "prog_started err = \<lparr>pr_done = False, pr_handler = (if err = None then Receiving else NoHandler),
     pr_stop = NotStopped, pr_down = []\<rparr>"

inductive prog_step ::
  "golibs \<Rightarrow> ('r, 'u, 'cc, 'uc, 'prx, 'c, 'h, 'srv) life_env \<Rightarrow> ('r, 'cc, 'c, 'prx, 'srv) service list
     \<Rightarrow> ('r, 'cc, 'c, 'prx, 'srv) service prog_state \<Rightarrow> ('r, 'cc, 'c, 'prx, 'srv) service prog_state \<Rightarrow> bool"
  for G L services where
  close_done: "pr_stop p = NotStopped \<Longrightarrow> \<not> pr_done p \<Longrightarrow>
    prog_step G L services p (p\<lparr>pr_done := True, pr_stop := AwaitingErr\<rparr>)"
| receive: "pr_handler p = Receiving \<Longrightarrow> pr_done p \<Longrightarrow>
    prog_step G L services p (p\<lparr>pr_handler := ShuttingDown (rev (enumerate 0 services)) []\<rparr>)"
| shut: "pr_handler p = ShuttingDown ((i, s) # ss) errs \<Longrightarrow> shut_service G L s (pr_down p) = Some (err, w) \<Longrightarrow>
    prog_step G L services p (p\<lparr>pr_handler := ShuttingDown ss
      (case err of Some e \<Rightarrow> errs @ [Some (EWrap (MsgAt ''service: at index'' i) e)] | None \<Rightarrow> errs), pr_down := w\<rparr>)"
| shut_panic: "pr_handler p = ShuttingDown ((i, s) # ss) errs \<Longrightarrow> shut_service G L s (pr_down p) = None \<Longrightarrow>
    prog_step G L services p (p\<lparr>pr_handler := HandlerRecovered\<rparr>)"
| join: "pr_handler p = ShuttingDown [] errs \<Longrightarrow>
    prog_step G L services p (p\<lparr>pr_handler := Sending (errors_join errs)\<rparr>)"
| exchange: "pr_handler p = Sending err \<Longrightarrow> pr_stop p = AwaitingErr \<Longrightarrow>
    prog_step G L services p (p\<lparr>pr_handler := HandlerReturned, pr_stop := StopReturned err\<rparr>)"

inductive_cases prog_stepE: "prog_step G L services p p'"

text \<open>A run of a given number of steps.\<close>

inductive prog_run ::
  "golibs \<Rightarrow> ('r, 'u, 'cc, 'uc, 'prx, 'c, 'h, 'srv) life_env \<Rightarrow> ('r, 'cc, 'c, 'prx, 'srv) service list
     \<Rightarrow> ('r, 'cc, 'c, 'prx, 'srv) service prog_state \<Rightarrow> nat \<Rightarrow> ('r, 'cc, 'c, 'prx, 'srv) service prog_state \<Rightarrow> bool"
  for G L services p where
  here: "prog_run G L services p 0 p"
| more: "prog_run G L services p n p' \<Longrightarrow> prog_step G L services p' p'' \<Longrightarrow> prog_run G L services p (Suc n) p''"

section \<open>The invariant\<close>

text \<open>
  \<open>shutdown_loop\<close> from where the handler is gives what it gives from the start, and nothing is sent
  before the whole of it.
\<close>

definition stop_inv ::
  "golibs \<Rightarrow> ('r, 'u, 'cc, 'uc, 'prx, 'c, 'h, 'srv) life_env \<Rightarrow> ('r, 'cc, 'c, 'prx, 'srv) service list \<Rightarrow> bool
     \<Rightarrow> ('r, 'cc, 'c, 'prx, 'srv) service prog_state \<Rightarrow> bool" where
  "stop_inv G L services started p = (
     (case pr_handler p of
        NoHandler \<Rightarrow> \<not> started \<and> pr_down p = []
      | Receiving \<Rightarrow> started \<and> pr_down p = []
      | ShuttingDown ss errs \<Rightarrow> started \<and> pr_done p \<and>
          prog_Stop G L services = map_option (\<lambda>(es, w). (errors_join es, w)) (shutdown_loop (shut_service G L) ss errs (pr_down p))
      | Sending err \<Rightarrow> started \<and> pr_done p \<and> prog_Stop G L services = Some (err, pr_down p)
      | HandlerReturned \<Rightarrow> started \<and> pr_done p \<and> (\<exists>err. prog_Stop G L services = Some (err, pr_down p))
      | HandlerRecovered \<Rightarrow> started \<and> pr_done p \<and> prog_Stop G L services = None) \<and>
     (pr_done p \<longleftrightarrow> pr_stop p \<noteq> NotStopped) \<and>
     (pr_handler p = HandlerReturned \<longleftrightarrow> (\<exists>err. pr_stop p = StopReturned err)) \<and>
     (\<forall>err. pr_stop p = StopReturned err \<longrightarrow> prog_Stop G L services = Some (err, pr_down p)))"

lemma stop_inv_started: "stop_inv G L services (err = None) (prog_started err)"
  by (simp add: stop_inv_def prog_started_def)

lemma stop_inv_step:
  assumes "prog_step G L services p p'" "stop_inv G L services started p"
  shows "stop_inv G L services started p'"
  using assms
proof (cases rule: prog_step.cases)
  case receive
  with assms(2) show ?thesis by (auto simp: stop_inv_def prog_Stop_def handle_def handler_shutdown_def)
next
  case (shut i s ss errs err w)
  with assms(2) show ?thesis by (cases err) (auto simp: stop_inv_def)
qed (auto simp: stop_inv_def split: handler_pc.splits)

lemma stop_inv_run:
  assumes "prog_run G L services (prog_started err) n p"
  shows "stop_inv G L services (err = None) p"
  using assms by (induction rule: prog_run.induct) (auto intro: stop_inv_started stop_inv_step)

section \<open>Progress\<close>

text \<open>The steps that are left at most.\<close>

definition stop_rank :: "nat \<Rightarrow> 's prog_state \<Rightarrow> nat" where
  "stop_rank n p = (if pr_done p then 0 else 1) +
     (case pr_handler p of
        Receiving \<Rightarrow> n + 3
      | ShuttingDown ss errs \<Rightarrow> length ss + 2
      | Sending err \<Rightarrow> 1
      | _ \<Rightarrow> 0)"

lemma stop_rank_step:
  "prog_step G L services p p' \<Longrightarrow> stop_rank (length services) p' < stop_rank (length services) p"
  by (auto elim!: prog_stepE simp: stop_rank_def)

lemma stop_rank_run:
  "prog_run G L services p n p' \<Longrightarrow> n + stop_rank (length services) p' \<le> stop_rank (length services) p"
  by (induction rule: prog_run.induct) (auto dest: stop_rank_step)

text \<open>What is left when no step is possible.\<close>

lemma stopped:
  assumes "stop_inv G L services started p" "\<not> (\<exists>p'. prog_step G L services p p')"
  shows "pr_stop p = (case prog_Stop G L services of
       Some (err, w) \<Rightarrow> if started then StopReturned err else AwaitingErr
     | None \<Rightarrow> AwaitingErr)"
proof -
  have "pr_done p" using assms prog_step.close_done [of p G L services] by (auto simp: stop_inv_def)
  moreover have "pr_handler p \<noteq> ShuttingDown ss errs" for ss errs
  proof
    assume s: "pr_handler p = ShuttingDown ss errs"
    show False
    proof (cases ss)
      case Nil
      with s prog_step.join assms(2) show False by blast
    next
      case (Cons x xs)
      obtain i svc where "x = (i, svc)" by fastforce
      with s Cons show False
        using prog_step.shut [of p i svc xs errs G L] prog_step.shut_panic [of p i svc xs errs G L] assms(2)
        by (cases "shut_service G L svc (pr_down p)") fastforce+
    qed
  qed
  ultimately show ?thesis
    using assms prog_step.receive [of p G L services] prog_step.exchange [of p _ G L services]
    by (cases "pr_handler p"; cases "pr_stop p") (auto simp: stop_inv_def split: option.splits)
qed

text \<open>The services that a start has made are running.\<close>

lemma running_simps:
  "running []" "running (ss @ ts) \<longleftrightarrow> running ss \<and> running ts"
  "running (s # ss) \<longleftrightarrow> (\<forall>st. s = StorageSvc st \<longrightarrow> \<not> gcDone st) \<and> running ss"
  by (auto simp: running_def)

lemma newClientStorage_running:
  "\<not> gcDone (snd (newClientStorage G C N c0 U us ss as cch))"
  by (simp add: newClientStorage_def Let_def NewDefaultStorage_def)

lemma newDNSServiceConfig_running:
  "newDNSServiceConfig G L c hdlr = Some (r, hdlr') \<Longrightarrow> running hdlr \<Longrightarrow> running hdlr'"
  by (auto simp: newDNSServiceConfig_def handler_add_def Let_def running_simps newClientStorage_running
      split: option.splits prod.splits)

lemma initDNSService_running:
  "initDNSService G L c hdlr = Some (err, hdlr') \<Longrightarrow> running hdlr \<Longrightarrow> running hdlr'"
  by (auto simp: initDNSService_def handler_add_def running_simps dest!: newDNSServiceConfig_running
      split: option.splits sum.splits prod.splits)

lemma prog_Start_running: "prog_Start G L raced c = Some (err, services) \<Longrightarrow> running services"
  by (auto simp: prog_Start_def handler_add_def running_simps split: option.splits if_splits
      dest!: initDNSService_running)

lemma run_ends: "\<exists>n p'. prog_run G L services p n p' \<and> \<not> (\<exists>p''. prog_step G L services p' p'')"
proof -
  have "\<exists>n p'. prog_run G L services p0 n p' \<and> \<not> (\<exists>p''. prog_step G L services p' p'')"
    if "prog_run G L services p0 m p" for p0 m p
    using that
  proof (induction "stop_rank (length services) p" arbitrary: m p rule: less_induct)
    case less
    then show ?case using stop_rank_step prog_run.more by metis
  qed
  then show ?thesis using prog_run.here by blast
qed

section \<open>Properties\<close>

text \<open>
  C20: Every interleaving of the handler and of a stop, after a start of the program, ends within four
  steps and one for each service.  When it ends the stop has returned if the start had succeeded, and
  waits forever otherwise.  A stop that has returned has shut every service down, in the reverse of
  the order in which they were started and whatever errors the others return, and its result joins
  the errors of the services in this order, each with the index of its service and nothing else, or
  is none if no service returned one.
\<close>

lemma Stop_run:
  assumes "prog_Start G L raced c = Some (err, services)" "prog_run G L services (prog_started err) n p"
  shows "n \<le> length services + 4 \<and>
    (\<forall>e. pr_stop p = StopReturned e \<longrightarrow> err = None \<and> pr_down p = rev services \<and>
       e = (let es = List.map_filter (\<lambda>(i, s). map_option (EWrap (MsgAt ''service: at index'' i)) (shut_result G L s))
              (rev (enumerate 0 services))
            in if es = [] then None else Some (EJoin es))) \<and>
    ((\<exists>p'. prog_step G L services p p') \<or>
       (if err = None then \<exists>e. pr_stop p = StopReturned e else pr_stop p = AwaitingErr))"
proof -
  note inv = stop_inv_run [OF assms(2)]
  define e0 where "e0 = (let es = List.map_filter (\<lambda>(i, s). map_option (EWrap (MsgAt ''service: at index'' i)) (shut_result G L s))
      (rev (enumerate 0 services)) in if es = [] then None else Some (EJoin es))"
  have stop: "prog_Stop G L services = Some (e0, rev services)"
    using prog_Stop_all [OF prog_Start_running [OF assms(1)], of G L] by (simp add: e0_def shutdown_errs_def Let_def)
  have "n \<le> length services + 4"
    using stop_rank_run [OF assms(2)] by (simp add: stop_rank_def prog_started_def split: if_splits)
  moreover have "err = None \<and> pr_down p = rev services \<and> e = e0" if "pr_stop p = StopReturned e" for e
    using inv that stop by (auto simp: stop_inv_def split: handler_pc.splits)
  moreover have "if err = None then \<exists>e. pr_stop p = StopReturned e else pr_stop p = AwaitingErr"
    if "\<not> (\<exists>p'. prog_step G L services p p')"
    using stopped [OF inv that] stop by simp
  ultimately show ?thesis unfolding e0_def [symmetric] by blast
qed

lemma Stop_run_witness:
  "\<exists>services n p es. prog_Start ref_golibs demo_life True (demo_configuration (demo_groups ''corp'')) = Some (None, services) \<and>
     length services = 3 \<and> prog_run ref_golibs demo_life services (prog_started None) n p \<and> n \<le> 7 \<and>
     pr_down p = rev services \<and>
     pr_stop p = StopReturned (Some (EJoin (EWrap (MsgAt ''service: at index'' 2) (EWrap (Msg ''stopping proxy'') ErrNoValue) # es)))"
proof -
  let ?c = "demo_configuration (demo_groups ''corp'')"
  have v: "valid_dns ref_golibs (le_E demo_life) (the (DNS ?c))"
    using demo_valid(2) by (auto simp: valid_conf_def demo_life_def demo_configuration_def)
  have d: "\<forall>u gs. Upstream (the (DNS ?c)) = Some u \<longrightarrow> us_Groups u = Some gs \<longrightarrow> distinct (map fst gs)"
    using demo_groups_map by (simp add: groups_map_def demo_configuration_def)
  from initDNSService_valid [OF ref_golibs_ok v demo_accepted d, of "[]"] obtain cl st svc where
    "initDNSService ref_golibs demo_life (the (DNS ?c)) [] = Some (None, [ClosersSvc cl, StorageSvc st, DnsSvc svc])" by auto
  then have s: "prog_Start ref_golibs demo_life True ?c = Some (None, [ClosersSvc cl, StorageSvc st, DnsSvc svc])"
    by (simp add: prog_Start_def demo_configuration_def)
  obtain n p where r: "prog_run ref_golibs demo_life [ClosersSvc cl, StorageSvc st, DnsSvc svc] (prog_started None) n p"
      "\<not> (\<exists>p'. prog_step ref_golibs demo_life [ClosersSvc cl, StorageSvc st, DnsSvc svc] p p')"
    using run_ends by blast
  have dns: "shut_result ref_golibs demo_life (DnsSvc svc) = Some (EWrap (Msg ''stopping proxy'') ErrNoValue)"
    by (simp add: shut_result_def svc_Shutdown_def demo_life_def demo_proxy_def)
  note run = Stop_run [OF s r(1)]
  from run r(2) obtain e where e: "pr_stop p = StopReturned e" by (auto simp only: if_P)
  from run [THEN conjunct2, THEN conjunct1, rule_format, OF e] obtain es where
    "pr_down p = rev [ClosersSvc cl, StorageSvc st, DnsSvc svc]"
    "e = Some (EJoin (EWrap (MsgAt ''service: at index'' 2) (EWrap (Msg ''stopping proxy'') ErrNoValue) # es))"
    by (simp add: map_filter_simps dns)
  moreover from run have "n \<le> 7" by simp
  ultimately show ?thesis using s r(1) e
    by (intro exI [of _ "[ClosersSvc cl, StorageSvc st, DnsSvc svc]"] exI [of _ n] exI [of _ p]) auto
qed

end
