(* ===== verification/OsService.thy ===== *)
theory OsService
  imports GoStrings
begin

text \<open>
  \<open>internal/cmd\<close>: the actions on the system service and its status (\<open>osservice.go\<close>, \<open>options.go\<close>,
  \<open>service_linux.go\<close>, \<open>service_darwin.go\<close>) and the check of the executable's path
  (\<open>internal/agdcos\<close>).  The service of \<open>kardianos/service\<close> and the commands that are run are
  parameters.  What is printed on the standard output is a part of the results; what is printed on
  the standard error output is left out.
\<close>

section \<open>Actions\<close>

type_synonym serviceAction = string

definition serviceActionNone :: serviceAction where "serviceActionNone = []"
definition serviceActionInstall :: serviceAction where "serviceActionInstall = ''install''"
definition serviceActionRestart :: serviceAction where "serviceActionRestart = ''restart''"
definition serviceActionStart :: serviceAction where "serviceActionStart = ''start''"
definition serviceActionStatus :: serviceAction where "serviceActionStatus = ''status''"
definition serviceActionStop :: serviceAction where "serviceActionStop = ''stop''"
definition serviceActionUninstall :: serviceAction where "serviceActionUninstall = ''uninstall''"

lemmas action_defs = serviceActionNone_def serviceActionInstall_def serviceActionRestart_def
  serviceActionStart_def serviceActionStatus_def serviceActionStop_def serviceActionUninstall_def

text \<open>\<open>Set\<close>: the error, and the action afterwards.\<close>

definition action_Set :: "string \<Rightarrow> serviceAction \<Rightarrow> goerr option \<times> serviceAction" where
  "action_Set value a =
     (if value \<in> {serviceActionInstall, serviceActionRestart, serviceActionStart, serviceActionStatus,
         serviceActionStop, serviceActionUninstall} then (None, value)
      else (Some ErrBadEnumValue, a))"

text \<open>The statuses of the package and the one that the program adds.\<close>

datatype svc_status = StatusUnknown | StatusRunning | StatusStopped | StatusRestartOnFail

record os_service =
  os_Install :: "goerr option"
  os_Restart :: "goerr option"
  os_Start :: "goerr option"
  os_Stop :: "goerr option"
  os_Uninstall :: "goerr option"
  os_Status :: "svc_status \<times> goerr option"

text \<open>\<open>controlStatus\<close>: the line that is printed, and the error.\<close>

definition controlStatus :: "os_service \<Rightarrow> string \<times> goerr option" where
  "controlStatus svc =
     (case os_Status svc of
        (_, Some err) \<Rightarrow> (''error'', Some (EWrap (Msg ''retrieving status'') err))
      | (status, None) \<Rightarrow>
          (if status = StatusRunning then (''running'', None)
           else if status = StatusStopped then (''stopped'', None)
           else if status = StatusRestartOnFail then (''restart on fail'', None)
           else (''error'', Some (ErrOther ''unexpected status''))))"

datatype exit_code = ExitCodeSuccess | ExitCodeFailure

text \<open>\<open>control\<close>: what is printed and the exit code; an unknown action panics (\<open>None\<close>).\<close>

definition control :: "os_service \<Rightarrow> serviceAction \<Rightarrow> (string option \<times> exit_code) option" where
  "control svc action =
     (let res = (\<lambda>out err. Some (out, if err \<noteq> None then ExitCodeFailure else ExitCodeSuccess)) in
      if action = serviceActionInstall then res None (os_Install svc)
      else if action = serviceActionRestart then res None (os_Restart svc)
      else if action = serviceActionStart then res None (os_Start svc)
      else if action = serviceActionStatus then (case controlStatus svc of (msg, err) \<Rightarrow> res (Some msg) err)
      else if action = serviceActionStop then res None (os_Stop svc)
      else if action = serviceActionUninstall then res None (os_Uninstall svc)
      else None)"

section \<open>Options\<close>

record options =
  o_serviceAction :: serviceAction
  o_verbose :: bool
  o_version :: bool
  o_help :: bool

text \<open>\<open>handleInfoOpts\<close>: what is printed (the usage, the version), and whether the program exits.\<close>

definition handleInfoOpts :: "string \<Rightarrow> string \<Rightarrow> options \<Rightarrow> string list \<times> bool" where
  "handleInfoOpts usage ver opts =
     ((if o_help opts then [usage] else []) @ (if o_version opts then [ver] else []),
      o_help opts \<or> o_version opts)"

section \<open>Lines\<close>

text \<open>
  \<open>bufio.Scanner\<close> with its default split function: the lines without their end markers up to the
  first one that does not fit the buffer.
\<close>

definition newline :: char where "newline = CHR 0x0A"

definition carriage_return :: char where "carriage_return = CHR 0x0D"

definition MaxScanTokenSize :: nat where "MaxScanTokenSize = 65536"

definition raw_lines :: "string \<Rightarrow> string list" where
  "raw_lines s = (let ls = split_on newline s in if last ls = [] then butlast ls else ls)"

fun scan_limit :: "string list \<Rightarrow> string list \<times> goerr option" where
  "scan_limit [] = ([], None)"
| "scan_limit (l # ls) =
     (if MaxScanTokenSize \<le> length l then ([], Some (ErrOther ''token too long''))
      else (case scan_limit ls of (ts, err) \<Rightarrow> (trim_suffix l [carriage_return] # ts, err)))"

definition scan :: "string \<Rightarrow> string list \<times> goerr option" where
  "scan s = scan_limit (raw_lines s)"

section \<open>Status on Linux\<close>

definition propNameLoadState :: string where "propNameLoadState = ''LoadState''"
definition propNameActiveState :: string where "propNameActiveState = ''ActiveState''"
definition propNameSubState :: string where "propNameSubState = ''SubState''"

lemmas prop_names = propNameLoadState_def propNameActiveState_def propNameSubState_def

definition ErrNotInstalled :: goerr where "ErrNotInstalled = ErrOther ''the service is not installed''"

definition statusFromState :: "string \<Rightarrow> string \<Rightarrow> string \<Rightarrow> svc_status \<times> goerr option" where
  "statusFromState loadState activeState subState =
     (if loadState = ''not-found'' then (StatusUnknown, Some ErrNotInstalled)
      else if activeState = ''active'' then (StatusRunning, None)
      else if activeState = ''inactive'' then (StatusStopped, None)
      else if subState = ''auto-restart'' then (StatusRestartOnFail, None)
      else (StatusUnknown, Some (ErrOther ''unexpected state'')))"

text \<open>The loop of \<open>parseSystemctlShow\<close> with its three variables.\<close>

fun show_loop :: "string list \<Rightarrow> string \<times> string \<times> string \<Rightarrow> goerr + string \<times> string \<times> string" where
  "show_loop [] st = Inr st"
| "show_loop (line # ls) (loadState, activeState, subState) =
     (case cut (CHR ''='') line of (propName, propValue, ok) \<Rightarrow>
        if \<not> ok then Inl (EWrap (MsgQ ''unexpected line format'' line) (ErrOther ''format''))
        else if propName = propNameLoadState then show_loop ls (propValue, activeState, subState)
        else if propName = propNameActiveState then show_loop ls (loadState, propValue, subState)
        else if propName = propNameSubState then show_loop ls (loadState, activeState, propValue)
        else show_loop ls (loadState, activeState, subState))"

definition parseSystemctlShow :: "string \<Rightarrow> svc_status \<times> goerr option" where
  "parseSystemctlShow output =
     (case scan output of (lines, scanErr) \<Rightarrow>
        (case show_loop lines ([], [], []) of
           Inl err \<Rightarrow> (StatusUnknown, Some err)
         | Inr (loadState, activeState, subState) \<Rightarrow>
             (case scanErr of
                Some err \<Rightarrow> (StatusUnknown, Some err)
              | None \<Rightarrow> statusFromState loadState activeState subState)))"

text \<open>The commands are run by a parameter: the error, and the standard output.\<close>

type_synonym runner = "string \<Rightarrow> string list \<Rightarrow> goerr option \<times> string"

definition systemd_Status :: "runner \<Rightarrow> string \<Rightarrow> svc_status \<times> goerr option" where
  "systemd_Status run unitName =
     (case run ''systemctl'' [''show'', unitName] of
        (Some err, _) \<Rightarrow> (StatusUnknown, Some (EWrap (Msg ''executing command'') err))
      | (None, out) \<Rightarrow>
          (case parseSystemctlShow out of
             (_, Some err) \<Rightarrow> (StatusUnknown, Some (EWrap (Msg ''parsing command output'') err))
           | (status, None) \<Rightarrow> (status, None)))"

text \<open>
  The systems of the package: \<open>chooseSystem\<close> replaces the one for systemd by one whose services know their
  unit.  The result is whether it is replaced; \<open>New\<close> is given the result of the package's own.
\<close>

definition chooseSystem_linux :: "string \<Rightarrow> bool" where
  "chooseSystem_linux sys = (sys = ''linux-systemd'')"

record 's systemd_service =
  sy_Service :: 's
  sy_unitName :: string

definition systemd_New :: "goerr + 's \<Rightarrow> string \<Rightarrow> goerr + 's systemd_service" where
  "systemd_New r name =
     (case r of Inl err \<Rightarrow> Inl err | Inr s \<Rightarrow> Inr \<lparr>sy_Service = s, sy_unitName = name @ ''.service''\<rparr>)"

section \<open>Status on macOS\<close>

definition propNamePID :: string where "propNamePID = [CHR 0x22] @ ''PID'' @ [CHR 0x22]"

fun launchctl_loop :: "string list \<Rightarrow> bool" where
  "launchctl_loop [] = False"
| "launchctl_loop (line # ls) =
     (case cut (CHR ''='') line of (propName, propValue, ok) \<Rightarrow>
        if \<not> ok then launchctl_loop ls
        else if trim_space propName = propNamePID \<and> trim_space propValue \<noteq> [] then True
        else launchctl_loop ls)"

definition parseLaunchctlList :: "string \<Rightarrow> svc_status \<times> goerr option" where
  "parseLaunchctlList output =
     (case scan output of (lines, scanErr) \<Rightarrow>
        if launchctl_loop lines then (StatusRunning, None)
        else (case scanErr of
             Some err \<Rightarrow> (StatusUnknown, Some err)
           | None \<Rightarrow> (StatusRestartOnFail, None)))"

text \<open>\<open>isInstalled\<close>, where \<open>stat\<close> is the result of \<open>os.Stat\<close> on the path of the service's file.\<close>

definition isInstalled :: "(string \<Rightarrow> goerr option) \<Rightarrow> string \<Rightarrow> string \<Rightarrow> bool" where
  "isInstalled stat plistDir name = (stat (plistDir @ ''/'' @ name @ ''.plist'') = None)"

definition darwin_Status ::
  "(string \<Rightarrow> goerr option) \<Rightarrow> runner \<Rightarrow> string \<Rightarrow> string \<Rightarrow> svc_status \<times> goerr option" where
  "darwin_Status stat run plistDir name =
     (if \<not> isInstalled stat plistDir name then (StatusUnknown, Some ErrNotInstalled)
      else (case run ''launchctl'' [''list'', name] of
          (Some err, _) \<Rightarrow> (StatusStopped, None)
        | (None, out) \<Rightarrow> parseLaunchctlList out))"

record 's darwin_service =
  da_Service :: 's
  da_name :: string
  da_plistDir :: string

definition newDarwinService :: "'s \<Rightarrow> string \<Rightarrow> string \<Rightarrow> 's darwin_service" where
  "newDarwinService svc name plistDir = \<lparr>da_Service = svc, da_name = name, da_plistDir = plistDir\<rparr>"

definition darwin_New :: "goerr + 's \<Rightarrow> string \<Rightarrow> goerr + 's darwin_service" where
  "darwin_New r name =
     (case r of Inl err \<Rightarrow> Inl err | Inr s \<Rightarrow> Inr (newDarwinService s name ''/Library/LaunchDaemons''))"

section \<open>The path of the executable\<close>

text \<open>
  \<open>validateExecPath\<close> on macOS; \<open>filepath.EvalSymlinks\<close> and \<open>filepath.Abs\<close> depend on the file system
  and are parameters.  Their errors are formatted, not wrapped.  On other platforms every path is
  valid.
\<close>

definition errBadExecPath :: goerr where
  "errBadExecPath = ErrOther ''bad executable path for system service''"

definition validateExecPath_darwin ::
  "(string \<Rightarrow> goerr + string) \<Rightarrow> (string \<Rightarrow> goerr + string) \<Rightarrow> string \<Rightarrow> goerr option" where
  "validateExecPath_darwin EvalSymlinks Abs execPath =
     (case EvalSymlinks execPath of
        Inl err \<Rightarrow> Some (ErrOther ''evaluating executable path symlinks'')
      | Inr execPath \<Rightarrow>
          (case Abs execPath of
             Inl err \<Rightarrow> Some (ErrOther ''getting absolute path'')
           | Inr execPath \<Rightarrow>
               if \<not> has_prefix execPath ''/Applications/'' then Some errBadExecPath else None))"

definition validateExecPath_others :: "string \<Rightarrow> goerr option" where
  "validateExecPath_others execPath = None"

section \<open>The output of systemctl show\<close>

text \<open>The format: a line for each property.\<close>

definition prop_line :: "string \<times> string \<Rightarrow> string" where
  "prop_line kv = fst kv @ CHR ''='' # snd kv"

definition show_output :: "(string \<times> string) list \<Rightarrow> string" where
  "show_output ps = concat (map (\<lambda>kv. prop_line kv @ [newline]) ps)"

definition prop_ok :: "string \<times> string \<Rightarrow> bool" where
  "prop_ok kv = (CHR ''='' \<notin> set (fst kv) \<and> newline \<notin> set (prop_line kv) \<and>
     \<not> has_suffix (prop_line kv) [carriage_return] \<and> length (prop_line kv) < MaxScanTokenSize)"

text \<open>The last value of a property, empty if there is none.\<close>

definition last_value :: "(string \<times> string) list \<Rightarrow> string \<Rightarrow> string \<Rightarrow> string" where
  "last_value ps k v0 = (case map_of (rev ps) k of Some v \<Rightarrow> v | None \<Rightarrow> v0)"

lemma last_value_Cons: "last_value (kv # ps) k v0 = last_value ps k (if fst kv = k then snd kv else v0)"
  by (cases kv) (auto simp: last_value_def map_of_append map_add_def split: option.splits)

lemma raw_lines_show:
  assumes "\<forall>kv \<in> set ps. prop_ok kv"
  shows "raw_lines (show_output ps) = map prop_line ps"
proof -
  have "split_on newline (show_output ps) = map prop_line ps @ [[]]"
    using assms
  proof (induction ps)
    case (Cons kv ps)
    have "show_output (kv # ps) = prop_line kv @ newline # show_output ps" by (simp add: show_output_def)
    with Cons show ?case by (simp add: split_on_append split_on_notin prop_ok_def)
  qed (simp add: show_output_def)
  then show ?thesis by (simp add: raw_lines_def)
qed

lemma scan_show:
  assumes "\<forall>kv \<in> set ps. prop_ok kv"
  shows "scan (show_output ps) = (map prop_line ps, None)"
proof -
  have "scan_limit (map prop_line ps) = (map prop_line ps, None)"
    using assms by (induction ps) (auto simp: prop_ok_def trim_suffix_def)
  then show ?thesis by (simp add: scan_def raw_lines_show [OF assms])
qed

lemma show_loop_show:
  assumes "\<forall>kv \<in> set ps. prop_ok kv"
  shows "show_loop (map prop_line ps) (l, a, s) = Inr (last_value ps propNameLoadState l,
    last_value ps propNameActiveState a, last_value ps propNameSubState s)"
  using assms
proof (induction ps arbitrary: l a s)
  case (Cons kv ps)
  have c: "cut (CHR ''='') (prop_line kv) = (fst kv, snd kv, True)"
    using Cons.prems by (simp add: prop_line_def cut_append prop_ok_def)
  have ne: "propNameLoadState \<noteq> propNameActiveState" "propNameLoadState \<noteq> propNameSubState"
    "propNameActiveState \<noteq> propNameSubState" by (simp_all add: prop_names)
  show ?case using Cons ne by (auto simp: c last_value_Cons)
qed (simp add: last_value_def)

section \<open>Properties\<close>

text \<open>
  C40: The status on Linux, read back from what \<open>systemctl show\<close> prints for any list of properties in any
  order, with one property to a line that has no carriage return at its end and is shorter than the
  64 KiB of the scanner.  The last value of each state counts.  A unit that is not found is not
  installed; otherwise an active one is running, an inactive one has stopped, one in any other state is
  restarting if its substate says so, and everything else is an error.
\<close>

lemma parseSystemctlShow_printed:
  assumes "\<forall>kv \<in> set ps. prop_ok kv" "run ''systemctl'' [''show'', unit] = (None, show_output ps)"
  shows "let load = last_value ps ''LoadState'' []; active = last_value ps ''ActiveState'' []; sub = last_value ps ''SubState'' []
    in (load = ''not-found'' \<longleftrightarrow> (\<exists>e. systemd_Status run unit = (StatusUnknown, Some e) \<and> err_is ErrNotInstalled e)) \<and>
       (load \<noteq> ''not-found'' \<and> active = ''active'' \<longleftrightarrow> systemd_Status run unit = (StatusRunning, None)) \<and>
       (load \<noteq> ''not-found'' \<and> active = ''inactive'' \<longleftrightarrow> systemd_Status run unit = (StatusStopped, None)) \<and>
       (load \<noteq> ''not-found'' \<and> active \<notin> {''active'', ''inactive''} \<and> sub = ''auto-restart'' \<longleftrightarrow>
          systemd_Status run unit = (StatusRestartOnFail, None)) \<and>
       (load \<noteq> ''not-found'' \<and> active \<notin> {''active'', ''inactive''} \<and> sub \<noteq> ''auto-restart'' \<longleftrightarrow>
          (\<exists>e. systemd_Status run unit = (StatusUnknown, Some e) \<and> \<not> err_is ErrNotInstalled e))"
proof -
  have "parseSystemctlShow (show_output ps) = statusFromState (last_value ps ''LoadState'' [])
      (last_value ps ''ActiveState'' []) (last_value ps ''SubState'' [])"
    by (simp add: parseSystemctlShow_def scan_show [OF assms(1)] show_loop_show [OF assms(1)] flip: prop_names)
  then show ?thesis
    using assms(2) by (simp add: systemd_Status_def statusFromState_def ErrNotInstalled_def Let_def)
qed

lemma parseSystemctlShow_printed_witness:
  "systemd_Status (\<lambda>_ _. (None, show_output [(''Id'', ''x.service''), (''SubState'', ''auto-restart''),
     (''ActiveState'', ''activating''), (''LoadState'', ''loaded''), (''Environment'', ''A=B'')])) ''x'' = (StatusRestartOnFail, None) \<and>
   systemd_Status (\<lambda>_ _. (None, show_output [(''LoadState'', ''loaded''), (''ActiveState'', ''active'')])) ''x'' = (StatusRunning, None)"
proof -
  note ok = prop_ok_def prop_line_def newline_def carriage_return_def has_suffix_def MaxScanTokenSize_def
  let ?ps = "[(''Id'', ''x.service''), (''SubState'', ''auto-restart''),
     (''ActiveState'', ''activating''), (''LoadState'', ''loaded''), (''Environment'', ''A=B'')]"
  have "\<forall>kv \<in> set ?ps. prop_ok kv" by (simp add: ok)
  from parseSystemctlShow_printed [OF this refl, of "''x''", unfolded Let_def]
  have "systemd_Status (\<lambda>_ _. (None, show_output ?ps)) ''x'' = (StatusRestartOnFail, None)" by (simp add: last_value_def)
  moreover have "\<forall>kv \<in> set [(''LoadState'', ''loaded''), (''ActiveState'', ''active'')]. prop_ok kv" by (simp add: ok)
  from parseSystemctlShow_printed [OF this refl, of "''x''", unfolded Let_def]
  have "systemd_Status (\<lambda>_ _. (None, show_output [(''LoadState'', ''loaded''), (''ActiveState'', ''active'')])) ''x'' = (StatusRunning, None)"
    by (simp add: last_value_def)
  ultimately show ?thesis by blast
qed

text \<open>An action that the flag accepts never panics.\<close>

lemma control_accepted:
  assumes "action_Set value a = (None, b)"
  shows "b = value \<and> control svc b \<noteq> None"
proof -
  have "b = value" "value \<in> {serviceActionInstall, serviceActionRestart, serviceActionStart, serviceActionStatus,
      serviceActionStop, serviceActionUninstall}"
    using assms by (simp_all add: action_Set_def split: if_splits)
  then show ?thesis by (cases "controlStatus svc") (auto simp: control_def Let_def)
qed

end
