(* ===== verification/Slog.thy ===== *)
theory Slog
  imports OsService
begin

text \<open>
  \<open>internal/agdcslog\<close>, the part for every platform (\<open>agdcslog.go\<close>, \<open>syslog.go\<close>): the handler that
  formats a record of \<open>log/slog\<close> as text and passes it to a system logger, the interface of system
  loggers as the locale \<open>system_log\<close>, and what the handler guarantees over any of them.  The values of
  attributes are given by their text; the text is taken to be printable beyond ASCII.
\<close>

section \<open>Levels and severities\<close>

definition LevelDebug :: int where "LevelDebug = - 4"
definition LevelInfo :: int where "LevelInfo = 0"
definition LevelWarn :: int where "LevelWarn = 4"
definition LevelError :: int where "LevelError = 8"

lemmas level_defs = LevelDebug_def LevelInfo_def LevelWarn_def LevelError_def

type_synonym severity = string

definition sevDebug :: severity where "sevDebug = ''debug''"
definition sevInfo :: severity where "sevInfo = ''info''"
definition sevWarning :: severity where "sevWarning = ''warning''"
definition sevError :: severity where "sevError = ''error''"

lemmas sev_defs = sevDebug_def sevInfo_def sevWarning_def sevError_def

section \<open>The text handler of the standard library\<close>

text \<open>\<open>strconv.Quote\<close>.\<close>

definition hex_digit :: "nat \<Rightarrow> char" where
  "hex_digit n = (if n < 10 then char_of (48 + n) else char_of (87 + n))"

definition escape :: "char \<Rightarrow> string" where
  "escape c =
     (let n = of_char c :: nat in
      if n = 34 then [CHR 0x5C, CHR 0x22] else if n = 92 then [CHR 0x5C, CHR 0x5C]
      else if n = 7 then [CHR 0x5C, CHR ''a''] else if n = 8 then [CHR 0x5C, CHR ''b'']
      else if n = 12 then [CHR 0x5C, CHR ''f''] else if n = 10 then [CHR 0x5C, CHR ''n'']
      else if n = 13 then [CHR 0x5C, CHR ''r''] else if n = 9 then [CHR 0x5C, CHR ''t'']
      else if n = 11 then [CHR 0x5C, CHR ''v'']
      else if n < 32 \<or> n = 127 then [CHR 0x5C, CHR ''x'', hex_digit (n div 16), hex_digit (n mod 16)]
      else [c])"

definition quote :: "string \<Rightarrow> string" where
  "quote s = [CHR 0x22] @ concat (map escape s) @ [CHR 0x22]"

text \<open>\<open>needsQuoting\<close>, and a string as the text handler appends it.\<close>

definition needs_quoting :: "string \<Rightarrow> bool" where
  "needs_quoting s = (s = [] \<or> (\<exists>c \<in> set s. let n = of_char c :: nat in n \<le> 32 \<or> n = 34 \<or> n = 61))"

definition text_string :: "string \<Rightarrow> string" where
  "text_string s = (if needs_quoting s then quote s else s)"

fun nat_dec :: "nat \<Rightarrow> string" where
  "nat_dec n = (if n < 10 then [char_of (48 + n)] else nat_dec (n div 10) @ [char_of (48 + n mod 10)])"

text \<open>\<open>Level.String\<close>.\<close>

definition level_string :: "int \<Rightarrow> string" where
  "level_string l =
     (let str = (\<lambda>base v. if v = 0 then base
            else base @ (if v < 0 then CHR ''-'' else CHR ''+'') # nat_dec (nat \<bar>v\<bar>))
      in if l < LevelInfo then str ''DEBUG'' (l - LevelDebug)
         else if l < LevelWarn then str ''INFO'' (l - LevelInfo)
         else if l < LevelError then str ''WARN'' (l - LevelWarn)
         else str ''ERROR'' (l - LevelError))"

text \<open>A record; no time stands for the zero time, which the text handler leaves out.\<close>

record log_record =
  r_time :: "string option"
  r_level :: int
  r_msg :: string
  r_attrs :: "(string \<times> string) list"

definition text_attr :: "string \<times> string \<Rightarrow> string" where
  "text_attr kv = text_string (fst kv) @ CHR ''='' # text_string (snd kv)"

definition text_fields :: "log_record \<Rightarrow> string list" where
  "text_fields rec =
     (case r_time rec of Some t \<Rightarrow> [''time='' @ t] | None \<Rightarrow> []) @
     [text_attr (''level'', level_string (r_level rec)), text_attr (''msg'', r_msg rec)] @
     map text_attr (r_attrs rec)"

text \<open>\<open>Handle\<close> of the text handler over a buffer, whose writes do not fail.\<close>

definition text_Handle :: "log_record \<Rightarrow> string \<Rightarrow> goerr option \<times> string" where
  "text_Handle rec buf = (None, buf @ join_with (CHR '' '') (text_fields rec) @ [newline])"

section \<open>The handler\<close>

text \<open>
  The methods of a \<open>SystemLogger\<close> over its state; a call that panics or blocks forever is \<open>None\<close>.
\<close>

record 'w system_logger =
  sl_Debug :: "string \<Rightarrow> 'w \<Rightarrow> (goerr option \<times> 'w) option"
  sl_Info :: "string \<Rightarrow> 'w \<Rightarrow> (goerr option \<times> 'w) option"
  sl_Warning :: "string \<Rightarrow> 'w \<Rightarrow> (goerr option \<times> 'w) option"
  sl_Error :: "string \<Rightarrow> 'w \<Rightarrow> (goerr option \<times> 'w) option"
  sl_Close :: "'w \<Rightarrow> (goerr option \<times> 'w) option"

record syslog_handler =
  h_level :: int
  h_attrs :: "(string \<times> string) list"

definition NewSyslogHandler :: "int \<Rightarrow> syslog_handler" where
  "NewSyslogHandler level = \<lparr>h_level = level, h_attrs = []\<rparr>"

definition Enabled :: "syslog_handler \<Rightarrow> int \<Rightarrow> bool" where
  "Enabled h level = (h_level h \<le> level)"

text \<open>
  A text handler with its own buffer, by the contents of the buffer; the capacity that it is made with
  has no effect on them.
\<close>

definition initLineLenEst :: nat where "initLineLenEst = 256"

record bufferedTextHandler =
  bt_buffer :: string

definition newBufferedTextHandler :: "nat \<Rightarrow> bufferedTextHandler" where
  "newBufferedTextHandler l = \<lparr>bt_buffer = []\<rparr>"

definition bt_reset :: "bufferedTextHandler \<Rightarrow> bufferedTextHandler" where
  "bt_reset h = h\<lparr>bt_buffer := []\<rparr>"

text \<open>The pool of handlers: one that was put back, or a new one.\<close>

definition pool_Get :: "bufferedTextHandler list \<Rightarrow> bufferedTextHandler \<times> bufferedTextHandler list" where
  "pool_Get pool = (case pool of [] \<Rightarrow> (newBufferedTextHandler initLineLenEst, []) | b # bs \<Rightarrow> (b, bs))"

definition pool_Put :: "bufferedTextHandler \<Rightarrow> bufferedTextHandler list \<Rightarrow> bufferedTextHandler list" where
  "pool_Put b pool = pool @ [b]"

text \<open>
  \<open>Handle\<close> with whatever the pool holds: the error, the pool with the handler back in it, and the
  state of the logger.
\<close>

definition Handle ::
  "'w system_logger \<Rightarrow> syslog_handler \<Rightarrow> log_record \<Rightarrow> bufferedTextHandler list \<Rightarrow> 'w
     \<Rightarrow> (goerr option \<times> bufferedTextHandler list \<times> 'w) option" where
  "Handle L h rec pool w =
     (case pool_Get pool of (bufTextHdlr, pool) \<Rightarrow>
        let bufTextHdlr = bt_reset bufTextHdlr;
            rec = rec\<lparr>r_attrs := r_attrs rec @ h_attrs h\<rparr>;
            rec = rec\<lparr>r_time := None\<rparr>
        in case text_Handle rec (bt_buffer bufTextHdlr) of (err, buf) \<Rightarrow>
             let pool = pool_Put (bufTextHdlr\<lparr>bt_buffer := buf\<rparr>) pool in
             (case err of
                Some err \<Rightarrow> Some (Some (EWrap (Msg ''handling text for msg'') err), pool, w)
              | None \<Rightarrow>
                  if buf = [] then None
                  else
                    let msg = take (length buf - 1) buf
                    in map_option (\<lambda>(err, w). (err, pool, w))
                         (if r_level rec = LevelDebug then sl_Debug L msg w
                          else if r_level rec = LevelInfo then sl_Info L msg w
                          else if r_level rec = LevelWarn then sl_Warning L msg w
                          else if r_level rec = LevelError then sl_Error L msg w
                          else sl_Info L msg w)))"

definition WithAttrs :: "syslog_handler \<Rightarrow> (string \<times> string) list \<Rightarrow> syslog_handler" where
  "WithAttrs h attrs = h\<lparr>h_attrs := h_attrs h @ attrs\<rparr>"

definition WithGroup :: "syslog_handler \<Rightarrow> string \<Rightarrow> syslog_handler" where
  "WithGroup h name = h"

definition handler_Close :: "'w system_logger \<Rightarrow> 'w \<Rightarrow> (goerr option \<times> 'w) option" where
  "handler_Close L w = sl_Close L w"

text \<open>The records of a program, one after another, over one pool.\<close>

fun handle_all ::
  "'w system_logger \<Rightarrow> (syslog_handler \<times> log_record) list \<Rightarrow> bufferedTextHandler list \<Rightarrow> 'w
     \<Rightarrow> (goerr option list \<times> bufferedTextHandler list \<times> 'w) option" where
  "handle_all L [] pool w = Some ([], pool, w)"
| "handle_all L ((h, rec) # rs) pool w =
     (case Handle L h rec pool w of
        None \<Rightarrow> None
      | Some (err, pool, w) \<Rightarrow> map_option (\<lambda>(errs, r). (err # errs, r)) (handle_all L rs pool w))"

section \<open>What a record becomes\<close>

definition severity_of :: "int \<Rightarrow> severity" where
  "severity_of level = (if level = LevelDebug then sevDebug else if level = LevelWarn then sevWarning
     else if level = LevelError then sevError else sevInfo)"

definition log_line :: "syslog_handler \<Rightarrow> log_record \<Rightarrow> string" where
  "log_line h rec = join_with (CHR '' '')
     (text_attr (''level'', level_string (r_level rec)) # text_attr (''msg'', r_msg rec) # map text_attr (r_attrs rec @ h_attrs h))"

text \<open>No text has a newline, so that a record is one line.\<close>

lemma of_char_small: "n < 256 \<Longrightarrow> of_char (char_of (n::nat)) = n"
  by (simp add: take_bit_nat_eq_self)

lemma of_char_newline: "(of_char newline :: nat) = 10"
  by (simp add: newline_def)

lemma small_newline: "n < 256 \<Longrightarrow> n \<noteq> 10 \<Longrightarrow> char_of (n::nat) \<noteq> newline"
  using of_char_small of_char_newline by metis

lemma escape_newline: "newline \<notin> set (escape c)"
proof -
  have h: "hex_digit n \<noteq> newline" if "n < 16" for n
    using that small_newline [of "48 + n"] small_newline [of "87 + n"] by (auto simp: hex_digit_def)
  have lt: "(of_char c :: nat) < 256" by (metis of_char_of nat_of_char_less_256)
  have c: "c \<noteq> newline" if "(of_char c :: nat) \<noteq> 10" using that of_char_newline by auto
  have "of_char c div 16 < (16 :: nat)" using lt by (intro less_mult_imp_div_less) simp
  note hs = this [THEN h, THEN not_sym, unfolded newline_def] h [of "of_char c mod 16", THEN not_sym, unfolded newline_def]
  have if_notin: "(b \<Longrightarrow> x \<notin> set xs) \<Longrightarrow> (\<not> b \<Longrightarrow> x \<notin> set ys) \<Longrightarrow> x \<notin> set (if b then xs else ys)"
    for b and x :: char and xs ys by simp
  show ?thesis unfolding escape_def Let_def
    by (intro if_notin) (use hs c in \<open>auto simp: newline_def\<close>)
qed

lemma text_string_newline: "newline \<notin> set (text_string s)"
proof -
  have "newline \<notin> set (quote s)" using escape_newline by (auto simp: quote_def newline_def)
  moreover have "newline \<in> set s \<Longrightarrow> needs_quoting s"
    using of_char_newline by (force simp: needs_quoting_def Let_def)
  ultimately show ?thesis by (auto simp: text_string_def)
qed

lemma text_attr_newline: "newline \<notin> set (text_attr kv)"
  using text_string_newline by (auto simp: text_attr_def newline_def)

lemma join_with_set: "c \<in> set (join_with d ls) \<Longrightarrow> c = d \<or> (\<exists>l \<in> set ls. c \<in> set l)"
  by (induction d ls rule: join_with.induct) auto

lemma log_line_newline: "newline \<notin> set (log_line h rec)"
proof
  assume "newline \<in> set (log_line h rec)"
  from join_with_set [OF this [unfolded log_line_def]] obtain kv where "newline \<in> set (text_attr kv)"
    by (auto simp: newline_def)
  with text_attr_newline show False by blast
qed

lemma bt_buffer_set: "b\<lparr>bt_buffer := s\<rparr> = \<lparr>bt_buffer = s\<rparr>" for b :: bufferedTextHandler
  by (cases b) simp

lemma Handle_eq:
  "Handle L h rec pool w = map_option (\<lambda>(err, w). (err, tl pool @ [\<lparr>bt_buffer = log_line h rec @ [newline]\<rparr>], w))
     (if r_level rec = LevelDebug then sl_Debug L (log_line h rec) w
      else if r_level rec = LevelWarn then sl_Warning L (log_line h rec) w
      else if r_level rec = LevelError then sl_Error L (log_line h rec) w
      else sl_Info L (log_line h rec) w)"
  by (auto simp: Handle_def text_Handle_def text_fields_def log_line_def Let_def level_defs pool_Get_def pool_Put_def
      newBufferedTextHandler_def bt_reset_def bt_buffer_set split: list.splits)

section \<open>The interface of system loggers\<close>

text \<open>A message of a severity is received, unless there is an error.\<close>

definition received ::
  "severity \<Rightarrow> string \<Rightarrow> goerr option \<Rightarrow> (severity \<Rightarrow> string list) \<Rightarrow> severity \<Rightarrow> string list" where
  "received sev msg err m = (if err = None then m(sev := m sev @ [msg]) else m)"

text \<open>The records of a severity that were handled without an error.\<close>

definition handled :: "(syslog_handler \<times> log_record) list \<Rightarrow> goerr option list \<Rightarrow> severity \<Rightarrow> string list" where
  "handled rs errs sev = map (\<lambda>((h, rec), err). log_line h rec)
     (filter (\<lambda>((h, rec), err). err = None \<and> severity_of (r_level rec) = sev) (zip rs errs))"

locale system_log =
  fixes L :: "'w system_logger" and ok :: "'w \<Rightarrow> bool" and messages :: "'w \<Rightarrow> severity \<Rightarrow> string list"
  assumes debug: "ok w \<Longrightarrow> newline \<notin> set msg \<Longrightarrow> sl_Debug L msg w = Some (err, w') \<Longrightarrow>
      ok w' \<and> messages w' = received sevDebug msg err (messages w)"
    and info: "ok w \<Longrightarrow> newline \<notin> set msg \<Longrightarrow> sl_Info L msg w = Some (err, w') \<Longrightarrow>
      ok w' \<and> messages w' = received sevInfo msg err (messages w)"
    and warning: "ok w \<Longrightarrow> newline \<notin> set msg \<Longrightarrow> sl_Warning L msg w = Some (err, w') \<Longrightarrow>
      ok w' \<and> messages w' = received sevWarning msg err (messages w)"
    and error: "ok w \<Longrightarrow> newline \<notin> set msg \<Longrightarrow> sl_Error L msg w = Some (err, w') \<Longrightarrow>
      ok w' \<and> messages w' = received sevError msg err (messages w)"
begin

lemma Handle_received:
  assumes "ok w" "Handle L h rec buf w = Some (err, buf', w')"
  shows "ok w' \<and> messages w' = received (severity_of (r_level rec)) (log_line h rec) err (messages w)"
  using assms log_line_newline [of h rec] unfolding Handle_eq
  by (auto simp: severity_of_def dest: debug info warning error split: if_splits)

lemma handle_all_received:
  assumes "ok w" "handle_all L rs buf w = Some (errs, buf', w')"
  shows "ok w' \<and> length errs = length rs \<and> messages w' sev = messages w sev @ handled rs errs sev"
  using assms
proof (induction rs arbitrary: w buf errs)
  case (Cons r rs)
  obtain h rec where r: "r = (h, rec)" by (metis surj_pair)
  with Cons.prems(2) obtain err buf1 w1 errs1 where
    step: "Handle L h rec buf w = Some (err, buf1, w1)" "handle_all L rs buf1 w1 = Some (errs1, buf', w')" "errs = err # errs1"
    by (auto split: option.splits)
  from Handle_received [OF Cons.prems(1) step(1)] have
    "ok w1" "messages w1 = received (severity_of (r_level rec)) (log_line h rec) err (messages w)" by auto
  with Cons.IH [OF this(1) step(2)] step(3) r show ?case by (auto simp: handled_def received_def)
qed (simp add: handled_def)

end

end
