(* ===== verification/LogConf.thy ===== *)
theory LogConf
  imports CmdValid Slog
begin

text \<open>
  \<open>internal/cmd\<close>: the log of the program (\<open>log.go\<close>, \<open>env.go\<close> and \<open>closeLogs\<close> of \<open>program.go\<close>).  A first
  logger is made from the environment and the options, a second one once the configuration is read,
  which may take over the first one's file or connection to the system log.  The state is the set of
  open files and connections; whether one opens is a parameter.
\<close>

section \<open>The environment\<close>

definition envLogOutput :: string where "envLogOutput = ''LOG_OUTPUT''"
definition envLogFormat :: string where "envLogFormat = ''LOG_FORMAT''"
definition envLogTimestamp :: string where "envLogTimestamp = ''LOG_TIMESTAMP''"
definition envLogVerbose :: string where "envLogVerbose = ''VERBOSE''"

record logEnvs =
  le_output :: string
  le_format :: string
  le_timestamp :: bool
  le_timestampSet :: bool
  le_verbose :: bool
  le_verboseSet :: bool

text \<open>\<open>strconv.ParseBool\<close>.\<close>

definition ParseBool :: "string \<Rightarrow> goerr + bool" where
  "ParseBool s =
     (if s \<in> {''1'', ''t'', ''T'', ''TRUE'', ''true'', ''True''} then Inr True
      else if s \<in> {''0'', ''f'', ''F'', ''FALSE'', ''false'', ''False''} then Inr False
      else Inl (ErrOther ''invalid syntax''))"

definition envBool :: "(string \<Rightarrow> string) \<Rightarrow> string \<Rightarrow> bool \<times> bool \<times> goerr option" where
  "envBool Getenv env =
     (let str = Getenv env in
      if str = [] then (False, False, None)
      else (case ParseBool str of
          Inl err \<Rightarrow> (False, False, Some err)
        | Inr val \<Rightarrow> (val, True, None)))"

definition parseLogEnvs :: "conf_env \<Rightarrow> (string \<Rightarrow> string) \<Rightarrow> logEnvs \<times> goerr list" where
  "parseLogEnvs E Getenv =
     (let out = Getenv envLogOutput;
          (output, errs) =
            (if out \<in> {outputStdout, outputStderr, outputSyslog, []} then (out, [])
             else if \<not> is_abs out then ([], [ErrOther ''unsupported log output''])
             else (out, []));
          format = Getenv envLogFormat;
          (format, errs) =
            (if format = [] then ([], errs)
             else (case NewFormat E format of
                 Inl err \<Rightarrow> ([], errs @ [EWrap (MsgQ ''parsing'' envLogFormat) err])
               | Inr f \<Rightarrow> (f, errs)));
          (timestamp, timestampSet, err) = envBool Getenv envLogTimestamp;
          errs = (case err of Some err \<Rightarrow> errs @ [EWrap (MsgQ ''parsing'' envLogTimestamp) err] | None \<Rightarrow> errs);
          (verbose, verboseSet, err) = envBool Getenv envLogVerbose;
          errs = (case err of Some err \<Rightarrow> errs @ [EWrap (MsgQ ''parsing'' envLogVerbose) err] | None \<Rightarrow> errs)
      in (\<lparr>le_output = output, le_format = format, le_timestamp = timestamp, le_timestampSet = timestampSet,
           le_verbose = verbose, le_verboseSet = verboseSet\<rparr>, errs))"

lemma parseLogEnvs_output:
  "le_output (fst (parseLogEnvs E Getenv)) =
     (let out = Getenv envLogOutput
      in if out \<in> {outputStdout, outputStderr, outputSyslog, []} \<or> is_abs out then out else [])"
  by (auto simp: parseLogEnvs_def Let_def split: prod.splits)

section \<open>Files, connections and loggers\<close>

text \<open>
  A file and a connection to the system log are known by a number that is never used again; the
  parameters give the error of the attempt to open one with the next number, and those of closing.
\<close>

record log_env =
  file_err :: "string \<Rightarrow> nat \<Rightarrow> goerr option"
  syslog_err :: "nat \<Rightarrow> goerr option"
  file_close_err :: "nat \<Rightarrow> goerr option"
  syslog_close_err :: "nat \<Rightarrow> goerr option"

record log_world =
  w_next :: nat
  w_files :: "nat set"
  w_syslogs :: "nat set"

text \<open>An open file has its name, as \<open>os.File\<close> does.\<close>

datatype os_file = Stdout | Stderr | Opened nat string

text \<open>A logger of \<open>slogutil.New\<close> (output, format, timestamp, level), and one for the system log.\<close>

datatype logger = FileLogger os_file string bool int | SyslogLogger nat int

fun logger_level :: "logger \<Rightarrow> int" where
  "logger_level (FileLogger out f ts level) = level"
| "logger_level (SyslogLogger n level) = level"

definition w_bump :: "log_world \<Rightarrow> log_world" where
  "w_bump w = w\<lparr>w_next := Suc (w_next w)\<rparr>"

definition newSystemLogger :: "log_env \<Rightarrow> int \<Rightarrow> log_world \<Rightarrow> (goerr + logger) \<times> log_world" where
  "newSystemLogger X level w =
     (case syslog_err X (w_next w) of
        Some err \<Rightarrow> (Inl err, w_bump w)
      | None \<Rightarrow> (Inr (SyslogLogger (w_next w) level), w_bump (w\<lparr>w_syslogs := insert (w_next w) (w_syslogs w)\<rparr>)))"

definition outputFromStr :: "log_env \<Rightarrow> string \<Rightarrow> log_world \<Rightarrow> os_file \<times> bool \<times> goerr option \<times> log_world" where
  "outputFromStr X s w =
     (if s = outputStderr then (Stderr, False, None, w)
      else if s = outputStdout then (Stdout, False, None, w)
      else (case file_err X s (w_next w) of
          Some err \<Rightarrow> (Stderr, False, Some (EWrap (Msg ''opening config output'') err), w_bump w)
        | None \<Rightarrow> (Opened (w_next w) s, True, None, w_bump (w\<lparr>w_files := insert (w_next w) (w_files w)\<rparr>))))"

text \<open>The logger, its file if it is to be closed, the error, and the state.\<close>

definition newLogger ::
  "log_env \<Rightarrow> string \<Rightarrow> string \<Rightarrow> bool \<Rightarrow> int \<Rightarrow> log_world \<Rightarrow> logger \<times> os_file option \<times> goerr option \<times> log_world" where
  "newLogger X outputStr f addTimestamp level w =
     (if outputStr = outputSyslog then
        (case newSystemLogger X level w of
           (Inr l, w) \<Rightarrow> (l, None, None, w)
         | (Inl err, w) \<Rightarrow> (FileLogger Stderr f addTimestamp level, None, Some (EWrap (Msg ''opening syslog'') err), w))
      else
        (case outputFromStr X outputStr w of
           (output, needsClose, Some err, w) \<Rightarrow>
             (FileLogger output f addTimestamp level, None, Some (EWrap (Msg ''opening log file'') err), w)
         | (output, needsClose, None, w) \<Rightarrow>
             (FileLogger output f addTimestamp level, if needsClose then Some output else None, None, w)))"

text \<open>\<open>cmp.Or\<close> of two strings.\<close>

definition cmp_or :: "string \<Rightarrow> string \<Rightarrow> string" where
  "cmp_or a b = (if a \<noteq> [] then a else b)"

definition newEnvLogger ::
  "log_env \<Rightarrow> options \<Rightarrow> logEnvs \<Rightarrow> log_world \<Rightarrow> logger \<times> os_file option \<times> goerr option \<times> log_world" where
  "newEnvLogger X opts envs w =
     (let output = cmp_or (le_output envs) outputSyslog;
          format = cmp_or (le_format envs) ''default'';
          level = (if o_verbose opts \<or> le_verboseSet envs \<and> le_verbose envs then LevelDebug else LevelInfo)
      in newLogger X output format (le_timestampSet envs \<and> le_timestamp envs) level w)"

definition overridenLogConf :: "options \<Rightarrow> logEnvs \<Rightarrow> logConfig \<Rightarrow> string \<times> string \<times> bool \<times> int" where
  "overridenLogConf opts envs c =
     (let outputStr = cmp_or (le_output envs) (lc_Output c);
          format = cmp_or (le_format envs) (lc_Format c);
          addTimestamp = (if le_timestampSet envs then le_timestamp envs else lc_Timestamp c);
          level = (if o_verbose opts \<or> le_verboseSet envs \<and> le_verbose envs \<or> lc_Verbose c then LevelDebug else LevelInfo)
      in (outputStr, format, addTimestamp, level))"

text \<open>\<open>Close\<close> of a logger that is an \<open>io.Closer\<close>: only the handler of the system log is one.\<close>

fun close_logger :: "log_env \<Rightarrow> logger \<Rightarrow> log_world \<Rightarrow> goerr option \<times> log_world" where
  "close_logger X (SyslogLogger n level) w = (syslog_close_err X n, w\<lparr>w_syslogs := w_syslogs w - {n}\<rparr>)"
| "close_logger X (FileLogger out f ts level) w = (None, w)"

definition closeEnv ::
  "log_env \<Rightarrow> logger \<Rightarrow> options \<Rightarrow> logEnvs \<Rightarrow> logConfig \<Rightarrow> log_world \<Rightarrow> bool \<times> goerr option \<times> log_world" where
  "closeEnv X envLogger opts envs c w =
     (let verboseIsSame = \<not> lc_Verbose c;
          verboseIsSame = (if o_verbose opts \<or> le_verboseSet envs then True else verboseIsSame)
      in if lc_Output c = outputSyslog \<and> verboseIsSame then (True, None, w)
         else (case close_logger X envLogger w of (closeErr, w) \<Rightarrow> (False, closeErr, w)))"

text \<open>\<open>newConfigLogger\<close>; a configuration without a log section panics (\<open>None\<close>).\<close>

definition newConfigLogger ::
  "log_env \<Rightarrow> logger \<Rightarrow> os_file option \<Rightarrow> options \<Rightarrow> logEnvs \<Rightarrow> configuration option \<Rightarrow> log_world
     \<Rightarrow> (logger \<times> os_file option \<times> goerr list \<times> log_world) option" where
  "newConfigLogger X envLogger envLogFile opts envs conf w =
     (case conf of
        None \<Rightarrow> Some (envLogger, envLogFile, [], w)
      | Some conf \<Rightarrow>
          (case Log conf of
             None \<Rightarrow> None
           | Some c \<Rightarrow>
               (case overridenLogConf opts envs c of (outputStr, format, addTimestamp, level) \<Rightarrow>
                  let new = (\<lambda>errs w. case newLogger X outputStr format addTimestamp level w of
                        (l, logFile, err, w) \<Rightarrow>
                          (l, logFile, errs @ (case err of Some err \<Rightarrow> [EWrap (Msg ''creating conf log'') err] | None \<Rightarrow> []), w))
                  in if le_output envs = [] then
                       (case closeEnv X envLogger opts envs c w of
                          (True, err, w) \<Rightarrow> Some (envLogger, None, [], w)
                        | (False, Some err, w) \<Rightarrow> Some (new [EWrap (Msg ''closing env syslog'') err] w)
                        | (False, None, w) \<Rightarrow> Some (new [] w))
                     else (case envLogFile of
                          Some file \<Rightarrow> Some (FileLogger file format addTimestamp level, Some file, [], w)
                        | None \<Rightarrow> Some (new [] w)))))"

fun close_file :: "log_env \<Rightarrow> os_file \<Rightarrow> log_world \<Rightarrow> goerr option \<times> log_world" where
  "close_file X (Opened n name) w = (file_close_err X n, w\<lparr>w_files := w_files w - {n}\<rparr>)"
| "close_file X std w = (None, w)"

text \<open>\<open>closeLogs\<close>: the errors, which are printed, and the state.\<close>

definition closeLogs :: "log_env \<Rightarrow> logger \<Rightarrow> os_file option \<Rightarrow> log_world \<Rightarrow> goerr list \<times> log_world" where
  "closeLogs X baseLogger logFile w =
     (let (errs, w) = (case logFile of
            None \<Rightarrow> ([], w)
          | Some file \<Rightarrow> (case close_file X file w of
                (Some err, w) \<Rightarrow> ([EWrap (Msg ''closing log file'') err], w)
              | (None, w) \<Rightarrow> ([], w)))
      in case close_logger X baseLogger w of
           (Some err, w) \<Rightarrow> (errs @ [EWrap (Msg ''closing system logger'') err], w)
         | (None, w) \<Rightarrow> (errs, w))"

section \<open>What is open\<close>

text \<open>The files and the connections that a logger with its file owns.\<close>

definition owned_files :: "os_file option \<Rightarrow> nat set" where
  "owned_files lf = {n. \<exists>name. lf = Some (Opened n name)}"

definition owned_syslogs :: "logger \<Rightarrow> nat set" where
  "owned_syslogs l = {n. \<exists>level. l = SyslogLogger n level}"

lemma owned_simps [simp]:
  "owned_files None = {}" "owned_files (Some (Opened n name)) = {n}" "owned_files (Some Stdout) = {}" "owned_files (Some Stderr) = {}"
  "owned_syslogs (SyslogLogger n level) = {n}" "owned_syslogs (FileLogger out f ts level) = {}"
  by (auto simp: owned_files_def owned_syslogs_def)

lemma closeLogs_world:
  "closeLogs X l lf w = (errs, w') \<Longrightarrow> w_files w' = w_files w - owned_files lf \<and> w_syslogs w' = w_syslogs w - owned_syslogs l"
  by (cases l; cases lf; cases "the lf") (auto simp: closeLogs_def split: option.splits prod.splits)

lemma close_logger_world:
  "close_logger X l w = (err, w') \<Longrightarrow> w_files w' = w_files w \<and> w_syslogs w' = w_syslogs w - owned_syslogs l \<and> w_next w' = w_next w"
  by (cases l) auto

text \<open>Where a logger writes, and its file, if nothing fails.\<close>

definition writes_to :: "logger \<Rightarrow> os_file option \<Rightarrow> string \<Rightarrow> bool" where
  "writes_to l lf out =
     (if out = outputSyslog then (\<exists>n level. l = SyslogLogger n level) \<and> lf = None
      else if out = outputStderr then (\<exists>f ts level. l = FileLogger Stderr f ts level) \<and> lf = None
      else if out = outputStdout then (\<exists>f ts level. l = FileLogger Stdout f ts level) \<and> lf = None
      else (\<exists>n f ts level. l = FileLogger (Opened n out) f ts level \<and> lf = Some (Opened n out)))"

lemma newLogger_spec:
  assumes "newLogger X out f ts level w = (l, lf, err, w')"
  shows "w_files w' = w_files w \<union> owned_files lf" "w_syslogs w' = w_syslogs w \<union> owned_syslogs l"
    "owned_files lf \<union> owned_syslogs l \<subseteq> {w_next w}" "w_next w' \<in> {w_next w, Suc (w_next w)}"
    "owned_files lf \<union> owned_syslogs l \<noteq> {} \<Longrightarrow> w_next w' = Suc (w_next w)"
    "logger_level l = level" "err = None \<Longrightarrow> writes_to l lf out" "err \<noteq> None \<Longrightarrow> l = FileLogger Stderr f ts level \<and> lf = None"
    "out \<noteq> outputSyslog \<Longrightarrow> owned_syslogs l = {}"
  using assms
  by (auto simp: newLogger_def newSystemLogger_def outputFromStr_def w_bump_def writes_to_def output_defs
      split: if_splits option.splits prod.splits)

lemma env_syslog_file:
  "newLogger X outputSyslog f ts level w = (l, lf, err, w') \<Longrightarrow> lf = None"
  by (auto simp: newLogger_def newSystemLogger_def split: option.splits)

text \<open>The second logger: the first one is kept, its file is taken over, or a new one is made.\<close>

definition keeps_env :: "options \<Rightarrow> logEnvs \<Rightarrow> logConfig \<Rightarrow> bool" where
  "keeps_env opts envs c = (le_output envs = [] \<and> lc_Output c = outputSyslog \<and>
     (lc_Verbose c \<longrightarrow> o_verbose opts \<or> le_verboseSet envs))"

lemma newConfigLogger_cases:
  assumes "Log conf = Some c" "overridenLogConf opts envs c = (out, fmt, ts, level)"
    "newConfigLogger X l0 f0 opts envs (Some conf) w = Some (l, f, errs, w')"
  obtains (keep) "keeps_env opts envs c" "l = l0" "f = None" "w' = w"
    | (taken) fl where "le_output envs \<noteq> []" "f0 = Some fl" "l = FileLogger fl fmt ts level" "f = f0" "w' = w"
    | (new) err0 w1 err where "\<not> keeps_env opts envs c" "le_output envs = [] \<longrightarrow> close_logger X l0 w = (err0, w1)"
        "le_output envs \<noteq> [] \<longrightarrow> f0 = None \<and> w1 = w" "newLogger X out fmt ts level w1 = (l, f, err, w')"
        "errs = [] \<longrightarrow> err = None"
proof (cases "le_output envs = []")
  case True
  show thesis
  proof (cases "keeps_env opts envs c")
    case same: True
    then have "closeEnv X l0 opts envs c w = (True, None, w)" by (auto simp: closeEnv_def keeps_env_def Let_def)
    then have "l = l0 \<and> f = None \<and> w' = w" using assms True by (simp add: newConfigLogger_def Let_def)
    with same show thesis by (intro keep) simp_all
  next
    case False
    obtain err0 w1 where cl: "close_logger X l0 w = (err0, w1)" by (metis surj_pair)
    have "closeEnv X l0 opts envs c w = (False, err0, w1)" using False cl True by (auto simp: closeEnv_def keeps_env_def Let_def)
    then obtain err where "newLogger X out fmt ts level w1 = (l, f, err, w')" "errs = [] \<longrightarrow> err = None"
      using assms True by (cases err0) (auto simp: newConfigLogger_def Let_def split: prod.splits option.splits)
    with cl True False show thesis by (intro new) simp_all
  qed
next
  case False
  then have k: "\<not> keeps_env opts envs c" by (simp add: keeps_env_def)
  show thesis
  proof (cases f0)
    case None
    then obtain err where "newLogger X out fmt ts level w = (l, f, err, w')" "errs = [] \<longrightarrow> err = None"
      using assms False by (auto simp: newConfigLogger_def Let_def split: prod.splits option.splits)
    with None False k show thesis by (intro new) simp_all
  next
    case (Some fl)
    then have "l = FileLogger fl fmt ts level \<and> f = f0 \<and> w' = w"
      using assms False by (simp add: newConfigLogger_def Let_def)
    with Some False show thesis by (intro taken) simp_all
  qed
qed

text \<open>The first logger.\<close>

lemma newEnvLogger_spec:
  assumes "newEnvLogger X opts envs w = (l0, f0, err0, w1)"
  shows "w_files w1 = w_files w \<union> owned_files f0" "w_syslogs w1 = w_syslogs w \<union> owned_syslogs l0"
    "owned_files f0 \<union> owned_syslogs l0 \<noteq> {} \<Longrightarrow> w_next w1 = Suc (w_next w)" "owned_syslogs l0 \<subseteq> {w_next w}"
    "logger_level l0 = (if o_verbose opts \<or> le_verboseSet envs \<and> le_verbose envs then LevelDebug else LevelInfo)"
    "err0 = None \<Longrightarrow> writes_to l0 f0 (cmp_or (le_output envs) outputSyslog)"
    "le_output envs = [] \<or> le_output envs = outputSyslog \<Longrightarrow> f0 = None"
    "le_output envs \<noteq> [] \<and> le_output envs \<noteq> outputSyslog \<Longrightarrow> owned_syslogs l0 = {}"
    "f0 \<noteq> None \<Longrightarrow> err0 = None"
proof -
  let ?lv = "if o_verbose opts \<or> le_verboseSet envs \<and> le_verbose envs then LevelDebug else LevelInfo"
  obtain f ts where n: "newLogger X (cmp_or (le_output envs) outputSyslog) f ts ?lv w = (l0, f0, err0, w1)"
    using assms by (auto simp: newEnvLogger_def Let_def)
  note spec = newLogger_spec [OF n]
  show "w_files w1 = w_files w \<union> owned_files f0" "w_syslogs w1 = w_syslogs w \<union> owned_syslogs l0"
    "owned_files f0 \<union> owned_syslogs l0 \<noteq> {} \<Longrightarrow> w_next w1 = Suc (w_next w)" "logger_level l0 = ?lv"
    "err0 = None \<Longrightarrow> writes_to l0 f0 (cmp_or (le_output envs) outputSyslog)" "owned_syslogs l0 \<subseteq> {w_next w}"
    using spec by auto
  show "f0 \<noteq> None \<Longrightarrow> err0 = None" using spec(8) by blast
  have ne: "outputSyslog \<noteq> []" by (simp add: output_defs)
  show "f0 = None" if "le_output envs = [] \<or> le_output envs = outputSyslog"
    using that n env_syslog_file [of X f ts ?lv w l0 f0 err0 w1] ne by (auto simp: cmp_or_def)
  show "owned_syslogs l0 = {}" if "le_output envs \<noteq> [] \<and> le_output envs \<noteq> outputSyslog"
    using that spec(9) by (simp add: cmp_or_def)
qed

text \<open>Every file and connection opens; the configuration is that of the example, verbose or not.\<close>

definition demo_log :: log_env where
  "demo_log = \<lparr>file_err = (\<lambda>_ _. None), syslog_err = (\<lambda>_. None), file_close_err = (\<lambda>_. None), syslog_close_err = (\<lambda>_. None)\<rparr>"

definition demo_world :: log_world where
  "demo_world = \<lparr>w_next = 0, w_files = {}, w_syslogs = {}\<rparr>"

definition demo_log_conf :: "bool \<Rightarrow> configuration" where
  "demo_log_conf verbose = (demo_configuration [])
     \<lparr>Log := Some \<lparr>lc_Output = ''syslog'', lc_Format = ''default'', lc_Timestamp = False, lc_Verbose = verbose\<rparr>\<rparr>"

definition demo_opts :: options where
  "demo_opts = \<lparr>o_serviceAction = [], o_verbose = False, o_version = False, o_help = False\<rparr>"

definition demo_envs :: "string \<Rightarrow> logEnvs" where
  "demo_envs output = \<lparr>le_output = output, le_format = [], le_timestamp = False, le_timestampSet = False, le_verbose = False,
     le_verboseSet = True\<rparr>"

lemmas demo_log_defs = demo_log_def demo_world_def demo_log_conf_def demo_opts_def demo_envs_def demo_configuration_def

lemmas log_run_defs = newEnvLogger_def newConfigLogger_def newLogger_def newSystemLogger_def outputFromStr_def closeEnv_def
  overridenLogConf_def w_bump_def cmp_or_def output_defs Let_def

lemma demo_env_logger:
  "newEnvLogger demo_log demo_opts (demo_envs ''syslog'') demo_world =
     (SyslogLogger 0 LevelInfo, None, None, \<lparr>w_next = 1, w_files = {}, w_syslogs = {0}\<rparr>)"
  "newEnvLogger demo_log demo_opts (demo_envs []) demo_world =
     (SyslogLogger 0 LevelInfo, None, None, \<lparr>w_next = 1, w_files = {}, w_syslogs = {0}\<rparr>)"
  by (simp_all add: log_run_defs demo_log_defs)

lemma demo_config_logger:
  "newConfigLogger demo_log (SyslogLogger 0 LevelInfo) None demo_opts (demo_envs ''syslog'') (Some (demo_log_conf True))
     \<lparr>w_next = 1, w_files = {}, w_syslogs = {0}\<rparr> =
     Some (SyslogLogger 1 LevelDebug, None, [], \<lparr>w_next = 2, w_files = {}, w_syslogs = {0, 1}\<rparr>)"
  "newConfigLogger demo_log (SyslogLogger 0 LevelInfo) None demo_opts (demo_envs []) (Some (demo_log_conf True))
     \<lparr>w_next = 1, w_files = {}, w_syslogs = {0}\<rparr> =
     Some (SyslogLogger 0 LevelInfo, None, [], \<lparr>w_next = 1, w_files = {}, w_syslogs = {0}\<rparr>)"
  by (simp_all add: log_run_defs demo_log_defs insert_commute)

section \<open>Properties\<close>

lemma closeLogs_released:
  assumes "w_files w = {}" "w_syslogs w = {}" "newEnvLogger X opts envs w = (l0, f0, err0, w1)"
    "newConfigLogger X l0 f0 opts envs conf w1 = Some (l, f, errs, w2)" "closeLogs X l f w2 = (cerrs, w3)"
  shows "w_files w3 = {} \<and> w_syslogs w3 = (if conf \<noteq> None \<and> le_output envs = outputSyslog then owned_syslogs l0 else {})"
proof -
  note l0 = newEnvLogger_spec [OF assms(3), unfolded assms(1,2)]
  note w3 = closeLogs_world [OF assms(5)]
  have ne: "outputSyslog \<noteq> []" by (simp add: output_defs)
  show ?thesis
  proof (cases conf)
    case None
    then have "l = l0" "f = f0" "w2 = w1" using assms(4) by (auto simp: newConfigLogger_def)
    with l0 w3 None show ?thesis by auto
  next
    case (Some cf)
    obtain c out fmt ts level where c: "Log cf = Some c" "overridenLogConf opts envs c = (out, fmt, ts, level)"
      using assms(4) Some by (auto simp: newConfigLogger_def split: option.splits prod.splits)
    from c assms(4) [unfolded Some] show ?thesis
    proof (cases rule: newConfigLogger_cases)
      case keep
      then show ?thesis using l0 w3 ne by (auto simp: keeps_env_def)
    next
      case (taken fl)
      then have "owned_syslogs l0 = {}" "le_output envs \<noteq> outputSyslog" using l0(7,8) by auto
      with taken l0 w3 show ?thesis by auto
    next
      case (new e w1' err)
      note w2 = newLogger_spec(1-3) [OF new(4)]
      show ?thesis
      proof (cases "le_output envs = []")
        case True
        then have "w_files w1' = {}" "w_syslogs w1' = {}"
          using new(2) l0 close_logger_world [of X l0 w1 e w1'] by auto
        with w2 w3 True ne show ?thesis by auto
      next
        case False
        then have u: "f0 = None" "w1' = w1" using new(3) by auto
        have "owned_syslogs l \<inter> owned_syslogs l0 = {}" using w2(3) l0(3,4) u by (cases "owned_syslogs l0 = {}") auto
        with u l0(1,2,8) w2 w3 False Some show ?thesis by auto
      qed
    qed
  qed
qed

text \<open>
  C33: No file and no connection to the system log stays open after the program has closed its logs,
  however the configuration and the environment ask for them and whatever fails, except one: with
  \<open>LOG_OUTPUT=syslog\<close> in the environment and a configuration the connection that the first logger has
  opened is neither used nor closed.
\<close>

lemma closeLogs_releases:
  assumes "w_files w = {}" "w_syslogs w = {}" "newEnvLogger X opts envs w = (l0, f0, err0, w1)"
    "newConfigLogger X l0 f0 opts envs conf w1 = Some (l, f, errs, w2)" "closeLogs X l f w2 = (cerrs, w3)"
  shows "w_files w3 = {} \<and> w_syslogs w3 = (if conf \<noteq> None \<and> le_output envs = outputSyslog then owned_syslogs l0 else {})"
  by (rule closeLogs_released [OF assms])

lemma closeLogs_releases_witness:
  "\<exists>cerrs w3. closeLogs demo_log (SyslogLogger 1 LevelDebug) None \<lparr>w_next = 2, w_files = {}, w_syslogs = {0, 1}\<rparr> = (cerrs, w3) \<and>
     w_syslogs w3 = {0}"
proof -
  obtain cerrs w3 where c: "closeLogs demo_log (SyslogLogger 1 LevelDebug) None
      \<lparr>w_next = 2, w_files = {}, w_syslogs = {0, 1}\<rparr> = (cerrs, w3)" by (metis surj_pair)
  have "w_files demo_world = {}" "w_syslogs demo_world = {}" by (simp_all add: demo_world_def)
  from closeLogs_releases [OF this demo_env_logger(1) demo_config_logger(1) c] c show ?thesis
    by (simp add: demo_envs_def output_defs)
qed

text \<open>
  C34: The logger that the program ends up with: its level is the lowest that the options, the
  environment or the configuration ask for, and if nothing fails it writes where the environment or,
  without it, the configuration says: to the system log, to a standard stream, or to the file of that
  name.  There is one exception: with \<open>VERBOSE\<close> set to false in the
  environment, a verbose configuration for the system log and no \<open>LOG_OUTPUT\<close>, the first logger is
  kept with its own level, while for every other output the same configuration logs verbosely.
\<close>

lemma config_logger_settings:
  assumes "newEnvLogger X opts envs w = (l0, f0, err0, w1)" "Log conf = Some c"
    "newConfigLogger X l0 f0 opts envs (Some conf) w1 = Some (l, f, errs, w2)"
  shows "(logger_level l = LevelDebug) =
      (o_verbose opts \<or> le_verboseSet envs \<and> le_verbose envs \<or>
       lc_Verbose c \<and> \<not> (le_output envs = [] \<and> lc_Output c = outputSyslog \<and> le_verboseSet envs)) \<and>
    (err0 = None \<and> errs = [] \<longrightarrow> writes_to l f (cmp_or (le_output envs) (lc_Output c)))"
proof -
  note l0 = newEnvLogger_spec(5-9) [OF assms(1)]
  have lv: "LevelDebug \<noteq> LevelInfo" by (simp add: level_defs)
  obtain out fmt ts level where o: "overridenLogConf opts envs c = (out, fmt, ts, level)" by (metis surj_pair)
  then have e: "out = cmp_or (le_output envs) (lc_Output c)"
    "level = (if o_verbose opts \<or> le_verboseSet envs \<and> le_verbose envs \<or> lc_Verbose c then LevelDebug else LevelInfo)"
    by (auto simp: overridenLogConf_def Let_def)
  from assms(2) o assms(3) show ?thesis
  proof (cases rule: newConfigLogger_cases)
    case keep
    with l0 lv show ?thesis by (auto simp: keeps_env_def cmp_or_def)
  next
    case (taken fl)
    then have "writes_to l f (le_output envs)" using l0(2,5) by (auto simp: cmp_or_def writes_to_def split: if_splits)
    with taken e lv show ?thesis by (simp add: cmp_or_def)
  next
    case (new e0 w1' err)
    have "logger_level l = level" "err = None \<longrightarrow> writes_to l f out" using newLogger_spec(6,7) [OF new(4)] by auto
    with e lv new(1,5) show ?thesis by (auto simp: keeps_env_def)
  qed
qed

lemma config_logger_settings_witness:
  "logger_level (SyslogLogger 0 LevelInfo) \<noteq> LevelDebug \<and> lc_Verbose (the (Log (demo_log_conf True))) \<and>
   logger_level (SyslogLogger 1 LevelDebug) = LevelDebug \<and> writes_to (SyslogLogger 1 LevelDebug) None ''syslog''"
proof -
  have c: "Log (demo_log_conf True) = Some (the (Log (demo_log_conf True)))" by (simp add: demo_log_conf_def)
  have v: "lc_Verbose (the (Log (demo_log_conf True)))" "lc_Output (the (Log (demo_log_conf True))) = ''syslog''"
    by (simp_all add: demo_log_conf_def)
  from config_logger_settings [OF demo_env_logger(2) c demo_config_logger(2)]
    config_logger_settings [OF demo_env_logger(1) c demo_config_logger(1)] v show ?thesis
    by (simp add: demo_envs_def demo_opts_def output_defs cmp_or_def)
qed

end
