(* ===== verification/YamlObj.thy ===== *)
theory YamlObj
  imports Golibs
begin

text \<open>
  \<open>internal/configmigrate/yaml.go\<close>: the untyped YAML object that the migrations edit and the
  access to its fields.  \<open>gopkg.in/yaml.v3\<close> decodes a mapping into a tree of its own, so an edit
  of a nested map through a reference is an edit of the tree along its path.  A map is an
  association list with distinct keys.
\<close>

section \<open>Values\<close>

text \<open>
  The dynamic types that occur: \<open>YDuration\<close> and \<open>YVersion\<close> are the typed values
  (\<open>timeutil.Duration\<close>, \<open>SchemaVersion\<close>) that a migration stores.
\<close>

datatype yval =
    YNull
  | YBool bool
  | YInt int
  | YStr string
  | YSeq "yval list"
  | YObj "(string \<times> yval) list"
  | YDuration int
  | YVersion nat
  | YOther string

type_synonym yobj = "(string \<times> yval) list"

fun as_obj :: "yval \<Rightarrow> yobj option" where
  "as_obj (YObj ob) = Some ob"
| "as_obj _ = None"

fun as_int :: "yval \<Rightarrow> int option" where
  "as_int (YInt n) = Some n"
| "as_int _ = None"

section \<open>Access\<close>

text \<open>\<open>fieldVal\<close>; the type parameter is the conversion \<open>to\<close> of the type assertion.\<close>

definition fieldVal :: "golibs \<Rightarrow> (yval \<Rightarrow> 'a option) \<Rightarrow> yobj \<Rightarrow> string \<Rightarrow> goerr + 'a" where
  "fieldVal G to obj key =
     (case map_of obj key of
        None \<Rightarrow> Inl (EWrap (Msg key) ErrNoValue)
      | Some val \<Rightarrow>
          (case v_not_nil G key (val = YNull) of
             Some err \<Rightarrow> Inl err
           | None \<Rightarrow>
               (case to val of
                  None \<Rightarrow> Inl (EWrap (Msg key) (ErrOther ''unexpected type''))
                | Some v \<Rightarrow> Inr v)))"

text \<open>
  The loop of \<open>fieldChainVal\<close>: \<open>pre\<close> are the keys passed, which the error is prefixed with.
\<close>

fun chain_loop :: "golibs \<Rightarrow> (yval \<Rightarrow> 'a option) \<Rightarrow> string list \<Rightarrow> yobj \<Rightarrow> string \<Rightarrow> string list \<Rightarrow> goerr + 'a" where
  "chain_loop G to pre obj key [] =
     (case fieldVal G to obj key of
        Inl err \<Rightarrow> Inl (EWrap (Msg (concat (map (\<lambda>k. k @ '': '') pre))) err)
      | Inr v \<Rightarrow> Inr v)"
| "chain_loop G to pre obj key (k # ks) =
     (case fieldVal G as_obj obj key of
        Inl err \<Rightarrow> Inl (EWrap (Msg (concat (map (\<lambda>k. k @ '': '') pre))) err)
      | Inr ob \<Rightarrow> chain_loop G to (pre @ [key]) ob k ks)"

text \<open>\<open>fieldChainVal\<close>; with no keys it panics (\<open>None\<close>).\<close>

definition fieldChainVal ::
  "golibs \<Rightarrow> (yval \<Rightarrow> 'a option) \<Rightarrow> yobj \<Rightarrow> string list \<Rightarrow> (goerr + 'a) option" where
  "fieldChainVal G to obj keys =
     (case keys of [] \<Rightarrow> None | k # ks \<Rightarrow> Some (chain_loop G to [] obj k ks))"

text \<open>The edit of the object that the keys lead to.\<close>

fun put_chain :: "string list \<Rightarrow> yobj \<Rightarrow> yobj \<Rightarrow> yobj" where
  "put_chain [] new obj = new"
| "put_chain (k # ks) new obj =
     (case map_of obj k of
        Some (YObj ob) \<Rightarrow> AList.update k (YObj (put_chain ks new ob)) obj
      | _ \<Rightarrow> obj)"

fun get_chain :: "string list \<Rightarrow> yobj \<Rightarrow> yobj option" where
  "get_chain [] obj = Some obj"
| "get_chain (k # ks) obj = (case map_of obj k of Some (YObj ob) \<Rightarrow> get_chain ks ob | _ \<Rightarrow> None)"

lemma fieldVal_Inr:
  assumes "golibs_ok G" "to YNull = None"
  shows "fieldVal G to obj key = Inr v \<longleftrightarrow> (\<exists>val. map_of obj key = Some val \<and> to val = Some v)"
proof (cases "map_of obj key")
  case (Some val)
  have n: "v_not_nil G key (val = YNull) = None \<longleftrightarrow> val \<noteq> YNull"
    using golibs_okD(2) [OF assms(1)] by simp
  show ?thesis
  proof (cases "v_not_nil G key (val = YNull)")
    case None
    with Some show ?thesis by (simp add: fieldVal_def split: option.splits)
  next
    case (Some e)
    then have "to val = None" using n assms(2) by auto
    with Some \<open>map_of obj key = Some val\<close> show ?thesis by (simp add: fieldVal_def)
  qed
qed (simp add: fieldVal_def)

lemma as_obj_Some [simp]: "as_obj v = Some ob \<longleftrightarrow> v = YObj ob"
  by (cases v) auto

lemma as_int_Some [simp]: "as_int v = Some n \<longleftrightarrow> v = YInt n"
  by (cases v) auto

lemma get_chain_Cons:
  "get_chain (k # ks) obj = Some ob \<longleftrightarrow> (\<exists>p. map_of obj k = Some (YObj p) \<and> get_chain ks p = Some ob)"
  by (auto split: option.splits yval.splits)

lemma chain_loop_obj:
  assumes "golibs_ok G"
  shows "chain_loop G as_obj pre obj k ks = Inr ob \<longleftrightarrow> get_chain (k # ks) obj = Some ob"
proof (induction ks arbitrary: pre obj k)
  case Nil
  have "fieldVal G as_obj obj k = Inr ob \<longleftrightarrow> map_of obj k = Some (YObj ob)"
    using fieldVal_Inr [OF assms, of as_obj] by simp
  then show ?case by (cases "fieldVal G as_obj obj k") (auto split: option.splits yval.splits)
next
  case (Cons l ls)
  have f: "fieldVal G as_obj obj k = Inr p \<longleftrightarrow> map_of obj k = Some (YObj p)" for p
    using fieldVal_Inr [OF assms, of as_obj] by simp
  show ?case
  proof (cases "fieldVal G as_obj obj k")
    case (Inl e)
    then have "map_of obj k \<noteq> Some (YObj p)" for p using f [of p] by simp
    with Inl show ?thesis by (simp add: get_chain_Cons [of k] del: get_chain.simps)
  next
    case (Inr p)
    then have "map_of obj k = Some (YObj p)" using f by simp
    with Inr Cons.IH show ?thesis by (simp add: get_chain_Cons [of k] del: get_chain.simps)
  qed
qed

lemma fieldChainVal_obj:
  assumes "golibs_ok G" "keys \<noteq> []"
  shows "fieldChainVal G as_obj obj keys = Some (Inr ob) \<longleftrightarrow> get_chain keys obj = Some ob"
  using assms chain_loop_obj [OF assms(1)] by (cases keys) (simp_all add: fieldChainVal_def)

lemma fieldChainVal_cases:
  assumes "golibs_ok G" "keys \<noteq> []"
  obtains (bad) err where "fieldChainVal G as_obj obj keys = Some (Inl err)" "get_chain keys obj = None"
  | (good) ob where "fieldChainVal G as_obj obj keys = Some (Inr ob)" "get_chain keys obj = Some ob"
proof -
  obtain k ks where keys: "keys = k # ks" using assms(2) by (cases keys) auto
  show ?thesis
  proof (cases "chain_loop G as_obj [] obj k ks")
    case (Inl err)
    then have "get_chain keys obj \<noteq> Some ob" for ob
      using fieldChainVal_obj [OF assms, of obj ob] keys by (simp add: fieldChainVal_def)
    then have "get_chain keys obj = None" by (cases "get_chain keys obj") blast+
    then show ?thesis using Inl keys by (intro bad) (simp_all add: fieldChainVal_def)
  next
    case (Inr ob)
    then show ?thesis
      using fieldChainVal_obj [OF assms, of obj ob] keys by (intro good) (simp_all add: fieldChainVal_def)
  qed
qed

lemma fieldChainVal_not_panics: "keys \<noteq> [] \<Longrightarrow> \<exists>r. fieldChainVal G to obj keys = Some r"
  by (cases keys) (simp_all add: fieldChainVal_def)

lemma get_chain_append: "get_chain ks obj = Some ob \<Longrightarrow> get_chain (ks @ ls) obj = get_chain ls ob"
  by (induction ks obj rule: get_chain.induct) (auto split: option.splits yval.splits)

lemma get_put_chain: "get_chain ks obj = Some ob \<Longrightarrow> get_chain ks (put_chain ks new obj) = Some new"
  by (induction ks obj rule: get_chain.induct) (auto split: option.splits yval.splits simp: AList.update_conv')

lemma get_chain_update_other: "ks = l # ls \<Longrightarrow> l \<noteq> k \<Longrightarrow> get_chain ks (AList.update k v m) = get_chain ks m"
  by (simp add: map_of_update)

declare get_chain.simps [simp del] put_chain.simps [simp del]

section \<open>Keeping what there is\<close>

text \<open>
  A value is kept in another: the same, or an object whose every field is there and kept.
\<close>

inductive kept :: "yval \<Rightarrow> yval \<Rightarrow> bool" where
  same: "kept v v"
| obj: "(\<And>k v. map_of a k = Some v \<Longrightarrow> \<exists>v'. map_of b k = Some v' \<and> kept v v') \<Longrightarrow> kept (YObj a) (YObj b)"

inductive_cases kept_obj: "kept (YObj a) v"

definition obj_kept :: "yobj \<Rightarrow> yobj \<Rightarrow> bool" where
  "obj_kept a b = (\<forall>k v. map_of a k = Some v \<longrightarrow> (\<exists>v'. map_of b k = Some v' \<and> kept v v'))"

lemma kept_YObj: "obj_kept a b \<Longrightarrow> kept (YObj a) (YObj b)"
  by (rule kept.obj) (auto simp: obj_kept_def)

lemma kept_YObjE: "kept (YObj a) v \<Longrightarrow> \<exists>b. v = YObj b \<and> obj_kept a b"
  by (erule kept_obj) (auto simp: obj_kept_def intro: kept.same)

lemma kept_trans: "kept u v \<Longrightarrow> kept v w \<Longrightarrow> kept u w"
proof (induction arbitrary: w rule: kept.induct)
  case (same v)
  then show ?case by simp
next
  case (obj a b)
  from obj.prems obtain c where c: "w = YObj c" "obj_kept b c" by (auto dest: kept_YObjE)
  have "kept (YObj a) (YObj c)"
  proof (rule kept.obj)
    fix k v assume "map_of a k = Some v"
    then obtain v' where v': "map_of b k = Some v'" "\<And>w. kept v' w \<Longrightarrow> kept v w" using obj.IH by blast
    then show "\<exists>w. map_of c k = Some w \<and> kept v w" using c(2) unfolding obj_kept_def by blast
  qed
  with c show ?case by simp
qed

lemma obj_kept_refl: "obj_kept a a"
  by (auto simp: obj_kept_def intro: kept.same)

lemma obj_kept_trans: "obj_kept a b \<Longrightarrow> obj_kept b c \<Longrightarrow> obj_kept a c"
  unfolding obj_kept_def by (meson kept_trans)

lemma obj_kept_add: "map_of a k = None \<Longrightarrow> obj_kept a (AList.update k v a)"
  by (auto simp: obj_kept_def map_of_update intro: kept.same)

lemma obj_kept_update: "map_of a k = Some v \<Longrightarrow> kept v v' \<Longrightarrow> obj_kept a (AList.update k v' a)"
  by (auto simp: obj_kept_def map_of_update intro: kept.same)

lemmas chain_simps = get_chain.simps put_chain.simps

lemma obj_kept_put_chain:
  "get_chain ks obj = Some ob \<Longrightarrow> obj_kept ob new \<Longrightarrow> obj_kept obj (put_chain ks new obj)"
proof (induction ks obj rule: get_chain.induct)
  case (2 k ks obj)
  then show ?case
    by (auto simp: chain_simps split: option.splits yval.splits intro!: obj_kept_update kept_YObj)
qed (simp add: chain_simps)

lemma put_chain_top: "l \<noteq> k \<Longrightarrow> map_of (put_chain (k # ks) new obj) l = map_of obj l"
  by (auto simp: map_of_update chain_simps split: option.splits yval.splits)

end
