(* ===== verification/Migrate.thy ===== *)
theory Migrate
  imports YamlObj Netip
begin

text \<open>
  \<open>internal/configmigrate\<close>: the migrations of the configuration file from one schema version to
  the next, and \<open>Migrator.Run\<close>, which reads the file, migrates it, backs the original up and
  writes the result.  The YAML library and \<open>renameio/maybe\<close> are parameters; the file system is
  explicit state with the failures of its operations given by an environment.
\<close>

section \<open>Versions\<close>

definition VersionInitial :: nat where "VersionInitial = 1"

definition VersionLatest :: nat where "VersionLatest = 4"

definition SchemaVersionKey :: string where "SchemaVersionKey = ''schema_version''"

lemmas version_consts = VersionInitial_def VersionLatest_def

definition getVersion :: "golibs \<Rightarrow> yobj \<Rightarrow> goerr + nat" where
  "getVersion G conf =
     (case fieldVal G as_int conf SchemaVersionKey of
        Inl err \<Rightarrow> Inl err
      | Inr verInt \<Rightarrow>
          (case v_in_range G SchemaVersionKey verInt (int VersionInitial) (int VersionLatest) of
             Some err \<Rightarrow> Inl err
           | None \<Rightarrow> Inr (nat verInt)))"

section \<open>The migrations\<close>

text \<open>
  A migration returns the edited configuration; on an error the caller drops it.  The chains of keys
  are not empty, so the panic of \<open>fieldChainVal\<close> does not occur.
\<close>

type_synonym migrateFunc = "yobj \<Rightarrow> goerr + yobj"

definition set_version :: "nat \<Rightarrow> yobj \<Rightarrow> yobj" where
  "set_version target conf = AList.update SchemaVersionKey (YVersion target) conf"

definition migrateTo2 :: "golibs \<Rightarrow> migrateFunc" where
  "migrateTo2 G conf =
     (case fieldChainVal G as_obj conf [''dns'', ''server''] of
        None \<Rightarrow> Inl (ErrOther ''panic'')
      | Some (Inl err) \<Rightarrow> Inl err
      | Some (Inr serverVal) \<Rightarrow>
          if map_of serverVal ''bind_retry'' \<noteq> None
          then Inl (EWrap (Msg ''bind_retry'') ErrUnexpectedValue)
          else
            let serverVal = AList.update ''bind_retry'' (YObj
                  [(''enabled'', YBool True), (''interval'', YDuration 1000000000), (''count'', YInt 4)]) serverVal
            in Inr (set_version 2 (put_chain [''dns'', ''server''] serverVal conf)))"

definition migrateTo3 :: "golibs \<Rightarrow> migrateFunc" where
  "migrateTo3 G conf =
     (case fieldChainVal G as_obj conf [''dns'', ''server''] of
        None \<Rightarrow> Inl (ErrOther ''panic'')
      | Some (Inl err) \<Rightarrow> Inl err
      | Some (Inr serverVal) \<Rightarrow>
          if map_of serverVal ''pending_requests'' \<noteq> None
          then Inl (EWrap (Msg ''pending_requests'') ErrUnexpectedValue)
          else
            let serverVal = AList.update ''pending_requests'' (YObj [(''enabled'', YBool True)]) serverVal
            in Inr (set_version 3 (put_chain [''dns'', ''server''] serverVal conf)))"

text \<open>The loop of \<open>migrateTo4\<close> over the sorted names of the groups.\<close>

definition disabledAutodevice :: yval where
  "disabledAutodevice = YObj [(''enabled'', YBool False)]"

fun groups_loop :: "golibs \<Rightarrow> goerr option list \<Rightarrow> yobj \<Rightarrow> string list \<Rightarrow> goerr option list \<times> yobj" where
  "groups_loop G errs groupsVal [] = (errs, groupsVal)"
| "groups_loop G errs groupsVal (groupName # names) =
     (case fieldVal G as_obj groupsVal groupName of
        Inl err \<Rightarrow> groups_loop G (errs @ [Some (EWrap (MsgQ [] groupName) err)]) groupsVal names
      | Inr groupVal \<Rightarrow>
          if map_of groupVal ''autodevice'' \<noteq> None
          then groups_loop G (errs @ [Some (EWrap (MsgQ ''autodevice'' groupName) ErrUnexpectedValue)]) groupsVal names
          else groups_loop G errs (AList.update groupName
                 (YObj (AList.update ''autodevice'' disabledAutodevice groupVal)) groupsVal) names)"

definition migrateTo4 :: "golibs \<Rightarrow> migrateFunc" where
  "migrateTo4 G conf =
     (case fieldChainVal G as_obj conf [''dns'', ''upstream'', ''groups''] of
        None \<Rightarrow> Inl (ErrOther ''panic'')
      | Some (Inl err) \<Rightarrow> Inl err
      | Some (Inr groupsVal) \<Rightarrow>
          let (errs, groupsVal) = groups_loop G [] groupsVal (sort (map fst groupsVal)) in
          (case errors_join errs of
             Some err \<Rightarrow> Inl (EWrap (Msg ''dns: upstream: groups'') err)
           | None \<Rightarrow> Inr (set_version 4 (put_chain [''dns'', ''upstream'', ''groups''] groupsVal conf))))"

text \<open>The array of migrations: there is none to the initial version.\<close>

definition migrations :: "golibs \<Rightarrow> migrateFunc option list" where
  "migrations G = [None, Some (migrateTo2 G), Some (migrateTo3 G), Some (migrateTo4 G)]"

text \<open>
  The loop of \<open>migrate\<close> over a slice of it; calling a nil function, like a slice out of range,
  panics (\<open>None\<close>).
\<close>

fun migrate_loop :: "nat \<Rightarrow> migrateFunc option list \<Rightarrow> yobj \<Rightarrow> (goerr + yobj) option" where
  "migrate_loop cur [] conf = Some (Inr conf)"
| "migrate_loop cur (None # ms) conf = None"
| "migrate_loop cur (Some m # ms) conf =
     (case m conf of
        Inl err \<Rightarrow> Some (Inl (EWrap (MsgVer ''upgrading schema'' cur (cur + 1)) err))
      | Inr conf \<Rightarrow> migrate_loop (cur + 1) ms conf)"

definition migrate :: "golibs \<Rightarrow> yobj \<Rightarrow> nat \<Rightarrow> nat \<Rightarrow> (goerr + yobj) option" where
  "migrate G conf from_v targ =
     (if from_v \<le> targ \<and> targ \<le> length (migrations G)
      then migrate_loop from_v (take (targ - from_v) (drop from_v (migrations G))) conf
      else None)"

section \<open>Files\<close>

type_synonym path = string
type_synonym bytes = string

text \<open>
  The permissions of \<open>internal/agdcos\<close>.  They have no bits for the group and for others, which are the
  ones that a umask clears.
\<close>

type_synonym file_mode = "32 word"

definition DefaultPermDir :: file_mode where "DefaultPermDir = 0x1C0"

definition DefaultPermFile :: file_mode where "DefaultPermFile = 0x180"

definition DefaultPermExe :: file_mode where "DefaultPermExe = or DefaultPermFile 0x40"

record fs =
  files :: "path \<rightharpoonup> bytes"
  dirs :: "path set"
  perms :: "path \<rightharpoonup> file_mode"

text \<open>
  The environment of a run: the failures of reading and creating, \<open>maybe.WriteFile\<close>, the YAML
  functions, and the text of the current time in the backup's format.
\<close>

record mig_env =
  read_err :: "path \<Rightarrow> goerr option"
  mkdir_err :: "path \<Rightarrow> goerr option"
  write_file :: "path \<Rightarrow> bytes \<Rightarrow> file_mode \<Rightarrow> fs \<Rightarrow> goerr option \<times> fs"
  unmarshal :: "bytes \<Rightarrow> goerr + yobj"
  encode :: "yobj \<Rightarrow> goerr + bytes"
  close_err :: "goerr option"
  bkp_time :: string

text \<open>\<open>filepath.Join\<close> of a clean directory, which is not the root, and a clean relative path.\<close>

definition path_join :: "path \<Rightarrow> path \<Rightarrow> path" where
  "path_join a b = a @ ''/'' @ b"

definition read_file :: "mig_env \<Rightarrow> path \<Rightarrow> fs \<Rightarrow> goerr + bytes" where
  "read_file E p s = (case read_err E p of
     Some e \<Rightarrow> Inl e
   | None \<Rightarrow> (case files s p of None \<Rightarrow> Inl ErrNotExist | Some b \<Rightarrow> Inr b))"

text \<open>\<open>os.Mkdir\<close>: the path must not exist.\<close>

definition mkdir :: "mig_env \<Rightarrow> path \<Rightarrow> file_mode \<Rightarrow> fs \<Rightarrow> goerr option \<times> fs" where
  "mkdir E p perm s =
     (case mkdir_err E p of
        Some e \<Rightarrow> (Some e, s)
      | None \<Rightarrow> if p \<in> dirs s \<or> files s p \<noteq> None then (Some ErrExist, s)
                else (None, s\<lparr>dirs := insert p (dirs s), perms := (perms s)(p \<mapsto> perm)\<rparr>))"

definition readYAML :: "mig_env \<Rightarrow> path \<Rightarrow> fs \<Rightarrow> goerr + yobj \<times> bytes" where
  "readYAML E p s =
     (case read_file E p s of
        Inl err \<Rightarrow> Inl (EWrap (Msg ''reading yaml document'') err)
      | Inr data \<Rightarrow>
          (case unmarshal E data of
             Inl err \<Rightarrow> Inl (EWrap (Msg ''decoding yaml document'') err)
           | Inr obj \<Rightarrow> Inr (obj, data)))"

record migrator =
  workingDir :: path
  configName :: path

definition bkpDirName :: "nat \<Rightarrow> nat \<Rightarrow> string \<Rightarrow> string" where
  "bkpDirName from_v targ time = ''backup-configmigrate-v'' @ dec from_v @ ''-to-v'' @ dec targ @ ''-'' @ time @ ''.dir''"

definition bkpPath :: "mig_env \<Rightarrow> migrator \<Rightarrow> nat \<Rightarrow> nat \<Rightarrow> path" where
  "bkpPath E m from_v targ = path_join (path_join (workingDir m) (bkpDirName from_v targ (bkp_time E))) (configName m)"

definition backupConfig ::
  "mig_env \<Rightarrow> migrator \<Rightarrow> bytes \<Rightarrow> nat \<Rightarrow> nat \<Rightarrow> fs \<Rightarrow> goerr option \<times> fs" where
  "backupConfig E m origData from_v targ s =
     (case mkdir E (path_join (workingDir m) (bkpDirName from_v targ (bkp_time E))) DefaultPermDir s of
        (Some err, s) \<Rightarrow> (Some (EWrap (Msg ''creating backup directory'') err), s)
      | (None, s) \<Rightarrow>
          (case write_file E (bkpPath E m from_v targ) origData DefaultPermFile s of
             (Some err, s) \<Rightarrow> (Some (EWrap (Msg ''moving original configuration file'') err), s)
           | (None, s) \<Rightarrow> (None, s)))"

definition writeMigrated ::
  "mig_env \<Rightarrow> migrator \<Rightarrow> yobj \<Rightarrow> bytes \<Rightarrow> path \<Rightarrow> nat \<Rightarrow> nat \<Rightarrow> fs \<Rightarrow> goerr option \<times> fs" where
  "writeMigrated E m conf origData origPath from_v targ s =
     (case encode E conf of
        Inl err \<Rightarrow> (Some (EWrap (Msg ''encoding migrated configuration'') err), s)
      | Inr buf \<Rightarrow>
          (case close_err E of
             Some err \<Rightarrow> (Some (EWrap (Msg ''closing the encoder'') err), s)
           | None \<Rightarrow>
               (case backupConfig E m origData from_v targ s of
                  (Some err, s) \<Rightarrow> (Some (EWrap (Msg ''creating backup of configuration file'') err), s)
                | (None, s) \<Rightarrow>
                    (case write_file E origPath buf DefaultPermFile s of
                       (Some err, s) \<Rightarrow> (Some (EWrap (Msg ''writing migrated configuration'') err), s)
                     | (None, s) \<Rightarrow> (None, s)))))"

text \<open>\<open>Run\<close>, before the deferred annotation of its error; a panic is \<open>None\<close>.\<close>

definition run_inner :: "golibs \<Rightarrow> mig_env \<Rightarrow> migrator \<Rightarrow> nat \<Rightarrow> fs \<Rightarrow> (goerr option \<times> fs) option" where
  "run_inner G E m target s =
     (let confPath = path_join (workingDir m) (configName m) in
      case readYAML E confPath s of
        Inl err \<Rightarrow> if err_is ErrNotExist err then Some (None, s) else Some (Some err, s)
      | Inr (conf, confData) \<Rightarrow>
          (case getVersion G conf of
             Inl err \<Rightarrow> Some (Some err, s)
           | Inr current \<Rightarrow>
               if current = target then Some (None, s)
               else
                 (case migrate G conf current target of
                    None \<Rightarrow> None
                  | Some (Inl err) \<Rightarrow> Some (Some err, s)
                  | Some (Inr conf) \<Rightarrow> Some (writeMigrated E m conf confData confPath current target s))))"

definition run :: "golibs \<Rightarrow> mig_env \<Rightarrow> migrator \<Rightarrow> nat \<Rightarrow> fs \<Rightarrow> (goerr option \<times> fs) option" where
  "run G E m target s =
     map_option (\<lambda>(err, s). (annotate G (Msg ''migrating'') err, s)) (run_inner G E m target s)"

section \<open>What a migration promises\<close>

text \<open>
  The interface of the migrations: a success sets the version and keeps every setting but the
  version.
\<close>

definition conf_kept :: "yobj \<Rightarrow> yobj \<Rightarrow> bool" where
  "conf_kept a b = obj_kept (filter (\<lambda>(k, _). k \<noteq> SchemaVersionKey) a) (filter (\<lambda>(k, _). k \<noteq> SchemaVersionKey) b)"

lemma conf_kept_trans: "conf_kept a b \<Longrightarrow> conf_kept b c \<Longrightarrow> conf_kept a c"
  unfolding conf_kept_def by (rule obj_kept_trans)

locale migration =
  fixes G :: golibs and step :: migrateFunc and target :: nat
  assumes sets_version: "golibs_ok G \<Longrightarrow> step conf = Inr conf' \<Longrightarrow>
      map_of conf' SchemaVersionKey = Some (YVersion target)"
    and keeps: "golibs_ok G \<Longrightarrow> step conf = Inr conf' \<Longrightarrow> conf_kept conf conf'"
begin

text \<open>A run of the loop of \<open>migrate\<close> that starts with this migration.\<close>

lemma loop_first:
  assumes "golibs_ok G" "migrate_loop cur (Some step # ms) conf = Some (Inr conf')"
  shows "\<exists>mid. step conf = Inr mid \<and> map_of mid SchemaVersionKey = Some (YVersion target) \<and>
    conf_kept conf mid \<and> migrate_loop (cur + 1) ms mid = Some (Inr conf')"
  using assms(2) sets_version [OF assms(1)] keeps [OF assms(1)] by (auto split: sum.splits)

end

lemma map_of_drop_key: "map_of (filter (\<lambda>(k, _). k \<noteq> l) m) k = (if k = l then None else map_of m k)"
  by (induction m) auto

lemma conf_kept_alt: "conf_kept a b \<longleftrightarrow> (\<forall>k v. k \<noteq> SchemaVersionKey \<longrightarrow> map_of a k = Some v \<longrightarrow>
    (\<exists>v'. map_of b k = Some v' \<and> kept v v'))"
  by (auto simp: conf_kept_def obj_kept_def map_of_drop_key split: if_splits)

lemma conf_kept_set_version: "obj_kept a b \<Longrightarrow> conf_kept a (set_version n b)"
  by (auto simp: conf_kept_alt obj_kept_def set_version_def map_of_update)

section \<open>The migrations implement it\<close>

lemma version_of_set_version: "map_of (set_version n conf) SchemaVersionKey = Some (YVersion n)"
  by (simp add: set_version_def map_of_update)

lemma add_setting_kept:
  assumes "get_chain ks conf = Some ob" "obj_kept ob new"
  shows "conf_kept conf (set_version n (put_chain ks new conf))"
  using obj_kept_put_chain [OF assms] by (rule conf_kept_set_version)

text \<open>What a migration that adds a setting to the server does.\<close>

definition bindRetry :: yval where
  "bindRetry = YObj [(''enabled'', YBool True), (''interval'', YDuration 1000000000), (''count'', YInt 4)]"

definition pendingRequests :: yval where
  "pendingRequests = YObj [(''enabled'', YBool True)]"

definition adds_server :: "nat \<Rightarrow> string \<Rightarrow> yval \<Rightarrow> yobj \<Rightarrow> yobj \<Rightarrow> bool" where
  "adds_server n key v conf conf' = (\<exists>server. get_chain [''dns'', ''server''] conf = Some server \<and>
     map_of server key = None \<and>
     conf' = set_version n (put_chain [''dns'', ''server''] (AList.update key v server) conf))"

lemma migrateTo2_Inr:
  assumes "golibs_ok G"
  shows "migrateTo2 G conf = Inr conf' \<longleftrightarrow> adds_server 2 ''bind_retry'' bindRetry conf conf'"
  by (rule fieldChainVal_cases [OF assms, of "[''dns'', ''server'']" conf])
    (auto simp: migrateTo2_def adds_server_def bindRetry_def Let_def)

lemma migrateTo3_Inr:
  assumes "golibs_ok G"
  shows "migrateTo3 G conf = Inr conf' \<longleftrightarrow> adds_server 3 ''pending_requests'' pendingRequests conf conf'"
  by (rule fieldChainVal_cases [OF assms, of "[''dns'', ''server'']" conf])
    (auto simp: migrateTo3_def adds_server_def pendingRequests_def Let_def)

lemma adds_server_ok:
  assumes "adds_server n key v conf conf'"
  shows "map_of conf' SchemaVersionKey = Some (YVersion n)" "conf_kept conf conf'"
  using assms add_setting_kept obj_kept_add
  by (auto simp: adds_server_def version_of_set_version)

definition good_group :: "yobj \<Rightarrow> string \<Rightarrow> bool" where
  "good_group groups n = (case map_of groups n of
     Some (YObj grp) \<Rightarrow> map_of grp ''autodevice'' = None | _ \<Rightarrow> False)"

lemma good_groupD: "good_group groups n \<longleftrightarrow> (\<exists>grp. map_of groups n = Some (YObj grp) \<and> map_of grp ''autodevice'' = None)"
  by (auto simp: good_group_def split: option.splits yval.splits)

text \<open>One pass of the loop.\<close>

lemma groups_loop_step:
  assumes "golibs_ok G"
  shows "(\<exists>err. \<not> good_group g n \<and> (\<forall>ns errs. groups_loop G errs g (n # ns) = groups_loop G (errs @ [Some err]) g ns)) \<or>
    (\<exists>grp. map_of g n = Some (YObj grp) \<and> map_of grp ''autodevice'' = None \<and>
      (\<forall>ns errs. groups_loop G errs g (n # ns)
        = groups_loop G errs (AList.update n (YObj (AList.update ''autodevice'' disabledAutodevice grp)) g) ns))"
proof -
  have f: "fieldVal G as_obj g n = Inr p \<longleftrightarrow> map_of g n = Some (YObj p)" for p
    using fieldVal_Inr [OF assms, of as_obj] by simp
  show ?thesis
  proof (cases "fieldVal G as_obj g n")
    case (Inl e)
    then have "\<not> good_group g n" using f by (auto simp: good_groupD)
    with Inl show ?thesis by auto
  next
    case (Inr p)
    then have "map_of g n = Some (YObj p)" using f by simp
    with Inr show ?thesis
      by (cases "map_of p ''autodevice''") (auto simp: good_groupD)
  qed
qed

lemma groups_loop_kept:
  assumes "golibs_ok G"
  shows "obj_kept g (snd (groups_loop G errs g ns))"
proof (induction ns arbitrary: g errs)
  case (Cons n ns)
  from groups_loop_step [OF assms, of g n] show ?case
  proof
    assume "\<exists>err. \<not> good_group g n \<and> (\<forall>ns errs. groups_loop G errs g (n # ns) = groups_loop G (errs @ [Some err]) g ns)"
    then obtain err where "groups_loop G errs g (n # ns) = groups_loop G (errs @ [Some err]) g ns" by blast
    with Cons.IH show ?thesis by simp
  next
    assume "\<exists>grp. map_of g n = Some (YObj grp) \<and> map_of grp ''autodevice'' = None \<and>
      (\<forall>ns errs. groups_loop G errs g (n # ns)
        = groups_loop G errs (AList.update n (YObj (AList.update ''autodevice'' disabledAutodevice grp)) g) ns)"
    then obtain grp where grp: "map_of g n = Some (YObj grp)" "map_of grp ''autodevice'' = None"
      "groups_loop G errs g (n # ns)
        = groups_loop G errs (AList.update n (YObj (AList.update ''autodevice'' disabledAutodevice grp)) g) ns" by blast
    have "obj_kept g (AList.update n (YObj (AList.update ''autodevice'' disabledAutodevice grp)) g)"
      by (rule obj_kept_update [OF grp(1) kept_YObj [OF obj_kept_add [OF grp(2)]]])
    with Cons.IH grp(3) show ?thesis by (auto intro: obj_kept_trans)
  qed
qed (simp add: obj_kept_refl)

text \<open>On distinct names the loop has no error exactly if all groups are good, and edits each.\<close>

lemma groups_loop_spec:
  assumes "golibs_ok G" "distinct ns"
  shows "(\<exists>es. fst (groups_loop G errs g ns) = errs @ map Some es \<and> (es = [] \<longleftrightarrow> (\<forall>n \<in> set ns. good_group g n))) \<and>
    ((\<forall>n \<in> set ns. good_group g n) \<longrightarrow> (\<forall>n grp. map_of g n = Some (YObj grp) \<longrightarrow>
       map_of (snd (groups_loop G errs g ns)) n =
         Some (YObj (if n \<in> set ns then AList.update ''autodevice'' disabledAutodevice grp else grp))))"
  using assms(2)
proof (induction ns arbitrary: g errs)
  case (Cons n ns)
  from groups_loop_step [OF assms(1), of g n] show ?case
  proof (elim disjE exE conjE)
    fix err assume bad: "\<not> good_group g n"
      "\<forall>ns errs. groups_loop G errs g (n # ns) = groups_loop G (errs @ [Some err]) g ns"
    obtain es where "fst (groups_loop G (errs @ [Some err]) g ns) = (errs @ [Some err]) @ map Some es"
      using Cons.IH [of "errs @ [Some err]" g] Cons.prems by auto
    then have "fst (groups_loop G errs g (n # ns)) = errs @ map Some (err # es)" using bad(2) by simp
    with bad(1) show ?thesis by (intro conjI exI [of _ "err # es"]) auto
  next
    fix grp assume grp: "map_of g n = Some (YObj grp)" "map_of grp ''autodevice'' = None"
      "\<forall>ns errs. groups_loop G errs g (n # ns)
        = groups_loop G errs (AList.update n (YObj (AList.update ''autodevice'' disabledAutodevice grp)) g) ns"
    let ?g = "AList.update n (YObj (AList.update ''autodevice'' disabledAutodevice grp)) g"
    have good: "good_group ?g l \<longleftrightarrow> good_group g l" if "l \<noteq> n" for l
      using that by (simp add: good_group_def map_of_update)
    have n: "good_group g n" using grp by (simp add: good_groupD)
    from Cons.prems have d: "n \<notin> set ns" "distinct ns" by simp_all
    then have all: "(\<forall>l \<in> set (n # ns). good_group g l) \<longleftrightarrow> (\<forall>l \<in> set ns. good_group ?g l)"
      using n good by (metis list.set_intros(2) set_ConsD)
    obtain es where es: "fst (groups_loop G errs ?g ns) = errs @ map Some es" "es = [] \<longleftrightarrow> (\<forall>l \<in> set ns. good_group ?g l)"
      using Cons.IH [OF d(2), of errs ?g] by blast
    have upd: "map_of (snd (groups_loop G errs ?g ns)) l = Some (YObj (if l \<in> set ns then AList.update ''autodevice'' disabledAutodevice p else p))"
      if "\<forall>l \<in> set ns. good_group ?g l" "map_of ?g l = Some (YObj p)" for l p
      using Cons.IH [OF d(2), of errs ?g] that by blast
    have "map_of (snd (groups_loop G errs g (n # ns))) l
        = Some (YObj (if l \<in> set (n # ns) then AList.update ''autodevice'' disabledAutodevice p else p))"
      if "\<forall>l \<in> set (n # ns). good_group g l" "map_of g l = Some (YObj p)" for l p
    proof (cases "l = n")
      case True
      with that grp upd [of n "AList.update ''autodevice'' disabledAutodevice grp"] all d(1) show ?thesis
        by (simp add: map_of_update)
    next
      case False
      with that grp upd [of l p] all show ?thesis by (simp add: map_of_update)
    qed
    with es all grp(3) show ?thesis by (intro conjI exI [of _ es]) simp_all
  qed
qed simp

definition adds_autodevice :: "golibs \<Rightarrow> yobj \<Rightarrow> yobj \<Rightarrow> bool" where
  "adds_autodevice G conf conf' = (\<exists>groups. get_chain [''dns'', ''upstream'', ''groups''] conf = Some groups \<and>
     errors_join (fst (groups_loop G [] groups (sort (map fst groups)))) = None \<and>
     conf' = set_version 4 (put_chain [''dns'', ''upstream'', ''groups'']
       (snd (groups_loop G [] groups (sort (map fst groups)))) conf))"

lemma migrateTo4_Inr:
  assumes "golibs_ok G"
  shows "migrateTo4 G conf = Inr conf' \<longleftrightarrow> adds_autodevice G conf conf'"
proof (rule fieldChainVal_cases [OF assms, of "[''dns'', ''upstream'', ''groups'']" conf])
  fix err assume "fieldChainVal G as_obj conf [''dns'', ''upstream'', ''groups''] = Some (Inl err)"
    "get_chain [''dns'', ''upstream'', ''groups''] conf = None"
  then show ?thesis by (simp add: migrateTo4_def adds_autodevice_def)
next
  fix ob assume *: "fieldChainVal G as_obj conf [''dns'', ''upstream'', ''groups''] = Some (Inr ob)"
    "get_chain [''dns'', ''upstream'', ''groups''] conf = Some ob"
  obtain errs g where "groups_loop G [] ob (sort (map fst ob)) = (errs, g)" by (metis surj_pair)
  with * show ?thesis
    by (cases "errors_join errs") (auto simp: migrateTo4_def adds_autodevice_def simp del: errors_join_None)
qed simp

interpretation to2: migration G "migrateTo2 G" 2 for G
  by unfold_locales (auto simp: migrateTo2_Inr dest: adds_server_ok)

interpretation to3: migration G "migrateTo3 G" 3 for G
  by unfold_locales (auto simp: migrateTo3_Inr dest: adds_server_ok)

interpretation to4: migration G "migrateTo4 G" 4 for G
  by unfold_locales
    (auto simp: migrateTo4_Inr adds_autodevice_def version_of_set_version
      intro!: add_setting_kept groups_loop_kept)

section \<open>The sequence of migrations\<close>

lemma migrations_nth:
  "migrations G ! 1 = Some (migrateTo2 G)" "migrations G ! 2 = Some (migrateTo3 G)"
  "migrations G ! 3 = Some (migrateTo4 G)" "length (migrations G) = 4"
  by (simp_all add: migrations_def)

lemma migrate_0: "migrate G conf v v = (if v \<le> 4 then Some (Inr conf) else None)"
  by (simp add: migrate_def migrations_nth)

lemma migrate_Suc:
  assumes "1 \<le> v" "v < t" "t \<le> 4"
  shows "migrate G conf v t = (case the (migrations G ! v) conf of
      Inl err \<Rightarrow> Some (Inl (EWrap (MsgVer ''upgrading schema'' v (v + 1)) err))
    | Inr conf' \<Rightarrow> migrate G conf' (v + 1) t)"
proof -
  have d: "drop v (migrations G) = migrations G ! v # drop (v + 1) (migrations G)"
    using assms by (simp add: Cons_nth_drop_Suc migrations_nth(4))
  have t: "t - v = Suc (t - (v + 1))" using assms by simp
  have "v = 1 \<or> v = 2 \<or> v = 3" using assms by linarith
  then obtain f where "migrations G ! v = Some f" using migrations_nth(1-3) [of G] by auto
  then show ?thesis using assms d t by (simp add: migrate_def migrations_nth(4) split: sum.splits)
qed

lemma step_spec:
  assumes "golibs_ok G" "1 \<le> v" "v < 4" "the (migrations G ! v) conf = Inr conf'"
  shows "map_of conf' SchemaVersionKey = Some (YVersion (v + 1)) \<and> conf_kept conf conf'"
proof -
  have "v = 1 \<or> v = 2 \<or> v = 3" using assms by linarith
  then show ?thesis
    using assms(4) migrations_nth(1-3) [of G] to2.sets_version [OF assms(1)] to2.keeps [OF assms(1)]
      to3.sets_version [OF assms(1)] to3.keeps [OF assms(1)] to4.sets_version [OF assms(1)] to4.keeps [OF assms(1)]
    by auto
qed

lemma migrate_result:
  assumes "golibs_ok G" "1 \<le> v" "v \<le> t" "t \<le> 4"
  shows "\<exists>res. migrate G conf v t = Some res \<and> (\<forall>conf'. res = Inr conf' \<longrightarrow>
    conf_kept conf conf' \<and> (v < t \<longrightarrow> map_of conf' SchemaVersionKey = Some (YVersion t)))"
  using assms(2,3)
proof (induction "t - v" arbitrary: v conf)
  case 0
  then show ?case using assms(4) by (simp add: migrate_0 conf_kept_def obj_kept_refl)
next
  case (Suc k)
  then have lt: "v < t" by simp
  show ?case
  proof (cases "the (migrations G ! v) conf")
    case (Inl err)
    then show ?thesis using migrate_Suc [OF Suc.prems(1) lt assms(4)] by simp
  next
    case (Inr mid)
    then have m: "map_of mid SchemaVersionKey = Some (YVersion (v + 1))" "conf_kept conf mid"
      using step_spec [OF assms(1) Suc.prems(1) _ Inr] lt assms(4) by auto
    obtain res where res: "migrate G mid (v + 1) t = Some res"
      "\<And>conf'. res = Inr conf' \<Longrightarrow> conf_kept mid conf' \<and> (v + 1 < t \<longrightarrow> map_of conf' SchemaVersionKey = Some (YVersion t))"
    proof -
      have "k = t - (v + 1)" "1 \<le> v + 1" "v + 1 \<le> t" using Suc.hyps(2) lt by simp_all
      from Suc.hyps(1) [OF this, of mid] that show thesis by blast
    qed
    have "map_of conf' SchemaVersionKey = Some (YVersion t)" if "res = Inr conf'" for conf'
    proof (cases "v + 1 = t")
      case True
      then have "conf' = mid" using res(1) that assms(4) by (simp add: migrate_0)
      with m True show ?thesis by simp
    next
      case False
      with res(2) [OF that] lt show ?thesis by simp
    qed
    with res m(2) Inr migrate_Suc [OF Suc.prems(1) lt assms(4), of G conf] show ?thesis
      by (auto intro: conf_kept_trans)
  qed
qed

lemma getVersion_Inr:
  assumes "golibs_ok G"
  shows "getVersion G conf = Inr v \<longleftrightarrow> map_of conf SchemaVersionKey = Some (YInt (int v)) \<and> 1 \<le> v \<and> v \<le> 4"
proof -
  have f: "fieldVal G as_int conf SchemaVersionKey = Inr n \<longleftrightarrow> map_of conf SchemaVersionKey = Some (YInt n)" for n
    using fieldVal_Inr [OF assms, of as_int] by simp
  have r: "v_in_range G SchemaVersionKey n (int VersionInitial) (int VersionLatest) = None \<longleftrightarrow> 1 \<le> n \<and> n \<le> 4" for n
    using golibs_okD(2) [OF assms] by (simp add: version_consts)
  show ?thesis
  proof (cases "fieldVal G as_int conf SchemaVersionKey")
    case (Inl e)
    with f show ?thesis by (auto simp: getVersion_def)
  next
    case (Inr n)
    with f [of n] r [of n] show ?thesis
      by (cases "v_in_range G SchemaVersionKey n (int VersionInitial) (int VersionLatest)")
        (auto simp: getVersion_def)
  qed
qed

section \<open>The run\<close>

text \<open>
  What \<open>maybe.WriteFile\<close> does on every system: it touches its own file only, and if it succeeds the file
  has the data; a new file then has the given permissions, and an existing one keeps its own.  Nothing
  is assumed of the file after a write that fails: \<open>renameio\<close> leaves it alone, but on Windows the function
  is \<open>os.WriteFile\<close>, which may have truncated it.
\<close>

definition write_ok :: "mig_env \<Rightarrow> bool" where
  "write_ok E = (\<forall>p b perm s e s'. write_file E p b perm s = (e, s') \<longrightarrow>
     (\<forall>q. q \<noteq> p \<longrightarrow> files s' q = files s q \<and> perms s' q = perms s q) \<and>
     (e = None \<longrightarrow> files s' p = Some b \<and> perms s' p = (if files s p = None then Some perm else perms s p)))"

lemma write_okD:
  assumes "write_ok E" "write_file E p b perm s = (e, s')"
  shows "q \<noteq> p \<Longrightarrow> files s' q = files s q" "q \<noteq> p \<Longrightarrow> perms s' q = perms s q"
    "e = None \<Longrightarrow> files s' p = Some b" "e = None \<Longrightarrow> perms s' p = (if files s p = None then Some perm else perms s p)"
  using assms unfolding write_ok_def by blast+

text \<open>What the YAML library does with an encoded version.\<close>

definition yaml_ok :: "mig_env \<Rightarrow> bool" where
  "yaml_ok E = (\<forall>obj b n. encode E obj = Inr b \<longrightarrow> map_of obj SchemaVersionKey = Some (YVersion n) \<longrightarrow>
     (\<exists>obj'. unmarshal E b = Inr obj' \<and> map_of obj' SchemaVersionKey = Some (YInt (int n))))"

abbreviation confPath :: "migrator \<Rightarrow> path" where
  "confPath m \<equiv> path_join (workingDir m) (configName m)"

lemma bkpPath_ne: "bkpPath E m v t \<noteq> confPath m"
proof
  assume "bkpPath E m v t = confPath m"
  then have "length (bkpPath E m v t) = length (confPath m)" by simp
  then show False by (simp add: bkpPath_def path_join_def)
qed

abbreviation bkpDir :: "mig_env \<Rightarrow> migrator \<Rightarrow> nat \<Rightarrow> nat \<Rightarrow> path" where
  "bkpDir E m v t \<equiv> path_join (workingDir m) (bkpDirName v t (bkp_time E))"

lemma bkpDir_ne: "bkpDir E m v t \<noteq> bkpPath E m v t"
proof
  assume "bkpDir E m v t = bkpPath E m v t"
  then have "length (bkpDir E m v t) = length (bkpPath E m v t)" by simp
  then show False by (simp add: bkpPath_def path_join_def)
qed

text \<open>A failure before the last write, one of the last write, and a success.\<close>

lemma writeMigrated_cases:
  assumes "write_ok E" "files s (confPath m) = Some orig" "writeMigrated E m conf orig (confPath m) v t s = (err, s')"
  obtains (early) e where "err = Some e" "files s' (confPath m) = files s (confPath m)" "perms s' (confPath m) = perms s (confPath m)"
      "\<And>q. q \<noteq> bkpPath E m v t \<Longrightarrow> files s' q = files s q"
  | (last) e where "err = Some (EWrap (Msg ''writing migrated configuration'') e)" "files s' (bkpPath E m v t) = Some orig"
      "\<And>q. q \<noteq> bkpPath E m v t \<Longrightarrow> q \<noteq> confPath m \<Longrightarrow> files s' q = files s q"
  | (written) b where "err = None" "encode E conf = Inr b"
      "files s' = (files s)(bkpPath E m v t \<mapsto> orig, confPath m \<mapsto> b)"
      "perms s' (confPath m) = perms s (confPath m)" "perms s' (bkpDir E m v t) = Some DefaultPermDir"
      "perms s' (bkpPath E m v t) = (if files s (bkpPath E m v t) = None then Some DefaultPermFile else perms s (bkpPath E m v t))"
proof -
  note ne = bkpPath_ne [where E = E and m = m and v = v and t = t] bkpDir_ne [where E = E and m = m and v = v and t = t]
  obtain d1 s1 where d1: "mkdir E (bkpDir E m v t) DefaultPermDir s = (d1, s1)" by (metis surj_pair)
  then have s1: "files s1 = files s" "d1 \<noteq> None \<Longrightarrow> s1 = s"
    "d1 = None \<Longrightarrow> files s (bkpDir E m v t) = None \<and> perms s1 = (perms s)(bkpDir E m v t \<mapsto> DefaultPermDir)"
    by (auto simp: mkdir_def split: option.splits if_splits)
  have dir: "d1 = None \<Longrightarrow> bkpDir E m v t \<noteq> confPath m" using s1(3) assms(2) by auto
  show thesis
  proof (cases "(\<exists>b. encode E conf = Inr b) \<and> close_err E = None \<and> d1 = None")
    case False
    then show thesis using assms(3) d1 s1 dir
      by (intro early [of "the err"]) (auto simp: writeMigrated_def backupConfig_def split: sum.splits option.splits if_splits)
  next
    case True
    then obtain b where b: "encode E conf = Inr b" by blast
    obtain w1 s2 where w1: "write_file E (bkpPath E m v t) orig DefaultPermFile s1 = (w1, s2)" by (metis surj_pair)
    note o1 = write_okD [OF assms(1) w1]
    show thesis
    proof (cases w1)
      case (Some e1)
      then have "err \<noteq> None" "s' = s2" using assms(3) True b d1 w1 by (auto simp: writeMigrated_def backupConfig_def)
      then show thesis using o1(1,2) s1 ne(1) dir True by (intro early [of "the err"]) (auto simp: fun_upd_def)
    next
      case None
      obtain w2 s3 where w2: "write_file E (confPath m) b DefaultPermFile s2 = (w2, s3)" by (metis surj_pair)
      note o2 = write_okD [OF assms(1) w2]
      have res: "err = map_option (EWrap (Msg ''writing migrated configuration'')) w2" "s' = s3"
        using assms(3) True b d1 w1 w2 None
        by (auto simp: writeMigrated_def backupConfig_def split: option.splits)
      show thesis
      proof (cases w2)
        case (Some e2)
        show thesis
          by (rule last [of e2]) (use res Some o1(1,3) o2(1) s1(1) ne(1) None in auto)
      next
        case none2: None
        have "files s3 = (files s)(bkpPath E m v t \<mapsto> orig, confPath m \<mapsto> b)"
        proof
          fix q show "files s3 q = ((files s)(bkpPath E m v t \<mapsto> orig, confPath m \<mapsto> b)) q"
            using o1(1) [of q] o1(3) o2(1) [of q] o2(3) s1(1) ne(1) None none2 by auto
        qed
        moreover have "perms s3 (confPath m) = perms s (confPath m)"
          using o2(4) [OF none2] o1(1,2) [of "confPath m"] s1 assms(2) ne(1) dir True by auto
        moreover have "perms s3 (bkpDir E m v t) = Some DefaultPermDir"
          using o1(2) [of "bkpDir E m v t"] o2(2) [of "bkpDir E m v t"] s1 ne(2) dir True by simp
        moreover have "perms s3 (bkpPath E m v t) =
            (if files s (bkpPath E m v t) = None then Some DefaultPermFile else perms s (bkpPath E m v t))"
          using o1(4) [OF None] o2(2) [of "bkpPath E m v t"] s1 ne True by simp
        ultimately show thesis using res none2 b by (intro written [of b]) simp_all
      qed
    qed
  qed
qed

text \<open>The outcomes of a run.\<close>

lemma readYAML_Inr: "readYAML E p s = Inr (conf, data) \<longleftrightarrow>
    read_err E p = None \<and> files s p = Some data \<and> unmarshal E data = Inr conf"
  by (auto simp: readYAML_def read_file_def split: option.splits sum.splits)

lemma run_cases:
  assumes "golibs_ok G" "target \<le> 4" "run G E m target s = Some (err, s')"
  obtains (unchanged) "s' = s"
  | (migrated) conf orig v conf' werr where
      "files s (confPath m) = Some orig" "unmarshal E orig = Inr conf" "getVersion G conf = Inr v"
      "v < target" "migrate G conf v target = Some (Inr conf')"
      "writeMigrated E m conf' orig (confPath m) v target s = (werr, s')" "err = None \<longleftrightarrow> werr = None"
      "err = annotate G (Msg ''migrating'') werr"
proof -
  obtain ierr where i: "run_inner G E m target s = Some (ierr, s')" "err = annotate G (Msg ''migrating'') ierr"
    using assms(3) by (auto simp: run_def)
  have none: "err = None \<longleftrightarrow> ierr = None" using i(2) golibs_okD(1) [OF assms(1)] by simp
  show ?thesis
  proof (cases "readYAML E (confPath m) s")
    case (Inl e)
    then show ?thesis using i(1) by (intro unchanged) (auto simp: run_inner_def Let_def split: if_splits)
  next
    case (Inr cd)
    obtain conf orig where cd: "cd = (conf, orig)" by (cases cd)
    note r = Inr [unfolded cd, unfolded readYAML_Inr]
    show ?thesis
    proof (cases "getVersion G conf")
      case (Inl e)
      then show ?thesis using i(1) Inr cd by (intro unchanged) (auto simp: run_inner_def Let_def)
    next
      case v: (Inr v)
      show ?thesis
      proof (cases "v = target")
        case True
        then show ?thesis using i(1) Inr cd v by (intro unchanged) (auto simp: run_inner_def Let_def)
      next
        case False
        then obtain res where res: "migrate G conf v target = Some res"
          using i(1) Inr cd v by (auto simp: run_inner_def Let_def split: option.splits)
        then have "v < target" using False by (auto simp: migrate_def split: if_splits)
        show ?thesis
        proof (cases res)
          case (Inl e)
          then show ?thesis using i(1) Inr cd v False res
            by (intro unchanged) (auto simp: run_inner_def Let_def)
        next
          case (Inr conf')
          then have "writeMigrated E m conf' orig (confPath m) v target s = (ierr, s')"
            using i(1) \<open>readYAML E (confPath m) s = Inr cd\<close> cd v False res
            by (simp add: run_inner_def Let_def)
          then show ?thesis using r v \<open>v < target\<close> res Inr none i(2) by (intro migrated) simp_all
        qed
      qed
    qed
  qed
qed

section \<open>Properties\<close>

text \<open>A concrete environment, for the witnesses: a file of version 1 that is migrated.\<close>

definition demo_v1 :: yobj where
  "demo_v1 = [(''dns'', YObj [(''server'', YObj [(''cache'', YBool True)]),
     (''upstream'', YObj [(''groups'', YObj [(''default'', YObj [(''address'', YStr ''1.1.1.1'')])])])]),
     (SchemaVersionKey, YInt 1)]"

text \<open>The writes to some paths fail, and leave an empty file.\<close>

definition demo_env :: "(path \<Rightarrow> goerr option) \<Rightarrow> mig_env" where
  "demo_env werr = \<lparr>read_err = (\<lambda>_. None), mkdir_err = (\<lambda>_. None),
     write_file = (\<lambda>p b perm s. case werr p of
       None \<Rightarrow> (None, s\<lparr>files := (files s)(p \<mapsto> b), perms := (if files s p = None then (perms s)(p \<mapsto> perm) else perms s)\<rparr>)
     | Some e \<Rightarrow> (Some e, s\<lparr>files := (files s)(p \<mapsto> [])\<rparr>)),
     unmarshal = (\<lambda>b. Inr (if b = ''start'' then demo_v1 else [(SchemaVersionKey, YInt (int (length b)))])),
     encode = (\<lambda>ob. Inr (case map_of ob SchemaVersionKey of Some (YVersion n) \<Rightarrow> replicate n CHR ''v'' | _ \<Rightarrow> [])),
     close_err = None, bkp_time = ''2026-01-01-00-00-00''\<rparr>"

definition demo_disk :: "path \<Rightarrow> goerr option" where
  "demo_disk p = (if p = ''/opt/config.yaml'' then Some (ErrOther ''disk full'') else None)"

definition demo_mig :: migrator where
  "demo_mig = \<lparr>workingDir = ''/opt'', configName = ''config.yaml''\<rparr>"

definition demo_fs :: fs where
  "demo_fs = \<lparr>files = [''/opt/config.yaml'' \<mapsto> ''start''], dirs = {''/opt''},
     perms = [''/opt/config.yaml'' \<mapsto> 0x1A4]\<rparr>"

lemma demo_path: "confPath demo_mig = ''/opt/config.yaml''"
  by (simp add: demo_mig_def path_join_def)

lemma demo_env_ok: "write_ok (demo_env e)" "yaml_ok (demo_env e)" "read_err (demo_env e) p = None"
proof -
  show "write_ok (demo_env e)" by (auto simp: write_ok_def demo_env_def split: option.splits)
  have "replicate n CHR ''v'' \<noteq> ''start''" for n by (cases n) simp_all
  then show "yaml_ok (demo_env e)" by (simp add: yaml_ok_def demo_env_def)
  show "read_err (demo_env e) p = None" by (simp add: demo_env_def)
qed

lemma demo_migrated: "\<exists>conf'. migrate ref_golibs demo_v1 1 4 = Some (Inr conf')"
proof -
  have "(case migrate ref_golibs demo_v1 1 4 of Some (Inr _) \<Rightarrow> True | _ \<Rightarrow> False)" by code_simp
  then show ?thesis by (auto split: option.splits sum.splits)
qed

abbreviation demo_bkp :: path where
  "demo_bkp \<equiv> ''/opt/backup-configmigrate-v1-to-v4-2026-01-01-00-00-00.dir/config.yaml''"

lemma demo_run:
  "\<exists>s'. run ref_golibs (demo_env (\<lambda>_. None)) demo_mig 4 demo_fs = Some (None, s') \<and> s' \<noteq> demo_fs \<and>
     files s' ''/opt/config.yaml'' = Some ''vvvv''"
  "\<exists>e s'. run ref_golibs (demo_env demo_disk) demo_mig 4 demo_fs = Some (Some e, s') \<and> files s' ''/opt/config.yaml'' = Some []"
proof -
  have "(case run ref_golibs (demo_env (\<lambda>_. None)) demo_mig 4 demo_fs of
      Some (None, s') \<Rightarrow> files s' ''/opt/config.yaml'' = Some ''vvvv'' | _ \<Rightarrow> False)" by code_simp
  then show "\<exists>s'. run ref_golibs (demo_env (\<lambda>_. None)) demo_mig 4 demo_fs = Some (None, s') \<and> s' \<noteq> demo_fs \<and>
      files s' ''/opt/config.yaml'' = Some ''vvvv''" by (auto simp: demo_fs_def split: option.splits prod.splits)
  have "(case run ref_golibs (demo_env demo_disk) demo_mig 4 demo_fs of
      Some (Some e, s') \<Rightarrow> files s' ''/opt/config.yaml'' = Some [] | _ \<Rightarrow> False)" by code_simp
  then show "\<exists>e s'. run ref_golibs (demo_env demo_disk) demo_mig 4 demo_fs = Some (Some e, s') \<and> files s' ''/opt/config.yaml'' = Some []"
    by (auto split: option.splits prod.splits)
qed

lemma demo_bkp_version: "bkpPath (demo_env e) demo_mig 1 4 = demo_bkp"
proof -
  have "bkpPath (demo_env (\<lambda>_. None)) demo_mig 1 4 = demo_bkp" by code_simp
  then show ?thesis by (simp add: bkpPath_def demo_env_def)
qed

text \<open>
  C18: A run that fails never loses the configuration, even if a failing write destroys the file that it
  writes.  Every file but the configuration file and the backup of this run is as it was; so is the
  configuration file, unless what failed is the last write, that of the migrated configuration: the
  original is then in the backup.
\<close>

lemma run_failure_keeps_config:
  assumes "golibs_ok G" "write_ok E" "target \<le> 4" "run G E m target s = Some (Some err, s')"
  shows "\<exists>v. (\<forall>q. q \<noteq> bkpPath E m v target \<longrightarrow> q \<noteq> confPath m \<longrightarrow> files s' q = files s q) \<and>
    (files s' (confPath m) = files s (confPath m) \<and> perms s' (confPath m) = perms s (confPath m) \<or>
     files s (confPath m) \<noteq> None \<and> files s' (bkpPath E m v target) = files s (confPath m) \<and>
     (\<exists>e. err = annotated G (Msg ''migrating'') (EWrap (Msg ''writing migrated configuration'') e)))"
  using assms(1,3,4)
proof (cases rule: run_cases)
  case (migrated conf orig v conf' werr)
  from assms(2) migrated(1,6) show ?thesis
  proof (cases rule: writeMigrated_cases)
    case (early e)
    then show ?thesis by (intro exI [of _ v]) simp
  next
    case (last e)
    then have "err = annotated G (Msg ''migrating'') (EWrap (Msg ''writing migrated configuration'') e)"
      using migrated(8) by (auto simp: annotated_def dest: sym split: option.splits)
    with last migrated(1) show ?thesis by (intro exI [of _ v]) auto
  qed (use migrated(7) in simp)
qed simp

lemma run_failure_keeps_config_witness:
  "\<exists>e s'. run ref_golibs (demo_env demo_disk) demo_mig 4 demo_fs = Some (Some e, s') \<and>
     files s' ''/opt/config.yaml'' = Some [] \<and> (\<exists>v. files s' (bkpPath (demo_env demo_disk) demo_mig v 4) = Some ''start'')"
proof -
  obtain e s' where r: "run ref_golibs (demo_env demo_disk) demo_mig 4 demo_fs = Some (Some e, s')"
      "files s' ''/opt/config.yaml'' = Some []" using demo_run(2) by blast
  have "files demo_fs (confPath demo_mig) = Some ''start''" by (simp add: demo_fs_def demo_path)
  with run_failure_keeps_config [OF ref_golibs_ok demo_env_ok(1) _ r(1)] r show ?thesis by (auto simp: demo_path)
qed

lemma run_success:
  assumes "golibs_ok G" "write_ok E" "target \<le> 4" "run G E m target s = Some (None, s')" "s' \<noteq> s"
  shows "\<exists>orig conf v conf' b.
    files s (confPath m) = Some orig \<and> unmarshal E orig = Inr conf \<and> getVersion G conf = Inr v \<and> v < target \<and>
    migrate G conf v target = Some (Inr conf') \<and> encode E conf' = Inr b \<and>
    files s' = (files s)(bkpPath E m v target \<mapsto> orig, confPath m \<mapsto> b) \<and>
    conf_kept conf conf' \<and> map_of conf' SchemaVersionKey = Some (YVersion target) \<and>
    perms s' (bkpDir E m v target) = Some DefaultPermDir \<and> perms s' (confPath m) = perms s (confPath m) \<and>
    (files s (bkpPath E m v target) = None \<longrightarrow> perms s' (bkpPath E m v target) = Some DefaultPermFile)"
  using assms(1,3,4)
proof (cases rule: run_cases)
  case (migrated conf orig v conf' werr)
  have v: "1 \<le> v" using migrated(3) getVersion_Inr [OF assms(1)] by blast
  have k: "conf_kept conf conf'" "map_of conf' SchemaVersionKey = Some (YVersion target)"
    using migrate_result [OF assms(1) v _ assms(3), of conf] migrated(4,5) by auto
  from assms(2) migrated(1,6) show ?thesis
  proof (cases rule: writeMigrated_cases)
    case (written b)
    show ?thesis
      by (intro exI [of _ orig] exI [of _ conf] exI [of _ v] exI [of _ conf'] exI [of _ b] conjI)
        (use migrated(1-5) k written in simp_all)
  qed (use migrated(7) in simp_all)
qed (use assms(5) in simp)

text \<open>
  C28: A run that succeeds and changes anything has put the original bytes into the backup and the
  encoding of the result of the migration into the configuration file, and changed no other file.  The
  result of the migration has the target version and keeps every setting of the original.  The
  directory of the backup is accessible to the owner only, and the new file in it too; the
  configuration file keeps the permissions that it had.
\<close>

lemma run_success_backup:
  assumes "golibs_ok G" "write_ok E" "target \<le> 4" "run G E m target s = Some (None, s')" "s' \<noteq> s"
  shows "\<exists>orig conf v conf' b.
    files s (confPath m) = Some orig \<and> unmarshal E orig = Inr conf \<and> getVersion G conf = Inr v \<and> v < target \<and>
    migrate G conf v target = Some (Inr conf') \<and> encode E conf' = Inr b \<and>
    files s' = (files s)(bkpPath E m v target \<mapsto> orig, confPath m \<mapsto> b) \<and>
    conf_kept conf conf' \<and> map_of conf' SchemaVersionKey = Some (YVersion target) \<and>
    perms s' (bkpDir E m v target) = Some DefaultPermDir \<and> perms s' (confPath m) = perms s (confPath m) \<and>
    (files s (bkpPath E m v target) = None \<longrightarrow> perms s' (bkpPath E m v target) = Some DefaultPermFile)"
  by (rule run_success [OF assms])

lemma run_success_backup_witness:
  "\<exists>s'. run ref_golibs (demo_env (\<lambda>_. None)) demo_mig 4 demo_fs = Some (None, s') \<and>
     files s' ''/opt/config.yaml'' = Some ''vvvv'' \<and> perms s' ''/opt/config.yaml'' = Some 0x1A4 \<and>
     files s' demo_bkp = Some ''start'' \<and> perms s' demo_bkp = Some 0x180"
proof -
  obtain s' where r: "run ref_golibs (demo_env (\<lambda>_. None)) demo_mig 4 demo_fs = Some (None, s')" "s' \<noteq> demo_fs"
      "files s' ''/opt/config.yaml'' = Some ''vvvv''" using demo_run(1) by blast
  have u: "unmarshal (demo_env (\<lambda>_. None)) ''start'' = Inr demo_v1" by (simp add: demo_env_def)
  have g: "getVersion ref_golibs demo_v1 = Inr 1" by code_simp
  have f: "files demo_fs ''/opt/config.yaml'' = Some ''start''" "perms demo_fs ''/opt/config.yaml'' = Some 0x1A4"
    "files demo_fs demo_bkp = None" by (simp_all add: demo_fs_def)
  have ne: "''/opt/config.yaml'' \<noteq> demo_bkp" by simp
  from run_success_backup [OF ref_golibs_ok demo_env_ok(1) _ r(1,2), unfolded demo_path f(1)] u g
  have "files s' = (files demo_fs)(demo_bkp \<mapsto> ''start'', ''/opt/config.yaml'' \<mapsto> ''vvvv'') \<and>
      perms s' ''/opt/config.yaml'' = Some 0x1A4 \<and> perms s' demo_bkp = Some DefaultPermFile"
    using r(3) f by (auto simp: demo_bkp_version [simplified])
  with r f ne show ?thesis by (auto simp: DefaultPermFile_def)
qed

text \<open>
  C29: A successful run is idempotent, as long as the configuration can be read and YAML that was written is
  read back with its schema version: the next run to the same version returns no error and changes no
  file, no directory and no permission.
\<close>

lemma run_idempotent:
  assumes "golibs_ok G" "write_ok E" "yaml_ok E" "read_err E (confPath m) = None" "target \<le> 4"
    "run G E m target s = Some (None, s')"
  shows "run G E m target s' = Some (None, s')"
proof (cases "s' = s")
  case True
  with assms(6) show ?thesis by simp
next
  case False
  obtain orig conf v conf' b where *: "getVersion G conf = Inr v" "v < target"
    "files s' = (files s)(bkpPath E m v target \<mapsto> orig, confPath m \<mapsto> b)"
    "encode E conf' = Inr b" "map_of conf' SchemaVersionKey = Some (YVersion target)"
    using run_success [OF assms(1,2,5,6) False] by auto
  obtain obj where obj: "unmarshal E b = Inr obj" "map_of obj SchemaVersionKey = Some (YInt (int target))"
    using assms(3) *(4,5) unfolding yaml_ok_def by blast
  have "readYAML E (confPath m) s' = Inr (obj, b)"
    using assms(4) *(3) obj(1) by (simp add: readYAML_Inr)
  moreover have "getVersion G obj = Inr target"
    using getVersion_Inr [OF assms(1)] obj(2) *(2) assms(5) by simp
  ultimately show ?thesis using golibs_okD(1) [OF assms(1)] by (simp add: run_def run_inner_def Let_def)
qed

lemma run_idempotent_witness:
  "\<exists>s'. s' \<noteq> demo_fs \<and> run ref_golibs (demo_env (\<lambda>_. None)) demo_mig 4 s' = Some (None, s')"
proof -
  obtain s' where r: "run ref_golibs (demo_env (\<lambda>_. None)) demo_mig 4 demo_fs = Some (None, s')" "s' \<noteq> demo_fs"
    using demo_run(1) by blast
  have "run ref_golibs (demo_env (\<lambda>_. None)) demo_mig 4 s' = Some (None, s')"
    by (rule run_idempotent [OF ref_golibs_ok demo_env_ok _ r(1)]) simp
  with r(2) show ?thesis by blast
qed

text \<open>The migration from a version to the next, and what a sequence of them gives.\<close>

definition migration_from :: "golibs \<Rightarrow> nat \<Rightarrow> migrateFunc" where
  "migration_from G v = (if v = 1 then migrateTo2 G else if v = 2 then migrateTo3 G else migrateTo4 G)"

definition steps :: "golibs \<Rightarrow> nat \<Rightarrow> nat \<Rightarrow> (nat \<Rightarrow> yobj) \<Rightarrow> bool" where
  "steps G v n cs = (\<forall>i < n. migration_from G (v + i) (cs i) = Inr (cs (Suc i)))"

lemma steps_Suc: "steps G v (Suc n) cs \<longleftrightarrow> migration_from G v (cs 0) = Inr (cs 1) \<and> steps G (Suc v) n (\<lambda>i. cs (Suc i))"
  unfolding steps_def by (subst All_less_Suc2) simp

lemma steps_case_nat:
  "steps G v (Suc n) (case_nat c cs) \<longleftrightarrow> migration_from G v c = Inr (cs 0) \<and> steps G (Suc v) n cs"
  by (simp add: steps_Suc)

lemma migrate_from:
  assumes "1 \<le> v" "v < t" "t \<le> 4"
  shows "migrate G conf v t = (case migration_from G v conf of
      Inl err \<Rightarrow> Some (Inl (EWrap (MsgVer ''upgrading schema'' v (v + 1)) err))
    | Inr conf' \<Rightarrow> migrate G conf' (v + 1) t)"
proof -
  have "v = 1 \<or> v = 2 \<or> v = 3" using assms by linarith
  then have "the (migrations G ! v) = migration_from G v" by (auto simp: migration_from_def migrations_def)
  with migrate_Suc [OF assms, of G conf] show ?thesis by simp
qed

lemma migrate_Inr_steps:
  assumes "1 \<le> v" "v \<le> t" "t \<le> 4"
  shows "migrate G conf v t = Some (Inr conf') \<longleftrightarrow> (\<exists>cs. cs 0 = conf \<and> steps G v (t - v) cs \<and> cs (t - v) = conf')"
  using assms(1,2)
proof (induction "t - v" arbitrary: v conf)
  case 0
  then show ?case using assms(3) by (auto simp: migrate_0 steps_def)
next
  case (Suc k)
  then have lt: "v < t" and k: "t - v = Suc k" "k = t - (v + 1)" by simp_all
  note IH = Suc.hyps(1) [OF k(2), folded k(2)]
  show ?case
  proof
    assume "migrate G conf v t = Some (Inr conf')"
    then obtain mid where mid: "migration_from G v conf = Inr mid" "migrate G mid (v + 1) t = Some (Inr conf')"
      using migrate_from [OF Suc.prems(1) lt assms(3)] by (auto split: sum.splits)
    then obtain cs where "cs 0 = mid" "steps G (v + 1) k cs" "cs k = conf'" using IH lt by auto
    with mid(1) show "\<exists>cs. cs 0 = conf \<and> steps G v (t - v) cs \<and> cs (t - v) = conf'"
      unfolding k(1) by (intro exI [of _ "case_nat conf cs"]) (simp add: steps_case_nat)
  next
    assume "\<exists>cs. cs 0 = conf \<and> steps G v (t - v) cs \<and> cs (t - v) = conf'"
    then obtain cs where cs: "cs 0 = conf" "migration_from G v conf = Inr (cs 1)" "steps G (Suc v) k (\<lambda>i. cs (Suc i))"
        "cs (Suc k) = conf'" unfolding k(1) by (auto simp: steps_Suc)
    then have "migrate G (cs 1) (v + 1) t = Some (Inr conf')" using IH [of "cs 1"] lt by auto
    with cs(2) migrate_from [OF Suc.prems(1) lt assms(3)] show "migrate G conf v t = Some (Inr conf')" by simp
  qed
qed

lemma migrate_Inl_steps:
  assumes "1 \<le> v" "v \<le> t" "t \<le> 4" "migrate G conf v t = Some (Inl err)"
  shows "\<exists>cs k e. k < t - v \<and> cs 0 = conf \<and> steps G v k cs \<and> migration_from G (v + k) (cs k) = Inl e \<and>
    err = EWrap (MsgVer ''upgrading schema'' (v + k) (v + k + 1)) e"
  using assms(1,2,4)
proof (induction "t - v" arbitrary: v conf)
  case 0
  then show ?case using assms(3) by (simp add: migrate_0)
next
  case (Suc n)
  then have lt: "v < t" and n: "t - v = Suc n" "n = t - (v + 1)" by simp_all
  show ?case
  proof (cases "migration_from G v conf")
    case (Inl e)
    with Suc.prems(3) migrate_from [OF Suc.prems(1) lt assms(3), of G conf] n(1) show ?thesis
      by (intro exI [of _ "\<lambda>_. conf"] exI [of _ "0 :: nat"] exI [of _ e]) (simp add: steps_def)
  next
    case (Inr mid)
    then have "migrate G mid (v + 1) t = Some (Inl err)"
      using Suc.prems(3) migrate_from [OF Suc.prems(1) lt assms(3), of G conf] by simp
    from Suc.hyps(1) [OF n(2) _ _ this] lt obtain cs k e where cs: "k < t - (v + 1)" "cs 0 = mid" "steps G (v + 1) k cs"
        "migration_from G (v + 1 + k) (cs k) = Inl e" "err = EWrap (MsgVer ''upgrading schema'' (v + 1 + k) (v + 1 + k + 1)) e"
      by auto
    with Inr show ?thesis
      by (intro exI [of _ "case_nat conf cs"] exI [of _ "Suc k"] exI [of _ e]) (simp add: steps_case_nat)
  qed
qed

text \<open>
  C27: Migrating between versions runs the migrations of all the versions in between, in order and each on
  the result of the one before: it succeeds exactly if they all do, with the result of the last, and
  otherwise fails with the error of the first that fails.  A result has the target version and keeps
  every setting.  It panics exactly if the file is newer than the target or the target is not a
  version, which a run to the latest version never does.
\<close>

lemma migrate_total:
  assumes "golibs_ok G" "1 \<le> v"
  shows "(migrate G conf v t = None \<longleftrightarrow> t < v \<or> 4 < t) \<and>
    (v \<le> t \<and> t \<le> 4 \<longrightarrow>
      (migrate G conf v t = Some (Inr conf') \<longleftrightarrow> (\<exists>cs. cs 0 = conf \<and> steps G v (t - v) cs \<and> cs (t - v) = conf')) \<and>
      (migrate G conf v t = Some (Inl err) \<longrightarrow>
         (\<exists>cs k e. k < t - v \<and> cs 0 = conf \<and> steps G v k cs \<and> migration_from G (v + k) (cs k) = Inl e \<and>
            err = EWrap (MsgVer ''upgrading schema'' (v + k) (v + k + 1)) e))) \<and>
    (migrate G conf v t = Some (Inr conf') \<and> v < t \<longrightarrow>
       conf_kept conf conf' \<and> map_of conf' SchemaVersionKey = Some (YVersion t)) \<and>
    run G E m VersionLatest s \<noteq> None"
proof -
  have none: "migrate G conf v t = None \<longleftrightarrow> t < v \<or> 4 < t" if "1 \<le> v" for conf v t
    using migrate_result [OF assms(1) that, of t conf]
    by (cases "v \<le> t \<and> t \<le> 4") (auto simp: migrate_def migrations_nth(4))
  have res: "conf_kept conf conf' \<and> map_of conf' SchemaVersionKey = Some (YVersion t)"
    if "migrate G conf v t = Some (Inr conf')" "v < t"
    using that none [OF assms(2), of conf t] migrate_result [OF assms(1,2), of t conf] by auto
  have "run_inner G E m VersionLatest s \<noteq> None"
    using none getVersion_Inr [OF assms(1)]
    by (auto simp: run_inner_def Let_def version_consts split: sum.splits option.splits)
  then have "run G E m VersionLatest s \<noteq> None" by (simp add: run_def)
  with none [OF assms(2), of conf t] res migrate_Inr_steps [OF assms(2), of t G conf conf']
    migrate_Inl_steps [OF assms(2), of t G conf err] show ?thesis by blast
qed

lemma migrate_total_witness:
  "migrate ref_golibs demo_v1 3 2 = None \<and> (\<exists>conf' cs. migrate ref_golibs demo_v1 1 4 = Some (Inr conf') \<and>
     cs 0 = demo_v1 \<and> migrateTo2 ref_golibs (cs 0) = Inr (cs 1) \<and> migrateTo3 ref_golibs (cs 1) = Inr (cs 2) \<and>
     migrateTo4 ref_golibs (cs 2) = Inr (cs (3 :: nat)) \<and> cs 3 = conf')"
proof -
  obtain conf' where c: "migrate ref_golibs demo_v1 1 4 = Some (Inr conf')" using demo_migrated by blast
  with migrate_total [OF ref_golibs_ok, where v = 1 and t = 4 and conf = demo_v1 and conf' = conf']
  obtain cs where cs: "cs 0 = demo_v1" "steps ref_golibs 1 3 cs" "cs 3 = conf'" by auto
  have "migration_from ref_golibs 1 (cs 0) = Inr (cs 1)" "migration_from ref_golibs 2 (cs 1) = Inr (cs 2)"
    "migration_from ref_golibs 3 (cs 2) = Inr (cs 3)"
    using cs(2) [unfolded steps_def, rule_format, of 0] cs(2) [unfolded steps_def, rule_format, of 1]
      cs(2) [unfolded steps_def, rule_format, of 2] by (simp_all add: numeral_2_eq_2 numeral_3_eq_3)
  then have "migrateTo2 ref_golibs (cs 0) = Inr (cs 1)" "migrateTo3 ref_golibs (cs 1) = Inr (cs 2)"
    "migrateTo4 ref_golibs (cs 2) = Inr (cs 3)" by (simp_all add: migration_from_def)
  moreover have "migrate ref_golibs demo_v1 3 2 = None"
    using migrate_total [OF ref_golibs_ok, where v = 3 and t = 2 and conf = demo_v1] by simp
  ultimately show ?thesis using c cs by blast
qed

text \<open>
  The first migrations succeed exactly if the file has a server section without the new
  setting, and then add the setting there.
\<close>

lemma server_migrations:
  assumes "golibs_ok G"
  shows "(migrateTo2 G conf = Inr conf' \<longleftrightarrow> adds_server 2 ''bind_retry'' bindRetry conf conf') \<and>
    (migrateTo3 G conf = Inr conf' \<longleftrightarrow> adds_server 3 ''pending_requests'' pendingRequests conf conf')"
  using migrateTo2_Inr [OF assms] migrateTo3_Inr [OF assms] by blast

lemma server_migrations_witness:
  "\<exists>conf'. migrateTo2 ref_golibs demo_v1 = Inr conf' \<and> adds_server 2 ''bind_retry'' bindRetry demo_v1 conf'"
proof -
  have "(case migrateTo2 ref_golibs demo_v1 of Inr _ \<Rightarrow> True | Inl _ \<Rightarrow> False)" by code_simp
  then obtain conf' where "migrateTo2 ref_golibs demo_v1 = Inr conf'" by (auto split: sum.splits)
  then show ?thesis using server_migrations [OF ref_golibs_ok] by blast
qed

text \<open>
  C30: The last migration succeeds exactly if every upstream group is a map with no \<open>autodevice\<close>
  setting, and then gives each group a disabled one; one bad group fails it.
\<close>

lemma migrateTo4_groups:
  assumes "golibs_ok G" "get_chain [''dns'', ''upstream'', ''groups''] conf = Some groups" "distinct (map fst groups)"
  shows "((\<exists>conf'. migrateTo4 G conf = Inr conf') \<longleftrightarrow> (\<forall>n \<in> fst ` set groups. good_group groups n)) \<and>
    (\<forall>conf' n grp. migrateTo4 G conf = Inr conf' \<longrightarrow> map_of groups n = Some (YObj grp) \<longrightarrow>
       get_chain [''dns'', ''upstream'', ''groups'', n] conf' = Some (AList.update ''autodevice'' disabledAutodevice grp))"
proof -
  let ?l = "groups_loop G [] groups (sort (map fst groups))"
  have d: "distinct (sort (map fst groups))" using assms(3) by simp
  let ?conf = "set_version 4 (put_chain [''dns'', ''upstream'', ''groups''] (snd ?l) conf)"
  note l = groups_loop_spec [OF assms(1) d, of "[]" groups]
  have e: "errors_join (fst ?l) = None \<longleftrightarrow> (\<forall>n \<in> fst ` set groups. good_group groups n)"
    using l by auto
  have "get_chain [''dns'', ''upstream'', ''groups'', n] (set_version 4 (put_chain [''dns'', ''upstream'', ''groups''] (snd ?l) conf))
      = Some (AList.update ''autodevice'' disabledAutodevice grp)"
    if "map_of groups n = Some (YObj grp)" "\<forall>n \<in> fst ` set groups. good_group groups n" for n grp
  proof -
    have n: "map_of (snd ?l) n = Some (YObj (AList.update ''autodevice'' disabledAutodevice grp))"
      using l that map_of_SomeD [OF that(1)] by force
    have "get_chain [''dns'', ''upstream'', ''groups''] (put_chain [''dns'', ''upstream'', ''groups''] (snd ?l) conf) = Some (snd ?l)"
      by (rule get_put_chain [OF assms(2)])
    moreover have "get_chain (''dns'' # ks) (set_version 4 c) = get_chain (''dns'' # ks) c" for ks c
    proof -
      have "''dns'' \<noteq> SchemaVersionKey" by (simp add: SchemaVersionKey_def)
      then show ?thesis unfolding set_version_def by (rule get_chain_update_other [OF refl])
    qed
    ultimately have g: "get_chain [''dns'', ''upstream'', ''groups''] ?conf = Some (snd ?l)" by simp
    have "get_chain ([''dns'', ''upstream'', ''groups''] @ [n]) ?conf = get_chain [n] (snd ?l)"
      by (rule get_chain_append [OF g])
    with n show ?thesis by (simp add: chain_simps(1,2))
  qed
  with e show ?thesis by (simp add: migrateTo4_Inr [OF assms(1)] adds_autodevice_def assms(2))
qed

lemma migrateTo4_groups_witness:
  "\<exists>conf'. migrateTo4 ref_golibs demo_v1 = Inr conf'"
proof -
  have g: "get_chain [''dns'', ''upstream'', ''groups''] demo_v1 = Some [(''default'', YObj [(''address'', YStr ''1.1.1.1'')])]"
    by (simp add: chain_simps demo_v1_def)
  show ?thesis
    using migrateTo4_groups [OF ref_golibs_ok g] by (simp add: good_group_def)
qed

end
