(* ===== verification/CmdDefault.thy ===== *)
theory CmdDefault
  imports CmdValid Migrate OsService
begin

text \<open>
  \<open>internal/cmd\<close>: the default configuration (\<open>default.go\<close>) and the handling of the configuration file
  (\<open>config.go\<close>): its creation on installation, its migration, decoding and validation on a start.
  The network interfaces, \<open>netip.ParsePrefix\<close>, opening files and the YAML library are parameters
  (\<open>default_env\<close>, \<open>mig_env\<close>); the file system is the state of \<^theory_text>\<open>Migrate\<close>.
\<close>

section \<open>Default values\<close>

definition defaultUpstreamAddress :: string where
  "defaultUpstreamAddress = ''https://unfiltered.adguard-dns.com/dns-query''"

definition defaultFallbackAddress :: string where "defaultFallbackAddress = ''tls://94.140.14.140''"

definition defaultPlainDNSPort :: nat where "defaultPlainDNSPort = 53"

definition defaultUpstreamTimeout :: int where "defaultUpstreamTimeout = 2 * second"

definition defaultBindRetryEnabled :: bool where "defaultBindRetryEnabled = True"
definition defaultBindRetryIvl :: int where "defaultBindRetryIvl = 1 * second"
definition defaultBindRetryCount :: nat where "defaultBindRetryCount = 4"
definition defaultPendingRequestsEnabled :: bool where "defaultPendingRequestsEnabled = True"

text \<open>\<open>datasize.MB\<close> is \<open>2 ^ 20\<close> bytes.\<close>

definition MB :: "64 word" where "MB = 0x100000"

definition defaultCacheEnabled :: bool where "defaultCacheEnabled = True"
definition defaultCacheSize :: "64 word" where "defaultCacheSize = 128 * MB"
definition defaultCacheClientSize :: "64 word" where "defaultCacheClientSize = 4 * MB"

definition defaultPprofEnabled :: bool where "defaultPprofEnabled = False"
definition defaultPprofPort :: "16 word" where "defaultPprofPort = 6060"

text \<open>\<open>slogutil.FormatDefault\<close>.\<close>

definition FormatDefault :: string where "FormatDefault = ''default''"

definition defaultLogOutput :: string where "defaultLogOutput = outputSyslog"
definition defaultLogFormat :: string where "defaultLogFormat = FormatDefault"
definition defaultLogTimestamp :: bool where "defaultLogTimestamp = False"
definition defaultLogVerbose :: bool where "defaultLogVerbose = False"

lemmas default_values = defaultUpstreamAddress_def defaultFallbackAddress_def defaultPlainDNSPort_def
  defaultUpstreamTimeout_def defaultBindRetryEnabled_def defaultBindRetryIvl_def defaultBindRetryCount_def
  defaultPendingRequestsEnabled_def MB_def defaultCacheEnabled_def defaultCacheSize_def
  defaultCacheClientSize_def defaultPprofEnabled_def defaultPprofPort_def defaultLogOutput_def
  defaultLogFormat_def defaultLogTimestamp_def defaultLogVerbose_def second_def

section \<open>The default configuration\<close>

record default_env =
  InterfaceAddrs :: "goerr + string list"
  ParsePrefix :: "string \<Rightarrow> goerr + prefix"
  open_err :: "path \<Rightarrow> goerr option"
  conf_encode :: "configuration \<Rightarrow> goerr option \<times> bytes"
  conf_decode :: "bytes \<Rightarrow> goerr + configuration"
  file_close :: "goerr option"

text \<open>What is printed on the standard error output is left out.\<close>

fun filterInterfaceAddrs ::
  "default_env \<Rightarrow> string list \<Rightarrow> (addr \<Rightarrow> bool) \<Rightarrow> nat \<Rightarrow> ipPortConfig option list" where
  "filterInterfaceAddrs D [] contains p = []"
| "filterInterfaceAddrs D (a # as) contains p =
     (case ParsePrefix D a of
        Inl err \<Rightarrow> filterInterfaceAddrs D as contains p
      | Inr pref \<Rightarrow>
          let addr = pfx_addr pref in
          if \<not> contains addr then filterInterfaceAddrs D as contains p
          else Some \<lparr>ip_Address = (addr, p)\<rparr> # filterInterfaceAddrs D as contains p)"

definition isListenable :: "addr \<Rightarrow> bool" where
  "isListenable addr = (is_private addr \<or> is_loopback addr)"

definition allListenableAddresses :: "default_env \<Rightarrow> goerr + ipPortConfig option list" where
  "allListenableAddresses D =
     (case InterfaceAddrs D of
        Inl err \<Rightarrow> Inl (EWrap (Msg ''getting interfaces addresses'') err)
      | Inr netAddrs \<Rightarrow> Inr (filterInterfaceAddrs D netAddrs isListenable defaultPlainDNSPort))"

definition newDefaultServerConfig :: "golibs \<Rightarrow> default_env \<Rightarrow> goerr + serverConfig" where
  "newDefaultServerConfig G D =
     (case allListenableAddresses D of
        Inl err \<Rightarrow> Inl (annotated G (Msg ''creating default server configuration'') err)
      | Inr localAddrs \<Rightarrow> Inr \<lparr>
          BindRetry = Some \<lparr>brc_Enabled = defaultBindRetryEnabled, brc_Interval = defaultBindRetryIvl,
            brc_Count = defaultBindRetryCount\<rparr>,
          PendingRequests = Some \<lparr>prc_Enabled = defaultPendingRequestsEnabled\<rparr>,
          ListenAddresses = localAddrs\<rparr>)"

text \<open>The addresses are those that \<open>netip.MustParseAddr\<close> parses.\<close>

definition bootstrapServers :: "ipPortConfig option list" where
  "bootstrapServers = map (\<lambda>a. Some \<lparr>ip_Address = (a, defaultPlainDNSPort)\<rparr>)
     [A4 (ipv4 9 9 9 10), A4 (ipv4 149 112 112 10),
      A6 0x262000FE000000000000000000000010 [], A6 0x262000FE000000000000000000FE0010 []]"

definition defaultGroups :: upstreamGroupsConfig where
  "defaultGroups = [(UpstreamGroupNameDefault, Some \<lparr>ug_Address = defaultUpstreamAddress,
     ug_Autodevice = Some \<lparr>adc_ProfileID = [], adc_DeviceType = [], adc_Enabled = False\<rparr>, ug_Match = []\<rparr>)]"

definition newDefaultDNSConfig :: "golibs \<Rightarrow> default_env \<Rightarrow> goerr + dnsConfig" where
  "newDefaultDNSConfig G D =
     (case newDefaultServerConfig G D of
        Inl err \<Rightarrow> Inl (annotated G (Msg ''creating default dns configuration'') err)
      | Inr serverConf \<Rightarrow> Inr \<lparr>
          Cache = Some \<lparr>cc_Enabled = defaultCacheEnabled, cc_Size = defaultCacheSize, cc_ClientSize = defaultCacheClientSize\<rparr>,
          Server = Some serverConf,
          Bootstrap = Some \<lparr>bs_Servers = bootstrapServers, bs_Timeout = defaultUpstreamTimeout\<rparr>,
          Upstream = Some \<lparr>us_Groups = Some defaultGroups, us_Timeout = defaultUpstreamTimeout\<rparr>,
          Fallback = Some \<lparr>fbc_Servers = [Some \<lparr>url_Address = defaultFallbackAddress\<rparr>], fbc_Timeout = defaultUpstreamTimeout\<rparr>\<rparr>)"

definition newDefaultConfig :: "golibs \<Rightarrow> default_env \<Rightarrow> goerr + configuration" where
  "newDefaultConfig G D =
     (case newDefaultDNSConfig G D of
        Inl err \<Rightarrow> Inl (annotated G (Msg ''creating default configuration'') err)
      | Inr dnsConf \<Rightarrow> Inr \<lparr>
          DNS = Some dnsConf,
          Debug = Some \<lparr>Pprof = Some \<lparr>pp_Port = defaultPprofPort, pp_Enabled = defaultPprofEnabled\<rparr>\<rparr>,
          Log = Some \<lparr>lc_Output = defaultLogOutput, lc_Format = defaultLogFormat,
            lc_Timestamp = defaultLogTimestamp, lc_Verbose = defaultLogVerbose\<rparr>,
          SchemaVersion = VersionLatest\<rparr>)"

section \<open>Writing it\<close>

text \<open>\<open>os.OpenFile\<close> with \<open>O_CREATE\<close> and \<open>O_EXCL\<close>.\<close>

definition open_excl :: "default_env \<Rightarrow> path \<Rightarrow> fs \<Rightarrow> goerr + fs" where
  "open_excl D p s =
     (if files s p \<noteq> None \<or> p \<in> dirs s then Inl ErrExist
      else (case open_err D p of Some e \<Rightarrow> Inl e | None \<Rightarrow> Inr (s\<lparr>files := (files s)(p \<mapsto> []), perms := (perms s)(p \<mapsto> 0x180)\<rparr>)))"

text \<open>
  The body of \<open>writeDefaultConfig\<close> once the file is open: its error, and what the encoder has
  written.
\<close>

definition write_body :: "golibs \<Rightarrow> default_env \<Rightarrow> path \<Rightarrow> fs \<Rightarrow> goerr option \<times> fs" where
  "write_body G D p s =
     (case newDefaultConfig G D of
        Inl err \<Rightarrow> (Some err, s)
      | Inr conf \<Rightarrow> (case conf_encode D conf of (err, b) \<Rightarrow> (err, s\<lparr>files := (files s)(p \<mapsto> b)\<rparr>)))"

definition writeDefaultConfig :: "golibs \<Rightarrow> default_env \<Rightarrow> path \<Rightarrow> fs \<Rightarrow> goerr option \<times> fs" where
  "writeDefaultConfig G D p s =
     (let (err, s) =
         (case open_excl D p s of
            Inl err \<Rightarrow>
              if err_is ErrExist err then (None, s)
              else (Some (EWrap (Msg ''creating configuration file'') err), s)
          | Inr s \<Rightarrow> (case write_body G D p s of (err, s) \<Rightarrow> (with_deferred G err (file_close D), s)))
      in (annotate G (Msg ''writing default configuration'') err, s))"

section \<open>Handling the file\<close>

definition defaultConfigName :: path where "defaultConfigName = ''config.yaml''"

text \<open>\<open>filepath.Dir\<close> of a clean absolute path.\<close>

definition path_dir :: "path \<Rightarrow> path" where
  "path_dir p = (let d = take (nat (last_index slash p)) p in if d = [] then [slash] else d)"

definition absolutePaths ::
  "goerr + path \<Rightarrow> (path \<Rightarrow> goerr + path) \<Rightarrow> goerr + path \<times> path" where
  "absolutePaths Executable Abs =
     (case Executable of
        Inl err \<Rightarrow> Inl (EWrap (Msg ''getting executable path'') err)
      | Inr execPath \<Rightarrow>
          (case Abs execPath of
             Inl err \<Rightarrow> Inl (EWrap (MsgQ ''getting absolute path'' execPath) err)
           | Inr absExecPath \<Rightarrow> Inr (absExecPath, path_dir absExecPath)))"

definition parseConfig :: "golibs \<Rightarrow> mig_env \<Rightarrow> default_env \<Rightarrow> path \<Rightarrow> fs \<Rightarrow> goerr + configuration" where
  "parseConfig G M D p s =
     (let res = (case read_file M p s of
            Inl err \<Rightarrow> Inl err
          | Inr b \<Rightarrow>
              (case conf_decode D b of
                 Inl err \<Rightarrow> (case with_deferred G (Some err) (file_close D) of Some e \<Rightarrow> Inl e | None \<Rightarrow> Inl err)
               | Inr conf \<Rightarrow> (case with_deferred G None (file_close D) of Some e \<Rightarrow> Inl e | None \<Rightarrow> Inr conf)))
      in case res of
           Inl err \<Rightarrow> Inl (annotated G (Msg ''parsing configuration'') err)
         | Inr conf \<Rightarrow> Inr conf)"

text \<open>\<open>handleConfig\<close>; \<open>None\<close> is a panic of the migration.\<close>

definition handleConfig ::
  "golibs \<Rightarrow> conf_env \<Rightarrow> mig_env \<Rightarrow> default_env \<Rightarrow> path \<Rightarrow> fs \<Rightarrow> ((goerr + configuration) \<times> fs) option" where
  "handleConfig G E M D workDir s =
     (let migrator = \<lparr>workingDir = workDir, configName = defaultConfigName\<rparr> in
      case run G M migrator VersionLatest s of
        None \<Rightarrow> None
      | Some (Some err, s) \<Rightarrow> Some (Inl err, s)
      | Some (None, s) \<Rightarrow>
          (case parseConfig G M D (path_join workDir defaultConfigName) s of
             Inl err \<Rightarrow> Some (Inl err, s)
           | Inr conf \<Rightarrow>
               (case conf_Validate G E (Some conf) of
                  Some err \<Rightarrow> Some (Inl (EWrap (Msg ''configuration'') err), s)
                | None \<Rightarrow> Some (Inr conf, s))))"

definition handleInstall ::
  "golibs \<Rightarrow> default_env \<Rightarrow> (path \<Rightarrow> goerr option) \<Rightarrow> path \<Rightarrow> path \<Rightarrow> fs \<Rightarrow> goerr option \<times> fs" where
  "handleInstall G D ValidateExecPath execPath workDir s =
     (case ValidateExecPath execPath of
        Some err \<Rightarrow> (Some err, s)
      | None \<Rightarrow>
          (case writeDefaultConfig G D (path_join workDir defaultConfigName) s of
             (Some err, s) \<Rightarrow> (Some err, s)
           | (None, s) \<Rightarrow> (None, s)))"

text \<open>\<open>handleServiceConfig\<close>: the configuration, if any, and the error.\<close>

definition handleServiceConfig ::
  "golibs \<Rightarrow> conf_env \<Rightarrow> mig_env \<Rightarrow> default_env \<Rightarrow> (path \<Rightarrow> goerr option) \<Rightarrow> goerr + path \<Rightarrow> (path \<Rightarrow> goerr + path)
     \<Rightarrow> serviceAction \<Rightarrow> fs \<Rightarrow> (configuration option \<times> goerr option \<times> fs) option" where
  "handleServiceConfig G E M D ValidateExecPath Executable Abs action s =
     (case absolutePaths Executable Abs of
        Inl err \<Rightarrow> Some (None, Some err, s)
      | Inr (execPath, workDir) \<Rightarrow>
          if action = serviceActionNone then
            (case handleConfig G E M D workDir s of
               None \<Rightarrow> None
             | Some (Inl err, s) \<Rightarrow> Some (None, Some err, s)
             | Some (Inr conf, s) \<Rightarrow> Some (Some conf, None, s))
          else if action = serviceActionInstall then
            (case handleInstall G D ValidateExecPath execPath workDir s of (err, s) \<Rightarrow> Some (None, err, s))
          else Some (None, None, s))"

section \<open>The parameters\<close>

text \<open>
  \<open>errors.WithDeferred\<close> returns an error if either is one; the YAML library reads back what it
  has written, with the version as a number for the migrations.
\<close>

definition deferred_ok :: "golibs \<Rightarrow> bool" where
  "deferred_ok G = (\<forall>r d. with_deferred G r d = None \<longleftrightarrow> r = None \<and> d = None)"

definition conf_yaml_ok :: "mig_env \<Rightarrow> default_env \<Rightarrow> configuration \<Rightarrow> bool" where
  "conf_yaml_ok M D c = (\<forall>b. conf_encode D c = (None, b) \<longrightarrow> conf_decode D b = Inr c \<and>
     (\<exists>obj. unmarshal M b = Inr obj \<and> map_of obj SchemaVersionKey = Some (YInt (int (SchemaVersion c)))))"

lemma ref_deferred_ok: "deferred_ok ref_golibs"
  by (simp add: deferred_ok_def ref_golibs_def)

section \<open>The default configuration is valid\<close>

lemma filterInterfaceAddrs_valid:
  "0 < p \<Longrightarrow> c \<in> set (filterInterfaceAddrs D as contains p) \<Longrightarrow>
    valid_ipPort c \<and> (\<exists>a. c = Some \<lparr>ip_Address = (a, p)\<rparr> \<and> contains a)"
  by (induction D as contains p rule: filterInterfaceAddrs.induct)
    (auto simp: valid_ipPort_def Let_def split: sum.splits if_splits)

lemma newDefaultConfig_valid:
  assumes "newDefaultConfig G D = Inr c" "NewFormat E FormatDefault = Inr f"
  shows "valid_conf G E c \<and> groups_map c \<and> SchemaVersion c = VersionLatest"
proof -
  obtain as where as: "allListenableAddresses D = Inr as"
    using assms(1) by (auto simp: newDefaultConfig_def newDefaultDNSConfig_def newDefaultServerConfig_def split: sum.splits)
  have v: "\<forall>a \<in> set as. valid_ipPort a"
  proof
    fix a assume "a \<in> set as"
    with as obtain xs where "a \<in> set (filterInterfaceAddrs D xs isListenable defaultPlainDNSPort)"
      by (auto simp: allListenableAddresses_def split: sum.splits)
    moreover have "0 < defaultPlainDNSPort" by (simp add: defaultPlainDNSPort_def)
    ultimately show "valid_ipPort a" using filterInterfaceAddrs_valid by blast
  qed
  have b: "\<forall>a \<in> set bootstrapServers. valid_ipPort a" by (auto simp: bootstrapServers_def valid_ipPort_def)
  have g: "valid_groups G E defaultGroups" "distinct (map fst defaultGroups)"
    by (simp_all add: defaultGroups_def valid_groups_def valid_group_def valid_autodevice_def predefinedGroups_def
        custom_keys_def default_values)
  have s: "uint (128 * 0x100000 :: 64 word) = 0x8000000" "uint (4 * 0x100000 :: 64 word) = 0x400000" by simp_all
  show ?thesis
    using assms as v b g
    by (auto simp: newDefaultConfig_def newDefaultDNSConfig_def newDefaultServerConfig_def valid_conf_def valid_dns_def
        valid_cache_def valid_server_def valid_bootstrap_def valid_upstream_def valid_fallback_def valid_log_def
        groups_map_def default_values MaxInt_def s)
qed

section \<open>Properties\<close>

text \<open>
  C37: The default configuration passes the validation of the program, whatever addresses the
  interfaces have, and every address it listens on is private or a loopback one, on port 53.
\<close>

lemma default_config_valid:
  assumes "golibs_ok G" "NewFormat E FormatDefault = Inr f" "newDefaultConfig G D = Inr c"
  shows "conf_Validate G E (Some c) = None \<and>
    (\<forall>a \<in> set (ListenAddresses (the (Server (the (DNS c))))). \<exists>ip. a = Some \<lparr>ip_Address = (ip, 53)\<rparr> \<and> isListenable ip)"
proof
  show "conf_Validate G E (Some c) = None"
    using newDefaultConfig_valid [OF assms(3,2)] conf_Validate_valid [OF assms(1)] by blast
  show "\<forall>a \<in> set (ListenAddresses (the (Server (the (DNS c))))). \<exists>ip. a = Some \<lparr>ip_Address = (ip, 53)\<rparr> \<and> isListenable ip"
    using assms(3) filterInterfaceAddrs_valid
    by (auto simp: newDefaultConfig_def newDefaultDNSConfig_def newDefaultServerConfig_def allListenableAddresses_def
        defaultPlainDNSPort_def split: sum.splits)
qed

definition demo_default :: "goerr + string list \<Rightarrow> default_env" where
  "demo_default as = \<lparr>InterfaceAddrs = as,
     ParsePrefix = (\<lambda>a. if a = ''192.168.0.1/24'' then Inr (P4 0xC0A80001 24) else Inl (ErrOther a)),
     open_err = (\<lambda>_. None), conf_encode = (\<lambda>_. (None, ''conf'')),
     conf_decode = (\<lambda>_. newDefaultConfig ref_golibs \<lparr>InterfaceAddrs = as,
       ParsePrefix = (\<lambda>a. if a = ''192.168.0.1/24'' then Inr (P4 0xC0A80001 24) else Inl (ErrOther a)),
       open_err = (\<lambda>_. None), conf_encode = (\<lambda>_. (None, [])), conf_decode = (\<lambda>_. Inl ErrNoValue), file_close = None\<rparr>),
     file_close = None\<rparr>"

lemma demo_default_config: "\<exists>c. newDefaultConfig ref_golibs (demo_default (Inr as)) = Inr c"
  by (simp add: newDefaultConfig_def newDefaultDNSConfig_def newDefaultServerConfig_def allListenableAddresses_def
      demo_default_def)

lemma default_config_valid_witness:
  "\<exists>c. newDefaultConfig ref_golibs (demo_default (Inr [''192.168.0.1/24'', ''fe80::1''])) = Inr c \<and>
     conf_Validate ref_golibs ref_conf_env (Some c) = None"
proof -
  obtain c where c: "newDefaultConfig ref_golibs (demo_default (Inr [''192.168.0.1/24'', ''fe80::1''])) = Inr c"
    using demo_default_config by blast
  have "NewFormat ref_conf_env FormatDefault = Inr FormatDefault" by (simp add: ref_conf_env_def)
  from default_config_valid [OF ref_golibs_ok this c] c show ?thesis by blast
qed

text \<open>
  Installation and the first start agree: if the installation creates the file without an error,
  the next start reads back the default configuration, accepts it and leaves the file as it is.
\<close>

lemma install_then_start:
  assumes "golibs_ok G" "deferred_ok G" "NewFormat E FormatDefault = Inr f" "file_close D = None"
    "files s (path_join workDir defaultConfigName) = None" "path_join workDir defaultConfigName \<notin> dirs s"
    "open_err D (path_join workDir defaultConfigName) = None" "handleInstall G D ValidateExecPath execPath workDir s = (None, s')"
    "read_err M (path_join workDir defaultConfigName) = None" "\<forall>c. newDefaultConfig G D = Inr c \<longrightarrow> conf_yaml_ok M D c"
  shows "\<exists>c. newDefaultConfig G D = Inr c \<and> handleConfig G E M D workDir s' = Some (Inr c, s')"
proof -
  let ?p = "path_join workDir defaultConfigName"
  note ann = golibs_okD(1) [OF assms(1)]
  have "writeDefaultConfig G D ?p s = (None, s')"
    using assms(8) by (auto simp: handleInstall_def split: option.splits prod.splits)
  then obtain s1 e where o: "open_excl D ?p s = Inr s1" "write_body G D ?p s1 = (e, s')" "e = None"
    using assms(2,4-7) ann
    by (auto simp: writeDefaultConfig_def open_excl_def deferred_ok_def split: option.splits prod.splits if_splits)
  then obtain c b where c: "newDefaultConfig G D = Inr c" "conf_encode D c = (None, b)" "files s' ?p = Some b"
    by (auto simp: write_body_def split: sum.splits prod.splits)
  obtain obj where y: "conf_decode D b = Inr c" "unmarshal M b = Inr obj"
    "map_of obj SchemaVersionKey = Some (YInt (int (SchemaVersion c)))"
    using assms(10) c unfolding conf_yaml_ok_def by blast
  note v = newDefaultConfig_valid [OF c(1) assms(3)]
  have "getVersion G obj = Inr VersionLatest"
    using getVersion_Inr [OF assms(1)] y(3) v by (simp add: version_consts)
  then have "run G M \<lparr>workingDir = workDir, configName = defaultConfigName\<rparr> VersionLatest s' = Some (None, s')"
    using ann assms(9) c(3) y(2) by (simp add: run_def run_inner_def readYAML_def read_file_def Let_def)
  moreover have "parseConfig G M D ?p s' = Inr c"
  proof -
    have "with_deferred G None None = None" using assms(2) by (simp add: deferred_ok_def)
    then show ?thesis using assms(4,9) c(3) y(1) by (simp add: parseConfig_def read_file_def)
  qed
  moreover have "conf_Validate G E (Some c) = None" using v conf_Validate_valid [OF assms(1)] by blast
  ultimately show ?thesis using c(1) by (simp add: handleConfig_def Let_def)
qed

definition demo_start_env :: mig_env where
  "demo_start_env = \<lparr>read_err = (\<lambda>_. None), mkdir_err = (\<lambda>_. None),
     write_file = (\<lambda>p b perm s. (None, s\<lparr>files := (files s)(p \<mapsto> b), perms := (perms s)(p \<mapsto> perm)\<rparr>)), unmarshal = (\<lambda>_. Inr [(SchemaVersionKey, YInt 4)]),
     encode = (\<lambda>_. Inr []), close_err = None, bkp_time = []\<rparr>"

lemma demo_yaml_ok:
  "\<forall>c. newDefaultConfig ref_golibs (demo_default (Inr [])) = Inr c \<longrightarrow> conf_yaml_ok demo_start_env (demo_default (Inr [])) c"
proof (intro allI impI)
  fix c assume n: "newDefaultConfig ref_golibs (demo_default (Inr [])) = Inr c"
  then have v: "conf_decode (demo_default (Inr [])) b = Inr c" for b
    by (simp add: demo_default_def newDefaultConfig_def newDefaultDNSConfig_def newDefaultServerConfig_def
        allListenableAddresses_def)
  have "NewFormat ref_conf_env FormatDefault = Inr FormatDefault" by (simp add: ref_conf_env_def)
  from newDefaultConfig_valid [OF n this] have "SchemaVersion c = 4" by (simp add: version_consts)
  with v show "conf_yaml_ok demo_start_env (demo_default (Inr [])) c"
    by (simp add: conf_yaml_ok_def demo_start_env_def)
qed

lemma install_then_start_witness:
  "\<exists>c s'. handleInstall ref_golibs (demo_default (Inr [])) validateExecPath_others ''/opt/agdns'' ''/opt'' \<lparr>files = Map.empty, dirs = {}, perms = Map.empty\<rparr> = (None, s') \<and>
     handleConfig ref_golibs ref_conf_env demo_start_env (demo_default (Inr [])) ''/opt'' s' = Some (Inr c, s')"
proof -
  let ?D = "demo_default (Inr [])" and ?s = "\<lparr>files = Map.empty, dirs = {}, perms = Map.empty\<rparr>"
  obtain c where c: "newDefaultConfig ref_golibs ?D = Inr c" using demo_default_config by blast
  have d: "file_close ?D = None" "open_err ?D = (\<lambda>_. None)" "conf_encode ?D = (\<lambda>_. (None, ''conf''))"
    by (simp_all add: demo_default_def)
  have g: "with_deferred ref_golibs None None = None" "annotate ref_golibs x None = None" for x
    by (simp_all add: ref_golibs_def)
  obtain s' where i: "handleInstall ref_golibs ?D validateExecPath_others ''/opt/agdns'' ''/opt'' ?s = (None, s')"
    by (simp add: handleInstall_def validateExecPath_others_def writeDefaultConfig_def open_excl_def write_body_def c d g)
  have f: "NewFormat ref_conf_env FormatDefault = Inr FormatDefault" by (simp add: ref_conf_env_def)
  have "\<exists>c. newDefaultConfig ref_golibs ?D = Inr c \<and> handleConfig ref_golibs ref_conf_env demo_start_env ?D ''/opt'' s' = Some (Inr c, s')"
    by (rule install_then_start [OF ref_golibs_ok ref_deferred_ok f d(1) _ _ _ i _ demo_yaml_ok])
      (simp_all add: demo_start_env_def d(2))
  with i show ?thesis by blast
qed

text \<open>
  C38: An installation that fails after it has created the configuration file leaves the file behind, with
  what the encoder has written, which is nothing if the default configuration cannot be built, as when
  the interfaces cannot be listed.  Every later installation then reports a success and leaves the file
  as it is, whatever has changed meanwhile.
\<close>

lemma failed_install_sticks:
  assumes "golibs_ok G" "deferred_ok G" "files s p = None" "p \<notin> dirs s" "open_err D p = None"
    "writeDefaultConfig G D p s = (err, s')"
  shows "files s' p = Some (case newDefaultConfig G D of Inl x \<Rightarrow> [] | Inr c \<Rightarrow> snd (conf_encode D c)) \<and>
    ((\<exists>e. InterfaceAddrs D = Inl e) \<longrightarrow> err \<noteq> None \<and> files s' p = Some []) \<and>
    (\<forall>D'. writeDefaultConfig G D' p s' = (None, s'))"
proof -
  note ann = golibs_okD(1) [OF assms(1)]
  let ?s1 = "s\<lparr>files := (files s)(p \<mapsto> []), perms := (perms s)(p \<mapsto> 0x180)\<rparr>"
  have s': "err = annotate G (Msg ''writing default configuration'') (with_deferred G (fst (write_body G D p ?s1)) (file_close D))"
    "s' = snd (write_body G D p ?s1)"
    using assms(3-6) by (auto simp: writeDefaultConfig_def open_excl_def split: prod.splits)
  have cont: "files s' p = Some (case newDefaultConfig G D of Inl x \<Rightarrow> [] | Inr c \<Rightarrow> snd (conf_encode D c))"
    unfolding s'(2) by (auto simp: write_body_def split: sum.splits prod.splits)
  have "err \<noteq> None" if "newDefaultConfig G D = Inl x" for x
  proof -
    have "with_deferred G (Some x) (file_close D) \<noteq> None" using assms(2) by (simp add: deferred_ok_def)
    with s'(1) that annotate_None [OF ann] show ?thesis by (simp add: write_body_def)
  qed
  moreover have "\<exists>x. newDefaultConfig G D = Inl x" if "InterfaceAddrs D = Inl e" for e
    using that by (auto simp: newDefaultConfig_def newDefaultDNSConfig_def newDefaultServerConfig_def allListenableAddresses_def)
  moreover have "annotate G c None = None" for c using ann by simp
  ultimately show ?thesis using cont by (auto simp: writeDefaultConfig_def open_excl_def)
qed

lemma failed_install_sticks_witness:
  "\<exists>err s'. writeDefaultConfig ref_golibs (demo_default (Inl ErrNoValue)) ''/opt/config.yaml'' \<lparr>files = Map.empty, dirs = {}, perms = Map.empty\<rparr> = (err, s') \<and>
     err \<noteq> None \<and> files s' ''/opt/config.yaml'' = Some [] \<and>
     writeDefaultConfig ref_golibs (demo_default (Inr [])) ''/opt/config.yaml'' s' = (None, s')"
proof -
  let ?D = "demo_default (Inl ErrNoValue)" and ?s = "\<lparr>files = Map.empty, dirs = {}, perms = Map.empty\<rparr>"
  obtain err s' where w: "writeDefaultConfig ref_golibs ?D ''/opt/config.yaml'' ?s = (err, s')" by (metis surj_pair)
  have d: "open_err ?D ''/opt/config.yaml'' = None" "InterfaceAddrs ?D = Inl ErrNoValue" by (simp_all add: demo_default_def)
  have f: "files ?s ''/opt/config.yaml'' = None" "''/opt/config.yaml'' \<notin> dirs ?s" by simp_all
  note r = failed_install_sticks [OF ref_golibs_ok ref_deferred_ok f d(1) w, THEN conjunct2]
  from r have "err \<noteq> None \<and> files s' ''/opt/config.yaml'' = Some []" using d(2) by blast
  then show ?thesis using w r by blast
qed

end
