(* ===== verification/MainProg.thy ===== *)
theory MainProg
  imports LogConf CmdDefault
begin

text \<open>
  \<open>internal/cmd\<close>: the options of the command line (\<open>options.go\<close>, over a model of the package \<open>flag\<close>) and
  \<open>Main\<close> (\<open>cmd.go\<close>), which composes the options, the logs, the configuration file and the system service.
  The system service is a parameter; what is printed is left out, but for what \<open>reportPrevErrs\<close> logs.
\<close>

section \<open>Options\<close>

definition serviceName :: string where "serviceName = ''AdGuardDNSCLI''"

record service_conf =
  sv_Name :: string
  sv_DisplayName :: string
  sv_Description :: string

definition newServiceConfig :: service_conf where
  "newServiceConfig = \<lparr>sv_Name = serviceName, sv_DisplayName = ''AdGuard DNS CLI'',
     sv_Description = ''A DNS client for AdGuard DNS''\<rparr>"

definition action_String :: "serviceAction \<Rightarrow> string" where "action_String a = a"

text \<open>
  The flags: a boolean one is set to the parsed value, which is false if it does not parse; the one for
  the action uses its \<open>Set\<close>.
\<close>

definition set_bool :: "string \<Rightarrow> bool \<Rightarrow> options \<Rightarrow> options" where
  "set_bool name b opts =
     (if name = ''v'' then opts\<lparr>o_verbose := b\<rparr> else if name = ''version'' then opts\<lparr>o_version := b\<rparr>
      else opts\<lparr>o_help := b\<rparr>)"

definition bool_Set :: "string \<Rightarrow> string \<Rightarrow> options \<Rightarrow> goerr option \<times> options" where
  "bool_Set name value opts =
     (case ParseBool value of
        Inl err \<Rightarrow> (Some (ErrOther ''invalid boolean value''), set_bool name False opts)
      | Inr b \<Rightarrow> (None, set_bool name b opts))"

definition service_Set :: "string \<Rightarrow> options \<Rightarrow> goerr option \<times> options" where
  "service_Set value opts =
     (case action_Set value (o_serviceAction opts) of
        (Some err, a) \<Rightarrow> (Some (ErrOther ''invalid value for flag''), opts\<lparr>o_serviceAction := a\<rparr>)
      | (None, a) \<Rightarrow> (None, opts\<lparr>o_serviceAction := a\<rparr>))"

definition minus :: char where "minus = CHR ''-''"

text \<open>The name of a flag and its value, if it has one.\<close>

definition flag_name :: "string \<Rightarrow> string \<times> string option" where
  "flag_name name = (case cut (CHR ''='') name of (name, value, ok) \<Rightarrow> (name, if ok then Some value else None))"

text \<open>\<open>FlagSet.Parse\<close>: the error, the arguments that are left, and the options.\<close>

fun flag_parse :: "string list \<Rightarrow> options \<Rightarrow> goerr option \<times> string list \<times> options" where
  "flag_parse [] opts = (None, [], opts)"
| "flag_parse (s # args) opts =
     (if length s < 2 \<or> hd s \<noteq> minus then (None, s # args, opts)
      else if s = [minus, minus] then (None, args, opts)
      else
        let name = (if s ! 1 = minus then drop 2 s else drop 1 s) in
        if name = [] \<or> hd name = minus \<or> hd name = CHR ''='' then (Some (ErrOther ''bad flag syntax''), s # args, opts)
        else
          let (name, value) = flag_name name in
          if name \<in> {''v'', ''version'', ''h''} then
            (case bool_Set name (case value of Some v \<Rightarrow> v | None \<Rightarrow> ''true'') opts of
               (Some err, opts) \<Rightarrow> (Some err, args, opts)
             | (None, opts) \<Rightarrow> flag_parse args opts)
          else if name = ''s'' then
            (case value of
               Some v \<Rightarrow>
                 (case service_Set v opts of
                    (Some err, opts) \<Rightarrow> (Some err, args, opts)
                  | (None, opts) \<Rightarrow> flag_parse args opts)
             | None \<Rightarrow>
                 (case args of
                    [] \<Rightarrow> (Some (ErrOther ''flag needs an argument''), [], opts)
                  | v # args \<Rightarrow>
                      (case service_Set v opts of
                         (Some err, opts) \<Rightarrow> (Some err, args, opts)
                       | (None, opts) \<Rightarrow> flag_parse args opts)))
          else if name = ''help'' then (Some (ErrOther ''flag: help requested''), args, opts)
          else (Some (ErrOther ''flag provided but not defined''), args, opts))"

definition no_options :: options where
  "no_options = \<lparr>o_serviceAction = serviceActionNone, o_verbose = False, o_version = False, o_help = False\<rparr>"

text \<open>\<open>parseOptions\<close>, with the arguments after the program's name.\<close>

definition parseOptions :: "string list \<Rightarrow> options \<times> goerr option" where
  "parseOptions args =
     (case flag_parse args no_options of (err, rest, opts) \<Rightarrow>
        let errs = [err];
            errs = (if 0 < length rest then errs @ [Some (ErrOther ''unexpected arguments'')] else errs)
        in (opts, errors_join errs))"

section \<open>Main\<close>

definition reportPrevErrs :: "goerr list \<Rightarrow> goerr option \<Rightarrow> goerr list \<Rightarrow> (string \<times> goerr) list" where
  "reportPrevErrs envsErrs loggerErr confLoggerErrs =
     (case errors_join (map Some envsErrs) of Some err \<Rightarrow> [(''parsing environment'', err)] | None \<Rightarrow> []) @
     (case loggerErr of Some err \<Rightarrow> [(''creating env logger'', err)] | None \<Rightarrow> []) @
     (case errors_join (map Some confLoggerErrs) of Some err \<Rightarrow> [(''creating conf logger'', err)] | None \<Rightarrow> [])"

text \<open>
  The parameters: the environment, the executable, the result of \<open>osservice.New\<close>, and that of \<open>Run\<close>,
  which starts and stops the program with its configuration (\<open>None\<close> if it never returns).
\<close>

record main_env =
  mn_Getenv :: "string \<Rightarrow> string"
  mn_X :: log_env
  mn_G :: golibs
  mn_E :: conf_env
  mn_M :: mig_env
  mn_D :: default_env
  mn_ValidateExecPath :: "path \<Rightarrow> goerr option"
  mn_Executable :: "goerr + path"
  mn_Abs :: "path \<Rightarrow> goerr + path"
  mn_New :: "goerr + os_service"
  mn_Run :: "configuration option \<Rightarrow> goerr option option"

datatype exit_status = ExitSuccess | ExitFailure | ExitArgumentError

text \<open>The exit status, what was reported, the state of the logs and the file system.\<close>

type_synonym main_result = "exit_status \<times> (string \<times> goerr) list \<times> log_world \<times> fs"

text \<open>\<open>check\<close>: exit if there is an error, and go on otherwise.\<close>

definition check ::
  "log_env \<Rightarrow> logger \<Rightarrow> os_file option \<Rightarrow> goerr option \<Rightarrow> (string \<times> goerr) list \<Rightarrow> log_world \<Rightarrow> fs
     \<Rightarrow> main_result option \<Rightarrow> main_result option" where
  "check X l logFile err rep w s k =
     (case err of
        None \<Rightarrow> k
      | Some err \<Rightarrow> (case closeLogs X l logFile w of (_, w) \<Rightarrow> Some (ExitFailure, rep @ [(''fatal error'', err)], w, s)))"

text \<open>\<open>Main\<close>; a panic, and a program that never ends, is \<open>None\<close>.\<close>

definition Main :: "main_env \<Rightarrow> string list \<Rightarrow> log_world \<Rightarrow> fs \<Rightarrow> main_result option" where
  "Main N args w s =
     (let X = mn_X N in
      case parseOptions args of
        (opts, Some err) \<Rightarrow> Some (ExitArgumentError, [], w, s)
      | (opts, None) \<Rightarrow>
          if snd (handleInfoOpts [] [] opts) then Some (ExitSuccess, [], w, s)
          else
            (case parseLogEnvs (mn_E N) (mn_Getenv N) of (envs, envsErrs) \<Rightarrow>
             (case newEnvLogger X opts envs w of (l, logFile, envLoggerErr, w) \<Rightarrow>
              (case handleServiceConfig (mn_G N) (mn_E N) (mn_M N) (mn_D N) (mn_ValidateExecPath N) (mn_Executable N)
                   (mn_Abs N) (o_serviceAction opts) s of
                 None \<Rightarrow> None
               | Some (conf, err, s) \<Rightarrow>
                   (case newConfigLogger X l logFile opts envs conf w of
                      None \<Rightarrow> None
                    | Some (l, logFile, confLoggerErrs, w) \<Rightarrow>
                        let rep = reportPrevErrs envsErrs envLoggerErr confLoggerErrs in
                        check X l logFile err rep w s
                          (case mn_New N of
                             Inl err \<Rightarrow> check X l logFile (Some err) rep w s None
                           | Inr svc \<Rightarrow>
                               if o_serviceAction opts \<noteq> [] then
                                 (case control svc (o_serviceAction opts) of
                                    None \<Rightarrow> None
                                  | Some (out, code) \<Rightarrow>
                                      (case closeLogs X l logFile w of (_, w) \<Rightarrow>
                                         Some (if code = ExitCodeSuccess then ExitSuccess else ExitFailure, rep, w, s)))
                               else
                                 (case mn_Run N conf of
                                    None \<Rightarrow> None
                                  | Some err \<Rightarrow>
                                      check X l logFile err rep w s
                                        (case closeLogs X l logFile w of (_, w) \<Rightarrow> Some (ExitSuccess, rep, w, s)))))))))"

section \<open>The command line\<close>

text \<open>The options of a command line that is well formed: flags in any order, also repeated.\<close>

datatype flag = FlagVerbose | FlagVersion | FlagHelp | FlagService serviceAction

fun print_flag :: "flag \<Rightarrow> string list" where
  "print_flag FlagVerbose = [''-v'']"
| "print_flag FlagVersion = [''-version'']"
| "print_flag FlagHelp = [''-h'']"
| "print_flag (FlagService a) = [''-s'', a]"

fun apply_flag :: "flag \<Rightarrow> options \<Rightarrow> options" where
  "apply_flag FlagVerbose opts = opts\<lparr>o_verbose := True\<rparr>"
| "apply_flag FlagVersion opts = opts\<lparr>o_version := True\<rparr>"
| "apply_flag FlagHelp opts = opts\<lparr>o_help := True\<rparr>"
| "apply_flag (FlagService a) opts = opts\<lparr>o_serviceAction := a\<rparr>"

definition service_actions :: "serviceAction list" where
  "service_actions = [serviceActionInstall, serviceActionRestart, serviceActionStart, serviceActionStatus,
     serviceActionStop, serviceActionUninstall]"

lemma set_flags:
  "bool_Set ''v'' ''true'' opts = (None, opts\<lparr>o_verbose := True\<rparr>)"
  "bool_Set ''version'' ''true'' opts = (None, opts\<lparr>o_version := True\<rparr>)"
  "bool_Set ''h'' ''true'' opts = (None, opts\<lparr>o_help := True\<rparr>)"
  "a \<in> set service_actions \<Longrightarrow> service_Set a opts = (None, opts\<lparr>o_serviceAction := a\<rparr>)"
  by (auto simp: bool_Set_def ParseBool_def set_bool_def service_Set_def action_Set_def service_actions_def)

lemma flag_parse_print:
  assumes "\<forall>a. FlagService a \<in> set fs \<longrightarrow> a \<in> set service_actions"
  shows "flag_parse (concat (map print_flag fs)) opts = (None, [], fold apply_flag fs opts)"
  using assms
proof (induction fs arbitrary: opts)
  case (Cons f fs)
  then show ?case by (cases f) (simp_all add: flag_name_def cut_notin minus_def set_flags)
qed simp

section \<open>The logs at the end\<close>

lemma Main_logs:
  assumes "Main N args w s = Some (st, rep, w', s')"
  shows "w' = w \<or> (\<exists>opts envs l0 f0 err0 w1 conf l f errs w2 cerrs.
    envs = fst (parseLogEnvs (mn_E N) (mn_Getenv N)) \<and> newEnvLogger (mn_X N) opts envs w = (l0, f0, err0, w1) \<and>
    newConfigLogger (mn_X N) l0 f0 opts envs conf w1 = Some (l, f, errs, w2) \<and> closeLogs (mn_X N) l f w2 = (cerrs, w'))"
proof -
  obtain opts perr where o: "parseOptions args = (opts, perr)" by (metis surj_pair)
  obtain envs eerrs where e: "parseLogEnvs (mn_E N) (mn_Getenv N) = (envs, eerrs)" by (metis surj_pair)
  obtain l0 f0 err0 w1 where l0: "newEnvLogger (mn_X N) opts envs w = (l0, f0, err0, w1)" by (metis surj_pair)
  show ?thesis
  proof (cases "perr = None \<and> \<not> snd (handleInfoOpts [] [] opts)")
    case False
    then have "w' = w" using assms o by (cases perr) (simp_all add: Main_def)
    then show ?thesis ..
  next
    case True
    then obtain conf err s1 l f errs w2 where
      h: "handleServiceConfig (mn_G N) (mn_E N) (mn_M N) (mn_D N) (mn_ValidateExecPath N) (mn_Executable N)
        (mn_Abs N) (o_serviceAction opts) s = Some (conf, err, s1)"
      and l: "newConfigLogger (mn_X N) l0 f0 opts envs conf w1 = Some (l, f, errs, w2)"
      using assms o e l0 by (auto simp: Main_def Let_def split: option.splits)
    obtain cerrs w3 where c: "closeLogs (mn_X N) l f w2 = (cerrs, w3)" by (metis surj_pair)
    have "w' = w3"
      using assms True o e l0 h l c
      by (auto simp: Main_def Let_def check_def split: option.splits sum.splits if_splits prod.splits)
    with e l0 l c show ?thesis by (metis fst_conv)
  qed
qed

section \<open>Installation and start\<close>

lemma newConfigLogger_total:
  assumes "\<forall>c. conf = Some c \<longrightarrow> Log c \<noteq> None"
  shows "\<exists>l f errs w'. newConfigLogger X l0 f0 opts envs conf w = Some (l, f, errs, w')"
  using assms by (auto simp: newConfigLogger_def Let_def split: option.splits prod.splits bool.splits)

lemma parse_install:
  "parseOptions [] = (no_options, None)"
  "parseOptions [''-s'', ''install''] = (no_options\<lparr>o_serviceAction := serviceActionInstall\<rparr>, None)"
  by (simp_all add: parseOptions_def flag_name_def cut_notin minus_def service_Set_def action_Set_def action_defs)

lemma Main_install_success:
  assumes "Main N [''-s'', ''install''] w s = Some (ExitSuccess, rep, w1, s1)"
    "mn_Executable N = Inr ex" "mn_Abs N ex = Inr execPath"
  shows "handleInstall (mn_G N) (mn_D N) (mn_ValidateExecPath N) execPath (path_dir execPath) s = (None, s1)"
proof -
  let ?opts = "no_options\<lparr>o_serviceAction := serviceActionInstall\<rparr>"
  obtain envs eerrs where e: "parseLogEnvs (mn_E N) (mn_Getenv N) = (envs, eerrs)" by (metis surj_pair)
  obtain l0 f0 err0 w0 where l0: "newEnvLogger (mn_X N) ?opts envs w = (l0, f0, err0, w0)" by (metis surj_pair)
  obtain err s2 where i: "handleInstall (mn_G N) (mn_D N) (mn_ValidateExecPath N) execPath (path_dir execPath) s = (err, s2)"
    by (metis surj_pair)
  have h: "handleServiceConfig (mn_G N) (mn_E N) (mn_M N) (mn_D N) (mn_ValidateExecPath N) (mn_Executable N)
      (mn_Abs N) serviceActionInstall s = Some (None, err, s2)"
    using assms(2,3) i by (simp add: handleServiceConfig_def absolutePaths_def action_defs)
  have "err = None \<and> s2 = s1"
    using assms(1) e l0 h parse_install(2)
    by (auto simp: Main_def Let_def handleInfoOpts_def no_options_def newConfigLogger_def check_def
        split: option.splits sum.splits prod.splits if_splits)
  with i show ?thesis by simp
qed

lemma Main_start:
  assumes "mn_Executable N = Inr ex" "mn_Abs N ex = Inr execPath" "mn_New N = Inr svc"
    "handleConfig (mn_G N) (mn_E N) (mn_M N) (mn_D N) (path_dir execPath) s = Some (Inr c, s1)" "Log c \<noteq> None"
    "mn_Run N (Some c) = Some r"
  shows "\<exists>rep w'. Main N [] w s = Some (if r = None then ExitSuccess else ExitFailure, rep, w', s1)"
proof -
  obtain envs eerrs where e: "parseLogEnvs (mn_E N) (mn_Getenv N) = (envs, eerrs)" by (metis surj_pair)
  obtain l0 f0 err0 w0 where l0: "newEnvLogger (mn_X N) no_options envs w = (l0, f0, err0, w0)" by (metis surj_pair)
  have h: "handleServiceConfig (mn_G N) (mn_E N) (mn_M N) (mn_D N) (mn_ValidateExecPath N) (mn_Executable N)
      (mn_Abs N) (o_serviceAction no_options) s = Some (Some c, None, s1)"
    using assms(1,2,4) by (simp add: handleServiceConfig_def absolutePaths_def no_options_def)
  obtain l f errs w2 where l: "newConfigLogger (mn_X N) l0 f0 no_options envs (Some c) w0 = Some (l, f, errs, w2)"
    using newConfigLogger_total [of "Some c"] assms(5) by blast
  obtain cerrs w3 where c: "closeLogs (mn_X N) l f w2 = (cerrs, w3)" by (metis surj_pair)
  have i: "\<not> snd (handleInfoOpts [] [] no_options)" "o_serviceAction no_options = []"
    by (simp_all add: handleInfoOpts_def no_options_def serviceActionNone_def)
  show ?thesis
    using e l0 h l c assms(3,6) i by (cases r) (simp_all add: Main_def parse_install Let_def check_def)
qed

section \<open>Properties\<close>

text \<open>
  C39: The command line is read back as it was written: flags in any order and number, with actions of
  the list, parse without an error, and the last action is the one that is taken.
\<close>

lemma parseOptions_printed:
  assumes "\<forall>a. FlagService a \<in> set fs \<longrightarrow> a \<in> set service_actions"
  shows "parseOptions (concat (map print_flag fs)) = (fold apply_flag fs no_options, None)"
  by (simp add: parseOptions_def flag_parse_print [OF assms])

lemma parseOptions_printed_witness:
  "parseOptions [''-s'', ''stop'', ''-v'', ''-s'', ''start''] =
     (\<lparr>o_serviceAction = ''start'', o_verbose = True, o_version = False, o_help = False\<rparr>, None)"
  using parseOptions_printed [of "[FlagService ''stop'', FlagVerbose, FlagService ''start'']"]
  by (simp add: service_actions_def action_defs no_options_def)

text \<open>
  C32: Whenever the program ends, on an error or not, no log file and no connection to the system log
  stays open, but for one: with \<open>LOG_OUTPUT=syslog\<close> in the environment the first connection, which the
  program has opened before it reads the configuration, may.
\<close>

lemma Main_releases_logs:
  assumes "Main N args w s = Some (st, rep, w', s')" "w_files w = {}" "w_syslogs w = {}"
  shows "w_files w' = {} \<and> w_syslogs w' \<subseteq> (if mn_Getenv N envLogOutput = outputSyslog then {w_next w} else {})"
  using Main_logs [OF assms(1)]
proof (elim disjE exE conjE)
  assume "w' = w"
  with assms show ?thesis by simp
next
  fix opts envs l0 f0 err0 w1 conf l f errs w2 cerrs
  assume e: "envs = fst (parseLogEnvs (mn_E N) (mn_Getenv N))" and r: "newEnvLogger (mn_X N) opts envs w = (l0, f0, err0, w1)"
    "newConfigLogger (mn_X N) l0 f0 opts envs conf w1 = Some (l, f, errs, w2)" "closeLogs (mn_X N) l f w2 = (cerrs, w')"
  have "le_output envs = outputSyslog \<Longrightarrow> mn_Getenv N envLogOutput = outputSyslog"
    unfolding e parseLogEnvs_output Let_def by (auto simp: output_defs split: if_splits)
  with closeLogs_released [OF assms(2,3) r] newEnvLogger_spec(4) [OF r(1)] show ?thesis by (auto split: if_splits)
qed

definition demo_main :: main_env where
  "demo_main = \<lparr>mn_Getenv = (\<lambda>_. []), mn_X = demo_log, mn_G = ref_golibs, mn_E = ref_conf_env, mn_M = demo_start_env,
     mn_D = demo_default (Inr []), mn_ValidateExecPath = validateExecPath_others, mn_Executable = Inr ''agdns'',
     mn_Abs = (\<lambda>p. Inr (''/opt/'' @ p)),
     mn_New = Inr \<lparr>os_Install = None, os_Restart = None, os_Start = None, os_Stop = None, os_Uninstall = None,
       os_Status = (StatusRunning, None)\<rparr>,
     mn_Run = (\<lambda>conf. case conf of Some c \<Rightarrow> Some None | None \<Rightarrow> None)\<rparr>"

definition no_files :: fs where "no_files = \<lparr>files = Map.empty, dirs = {}, perms = Map.empty\<rparr>"

lemma demo_main_install:
  "\<exists>rep w1 s1. Main demo_main [''-s'', ''install''] demo_world no_files = Some (ExitSuccess, rep, w1, s1)"
proof -
  obtain c where c: "newDefaultConfig ref_golibs (demo_default (Inr [])) = Inr c" using demo_default_config by blast
  have d: "file_close (demo_default (Inr [])) = None" "open_err (demo_default (Inr [])) = (\<lambda>_. None)"
    "conf_encode (demo_default (Inr [])) = (\<lambda>_. (None, ''conf''))" by (simp_all add: demo_default_def)
  have g: "with_deferred ref_golibs None None = None" "annotate ref_golibs x None = None" for x
    by (simp_all add: ref_golibs_def)
  obtain s1 where i: "handleInstall ref_golibs (demo_default (Inr [])) validateExecPath_others ''/opt/agdns'' (path_dir ''/opt/agdns'') no_files =
      (None, s1)"
    by (simp add: handleInstall_def validateExecPath_others_def writeDefaultConfig_def open_excl_def write_body_def c d g no_files_def)
  obtain envs eerrs where e: "parseLogEnvs ref_conf_env (\<lambda>_. []) = (envs, eerrs)" by (metis surj_pair)
  obtain l0 f0 err0 w0 where
    l0: "newEnvLogger demo_log (no_options\<lparr>o_serviceAction := serviceActionInstall\<rparr>) envs demo_world = (l0, f0, err0, w0)"
    by (metis surj_pair)
  obtain cerrs w1 where w1: "closeLogs demo_log l0 f0 w0 = (cerrs, w1)" by (metis surj_pair)
  show ?thesis
    using e l0 w1 i
    by (simp add: Main_def parse_install demo_main_def Let_def handleInfoOpts_def no_options_def handleServiceConfig_def
        absolutePaths_def action_defs newConfigLogger_def check_def control_def)
qed

lemma Main_releases_logs_witness:
  "\<exists>st rep w' s'. Main demo_main [''-s'', ''install''] demo_world no_files = Some (st, rep, w', s') \<and> w_files w' = {} \<and> w_syslogs w' = {}"
proof -
  obtain rep w1 s1 where m: "Main demo_main [''-s'', ''install''] demo_world no_files = Some (ExitSuccess, rep, w1, s1)"
    using demo_main_install by blast
  have "w_files demo_world = {}" "w_syslogs demo_world = {}" by (simp_all add: demo_world_def)
  from Main_releases_logs [OF m this] m show ?thesis by (auto simp: demo_main_def output_defs)
qed

text \<open>
  C19: From the installation to the first run, on the level of the command line: if \<open>-s install\<close> exits with
  a success where there was no configuration file, the next start without options runs the program with
  the default configuration, leaves the file as it is, and exits with the status of the run.
\<close>

lemma Main_install_then_start:
  assumes "golibs_ok (mn_G N)" "deferred_ok (mn_G N)" "NewFormat (mn_E N) FormatDefault = Inr f" "file_close (mn_D N) = None"
    "mn_Executable N = Inr ex" "mn_Abs N ex = Inr execPath" "p = path_join (path_dir execPath) defaultConfigName"
    "files s p = None" "p \<notin> dirs s" "open_err (mn_D N) p = None" "read_err (mn_M N) p = None"
    "\<forall>c. newDefaultConfig (mn_G N) (mn_D N) = Inr c \<longrightarrow> conf_yaml_ok (mn_M N) (mn_D N) c"
    "Main N [''-s'', ''install''] w s = Some (ExitSuccess, rep, w1, s1)" "mn_New N = Inr svc"
  shows "\<exists>c. newDefaultConfig (mn_G N) (mn_D N) = Inr c \<and>
    (\<forall>r. mn_Run N (Some c) = Some r \<longrightarrow>
      (\<exists>rep' w'. Main N [] w1 s1 = Some (if r = None then ExitSuccess else ExitFailure, rep', w', s1)))"
proof -
  have i: "handleInstall (mn_G N) (mn_D N) (mn_ValidateExecPath N) execPath (path_dir execPath) s = (None, s1)"
    by (rule Main_install_success [OF assms(13,5,6)])
  obtain c where c: "newDefaultConfig (mn_G N) (mn_D N) = Inr c"
    "handleConfig (mn_G N) (mn_E N) (mn_M N) (mn_D N) (path_dir execPath) s1 = Some (Inr c, s1)"
    using install_then_start [OF assms(1-4) assms(8-10) [unfolded assms(7)] i assms(11) [unfolded assms(7)] assms(12)] by blast
  have "Log c \<noteq> None" using newDefaultConfig_valid [OF c(1) assms(3)] by (auto simp: valid_conf_def)
  with c Main_start [OF assms(5,6,14) c(2)] show ?thesis by blast
qed

lemma Main_install_then_start_witness:
  "\<exists>rep w1 s1 rep' w'. Main demo_main [''-s'', ''install''] demo_world no_files = Some (ExitSuccess, rep, w1, s1) \<and>
     Main demo_main [] w1 s1 = Some (ExitSuccess, rep', w', s1)"
proof -
  obtain rep w1 s1 where m: "Main demo_main [''-s'', ''install''] demo_world no_files = Some (ExitSuccess, rep, w1, s1)"
    using demo_main_install by blast
  have sel: "mn_G demo_main = ref_golibs" "mn_D demo_main = demo_default (Inr [])" "mn_M demo_main = demo_start_env"
    "mn_Executable demo_main = Inr ''agdns''" "mn_Abs demo_main ''agdns'' = Inr ''/opt/agdns''" "mn_E demo_main = ref_conf_env"
    "mn_Run demo_main (Some c) = Some None" for c by (simp_all add: demo_main_def)
  have r: "golibs_ok (mn_G demo_main)" "deferred_ok (mn_G demo_main)" "NewFormat (mn_E demo_main) FormatDefault = Inr FormatDefault"
    "file_close (mn_D demo_main) = None" "open_err (mn_D demo_main) q = None" "read_err (mn_M demo_main) q = None"
    "files no_files q = None" "q \<notin> dirs no_files" for q
    by (simp_all add: sel ref_golibs_ok ref_deferred_ok ref_conf_env_def demo_default_def demo_start_env_def no_files_def)
  obtain svc where svc: "mn_New demo_main = Inr svc" by (simp add: demo_main_def)
  have y: "\<forall>c. newDefaultConfig (mn_G demo_main) (mn_D demo_main) = Inr c \<longrightarrow> conf_yaml_ok (mn_M demo_main) (mn_D demo_main) c"
    unfolding sel by (rule demo_yaml_ok)
  from Main_install_then_start [OF r(1-4) sel(4,5) refl r(7,8,5,6) y m svc] m sel(7) show ?thesis by auto
qed

end
