(* ===== verification/Syslog.thy ===== *)
theory Syslog
  imports Slog Golibs
begin

text \<open>
  \<open>internal/agdcslog\<close>, the system loggers: the connection to syslog on Linux (\<open>syslog_linux.go\<close>), the
  event log on Windows (\<open>syslog_windows.go\<close>) and the four \<open>logger\<close> processes on macOS
  (\<open>syslog_darwin.go\<close>).  Each one is shown to be a \<open>system_log\<close> of \<^theory_text>\<open>Slog\<close>.  The connection, the event log and
  the processes are states with their errors as parameters.
\<close>

section \<open>Linux\<close>

text \<open>A writer of \<open>log/syslog\<close>: what it has sent, and its errors.\<close>

record syslog_writer =
  sw_sent :: "severity \<Rightarrow> string list"
  sw_err :: "severity \<Rightarrow> string \<Rightarrow> goerr option"
  sw_close_err :: "goerr option"

definition sw_write :: "severity \<Rightarrow> string \<Rightarrow> syslog_writer \<Rightarrow> goerr option \<times> syslog_writer" where
  "sw_write sev msg w =
     (case sw_err w sev msg of
        Some err \<Rightarrow> (Some err, w)
      | None \<Rightarrow> (None, w\<lparr>sw_sent := (sw_sent w)(sev := sw_sent w sev @ [msg])\<rparr>))"

record linux_logger =
  ll_writer :: syslog_writer

definition linux_newSystemLogger :: "goerr + syslog_writer \<Rightarrow> goerr + linux_logger" where
  "linux_newSystemLogger w = (case w of Inl err \<Rightarrow> Inl err | Inr w \<Rightarrow> Inr \<lparr>ll_writer = w\<rparr>)"

definition linux_Debug :: "string \<Rightarrow> linux_logger \<Rightarrow> (goerr option \<times> linux_logger) option" where
  "linux_Debug msg l = (case sw_write sevDebug msg (ll_writer l) of (err, w) \<Rightarrow> Some (err, l\<lparr>ll_writer := w\<rparr>))"

definition linux_Info :: "string \<Rightarrow> linux_logger \<Rightarrow> (goerr option \<times> linux_logger) option" where
  "linux_Info msg l = (case sw_write sevInfo msg (ll_writer l) of (err, w) \<Rightarrow> Some (err, l\<lparr>ll_writer := w\<rparr>))"

definition linux_Warning :: "string \<Rightarrow> linux_logger \<Rightarrow> (goerr option \<times> linux_logger) option" where
  "linux_Warning msg l = (case sw_write sevWarning msg (ll_writer l) of (err, w) \<Rightarrow> Some (err, l\<lparr>ll_writer := w\<rparr>))"

definition linux_Error :: "string \<Rightarrow> linux_logger \<Rightarrow> (goerr option \<times> linux_logger) option" where
  "linux_Error msg l = (case sw_write sevError msg (ll_writer l) of (err, w) \<Rightarrow> Some (err, l\<lparr>ll_writer := w\<rparr>))"

definition linux_Close :: "linux_logger \<Rightarrow> (goerr option \<times> linux_logger) option" where
  "linux_Close l = Some (sw_close_err (ll_writer l), l)"

definition linux_ops :: "linux_logger system_logger" where
  "linux_ops = \<lparr>sl_Debug = linux_Debug, sl_Info = linux_Info, sl_Warning = linux_Warning, sl_Error = linux_Error,
     sl_Close = linux_Close\<rparr>"

lemmas linux_defs = linux_ops_def linux_Debug_def linux_Info_def linux_Warning_def linux_Error_def sw_write_def received_def

interpretation linux: system_log linux_ops "\<lambda>_. True" "\<lambda>l. sw_sent (ll_writer l)"
  by unfold_locales (auto simp: linux_defs split: option.splits)

section \<open>Windows\<close>

definition infoEventID :: nat where "infoEventID = 1"
definition warningEventID :: nat where "warningEventID = 2"
definition errorEventID :: nat where "errorEventID = 3"
definition debugEventID :: nat where "debugEventID = 4"

lemmas event_ids = infoEventID_def warningEventID_def errorEventID_def debugEventID_def

datatype event_kind = EvInfo | EvWarning | EvError

text \<open>The interface \<open>eventlogWriter\<close>: the events that are logged, and the errors.\<close>

record eventlog =
  ev_events :: "(event_kind \<times> nat \<times> string) list"
  ev_err :: "event_kind \<Rightarrow> nat \<Rightarrow> string \<Rightarrow> goerr option"
  ev_close_err :: "goerr option"

definition ev_log :: "event_kind \<Rightarrow> nat \<Rightarrow> string \<Rightarrow> eventlog \<Rightarrow> goerr option \<times> eventlog" where
  "ev_log k i msg w =
     (case ev_err w k i msg of
        Some err \<Rightarrow> (Some err, w)
      | None \<Rightarrow> (None, w\<lparr>ev_events := ev_events w @ [(k, i, msg)]\<rparr>))"

record windows_logger =
  wl_writer :: eventlog

definition ERROR_ACCESS_DENIED :: goerr where "ERROR_ACCESS_DENIED = ErrOther ''Access is denied.''"

text \<open>
  \<open>newSystemLogger\<close>: the parameters are the error of \<open>InstallAsEventCreate\<close> with its text, and the
  result of \<open>eventlog.Open\<close>.
\<close>

definition windows_newSystemLogger ::
  "(goerr \<times> string) option \<Rightarrow> goerr + eventlog \<Rightarrow> goerr + windows_logger" where
  "windows_newSystemLogger install writer =
     (let open_log = (case writer of Inl err \<Rightarrow> Inl err | Inr w \<Rightarrow> Inr \<lparr>wl_writer = w\<rparr>)
      in case install of
           None \<Rightarrow> open_log
         | Some (err, s) \<Rightarrow>
             if str_index ''exists'' s = None \<and> err \<noteq> ERROR_ACCESS_DENIED then Inl err else open_log)"

definition windows_Debug :: "string \<Rightarrow> windows_logger \<Rightarrow> (goerr option \<times> windows_logger) option" where
  "windows_Debug msg l = (case ev_log EvInfo debugEventID msg (wl_writer l) of (err, w) \<Rightarrow> Some (err, l\<lparr>wl_writer := w\<rparr>))"

definition windows_Info :: "string \<Rightarrow> windows_logger \<Rightarrow> (goerr option \<times> windows_logger) option" where
  "windows_Info msg l = (case ev_log EvInfo infoEventID msg (wl_writer l) of (err, w) \<Rightarrow> Some (err, l\<lparr>wl_writer := w\<rparr>))"

definition windows_Warning :: "string \<Rightarrow> windows_logger \<Rightarrow> (goerr option \<times> windows_logger) option" where
  "windows_Warning msg l = (case ev_log EvWarning warningEventID msg (wl_writer l) of (err, w) \<Rightarrow> Some (err, l\<lparr>wl_writer := w\<rparr>))"

definition windows_Error :: "string \<Rightarrow> windows_logger \<Rightarrow> (goerr option \<times> windows_logger) option" where
  "windows_Error msg l = (case ev_log EvError errorEventID msg (wl_writer l) of (err, w) \<Rightarrow> Some (err, l\<lparr>wl_writer := w\<rparr>))"

definition windows_Close :: "windows_logger \<Rightarrow> (goerr option \<times> windows_logger) option" where
  "windows_Close l = Some (ev_close_err (wl_writer l), l)"

definition windows_ops :: "windows_logger system_logger" where
  "windows_ops = \<lparr>sl_Debug = windows_Debug, sl_Info = windows_Info, sl_Warning = windows_Warning,
     sl_Error = windows_Error, sl_Close = windows_Close\<rparr>"

text \<open>The severity of an event: its kind and its identifier.\<close>

definition event_of :: "severity \<Rightarrow> event_kind \<times> nat" where
  "event_of sev = (if sev = sevDebug then (EvInfo, debugEventID) else if sev = sevInfo then (EvInfo, infoEventID)
     else if sev = sevWarning then (EvWarning, warningEventID) else if sev = sevError then (EvError, errorEventID)
     else (EvError, 0))"

definition windows_messages :: "windows_logger \<Rightarrow> severity \<Rightarrow> string list" where
  "windows_messages l sev = map (\<lambda>(k, i, msg). msg) (filter (\<lambda>(k, i, msg). (k, i) = event_of sev) (ev_events (wl_writer l)))"

lemma event_of_inj: "snd (event_of sev0) \<noteq> 0 \<Longrightarrow> event_of sev = event_of sev0 \<longleftrightarrow> sev = sev0"
  by (auto simp: event_of_def sev_defs event_ids split: if_splits)

lemma event_of_known:
  "event_of sevDebug = (EvInfo, debugEventID)" "event_of sevInfo = (EvInfo, infoEventID)"
  "event_of sevWarning = (EvWarning, warningEventID)" "event_of sevError = (EvError, errorEventID)"
  by (simp_all add: event_of_def sev_defs)

lemma ev_log_received:
  assumes "ev_log k i msg (wl_writer l) = (err, w')" "event_of sev0 = (k, i)" "i \<noteq> 0"
  shows "windows_messages (l\<lparr>wl_writer := w'\<rparr>) = received sev0 msg err (windows_messages l)"
proof
  fix sev
  have "event_of sev = (k, i) \<longleftrightarrow> sev = sev0" using event_of_inj [of sev0 sev] assms(2,3) by simp
  then have "(k, i) = event_of sev \<longleftrightarrow> sev = sev0" by metis
  moreover have "err = None \<and> ev_events w' = ev_events (wl_writer l) @ [(k, i, msg)] \<or> err \<noteq> None \<and> w' = wl_writer l"
  proof (cases "ev_err (wl_writer l) k i msg")
    case None
    then show ?thesis using assms(1) by (auto simp: ev_log_def)
  next
    case (Some e)
    then have "(Some e, wl_writer l) = (err, w')" using assms(1) by (simp add: ev_log_def)
    then show ?thesis by blast
  qed
  ultimately show "windows_messages (l\<lparr>wl_writer := w'\<rparr>) sev = received sev0 msg err (windows_messages l) sev"
    by (auto simp: windows_messages_def received_def)
qed

lemmas windows_log_defs = windows_ops_def windows_Debug_def windows_Info_def windows_Warning_def windows_Error_def

interpretation windows: system_log windows_ops "\<lambda>_. True" windows_messages
  by unfold_locales (auto simp: windows_log_defs event_of_known event_ids intro: ev_log_received split: prod.splits)

section \<open>macOS\<close>

text \<open>
  A \<open>logger\<close> process: what has been written to its standard input, and whether that has been closed and
  the process waited for.  The parameters are the errors of creating and starting a command, whether a
  command that has taken the given input still reads, and its end: the error of \<open>Wait\<close> and the output.
\<close>

record darwin_env =
  dv_New :: "severity \<Rightarrow> goerr option"
  dv_Start :: "severity \<Rightarrow> goerr option"
  dv_reads :: "severity \<Rightarrow> string \<Rightarrow> bool"
  dv_Wait :: "severity \<Rightarrow> string \<Rightarrow> goerr option"
  dv_stdout :: "severity \<Rightarrow> string \<Rightarrow> string"
  dv_stderr :: "severity \<Rightarrow> string \<Rightarrow> string"

record os_process =
  p_severity :: severity
  p_stdin :: string
  p_closed :: bool

definition newOSProcess :: "darwin_env \<Rightarrow> severity \<Rightarrow> goerr + os_process" where
  "newOSProcess V sev =
     (case dv_New V sev of
        Some err \<Rightarrow> Inl (EWrap (Msg ''creating command'') err)
      | None \<Rightarrow>
          (case dv_Start V sev of
             Some err \<Rightarrow> Inl (EWrap (Msg ''starting command'') err)
           | None \<Rightarrow> Inr \<lparr>p_severity = sev, p_stdin = [], p_closed = False\<rparr>))"

definition ErrClosedPipe :: goerr where "ErrClosedPipe = ErrOther ''io: read/write on closed pipe''"

text \<open>
  The annotation of \<open>write\<close>: its format has no verb for the error, so the result does not wrap the error.
\<close>

definition annotate_write :: "goerr option \<Rightarrow> goerr option" where
  "annotate_write err = map_option (\<lambda>_. ErrOther ''writing message'') err"

text \<open>\<open>write\<close>; a write to a pipe that nobody reads blocks forever (\<open>None\<close>).\<close>

definition proc_write :: "darwin_env \<Rightarrow> os_process \<Rightarrow> string \<Rightarrow> string \<Rightarrow> (goerr option \<times> os_process) option" where
  "proc_write V p tag msg =
     (let msg = trim_suffix msg [newline];
          line = tag @ '': '' @ msg @ [newline]
      in if p_closed p then Some (annotate_write (Some ErrClosedPipe), p)
         else if \<not> dv_reads V (p_severity p) (p_stdin p) then None
         else Some (annotate_write None, p\<lparr>p_stdin := p_stdin p @ line\<rparr>))"

text \<open>\<open>close\<close>: closing the pipe has no error, and a second \<open>Wait\<close> always has one.\<close>

definition proc_close :: "golibs \<Rightarrow> darwin_env \<Rightarrow> os_process \<Rightarrow> goerr option \<times> os_process" where
  "proc_close G V p =
     (let errs = (case if p_closed p then Some (ErrOther ''exec: Wait was already called'')
              else dv_Wait V (p_severity p) (p_stdin p) of
              Some err \<Rightarrow> [Some (EWrap (Msg ''waiting'') err)] | None \<Rightarrow> []);
          errs = (if dv_stdout V (p_severity p) (p_stdin p) \<noteq> [] then errs @ [Some (ErrOther ''unexpected stdout output'')] else errs);
          errs = (if dv_stderr V (p_severity p) (p_stdin p) \<noteq> [] then errs @ [Some (ErrOther ''unexpected stderr output'')] else errs)
      in (annotate G (MsgQ ''closing logger'' (p_severity p)) (errors_join errs), p\<lparr>p_closed := True\<rparr>))"

record darwin_logger =
  dl_debug :: "os_process option"
  dl_info :: "os_process option"
  dl_warning :: "os_process option"
  dl_error :: "os_process option"
  dl_tag :: string

definition darwin_Debug :: "darwin_env \<Rightarrow> string \<Rightarrow> darwin_logger \<Rightarrow> (goerr option \<times> darwin_logger) option" where
  "darwin_Debug V msg l = (case dl_debug l of None \<Rightarrow> None
     | Some p \<Rightarrow> map_option (\<lambda>(err, p). (err, l\<lparr>dl_debug := Some p\<rparr>)) (proc_write V p (dl_tag l) msg))"

definition darwin_Info :: "darwin_env \<Rightarrow> string \<Rightarrow> darwin_logger \<Rightarrow> (goerr option \<times> darwin_logger) option" where
  "darwin_Info V msg l = (case dl_info l of None \<Rightarrow> None
     | Some p \<Rightarrow> map_option (\<lambda>(err, p). (err, l\<lparr>dl_info := Some p\<rparr>)) (proc_write V p (dl_tag l) msg))"

definition darwin_Warning :: "darwin_env \<Rightarrow> string \<Rightarrow> darwin_logger \<Rightarrow> (goerr option \<times> darwin_logger) option" where
  "darwin_Warning V msg l = (case dl_warning l of None \<Rightarrow> None
     | Some p \<Rightarrow> map_option (\<lambda>(err, p). (err, l\<lparr>dl_warning := Some p\<rparr>)) (proc_write V p (dl_tag l) msg))"

definition darwin_Error :: "darwin_env \<Rightarrow> string \<Rightarrow> darwin_logger \<Rightarrow> (goerr option \<times> darwin_logger) option" where
  "darwin_Error V msg l = (case dl_error l of None \<Rightarrow> None
     | Some p \<Rightarrow> map_option (\<lambda>(err, p). (err, l\<lparr>dl_error := Some p\<rparr>)) (proc_write V p (dl_tag l) msg))"

text \<open>The loop of \<open>Close\<close> over the processes, some of which may be nil.\<close>

fun close_procs ::
  "golibs \<Rightarrow> darwin_env \<Rightarrow> os_process option list \<Rightarrow> goerr option list \<Rightarrow> goerr option list \<times> os_process option list" where
  "close_procs G V [] errs = (errs, [])"
| "close_procs G V (None # ps) errs = (case close_procs G V ps errs of (errs, ps) \<Rightarrow> (errs, None # ps))"
| "close_procs G V (Some p # ps) errs =
     (case proc_close G V p of (err, p) \<Rightarrow>
        let errs = (if err \<noteq> None then errs @ [err] else errs)
        in case close_procs G V ps errs of (errs, ps) \<Rightarrow> (errs, Some p # ps))"

definition darwin_Close :: "golibs \<Rightarrow> darwin_env \<Rightarrow> darwin_logger \<Rightarrow> goerr option \<times> darwin_logger" where
  "darwin_Close G V l =
     (case close_procs G V [dl_debug l, dl_info l, dl_warning l, dl_error l] [] of (errs, ps) \<Rightarrow>
        (annotate G (Msg ''closing logger processes'') (errors_join errs),
         l\<lparr>dl_debug := ps ! 0, dl_info := ps ! 1, dl_warning := ps ! 2, dl_error := ps ! 3\<rparr>))"

text \<open>
  \<open>newSystemLoggerWithCommandConstructor\<close>: its result, and the logger that it has built, with the
  processes that it has started.
\<close>

definition darwin_newSystemLogger ::
  "golibs \<Rightarrow> darwin_env \<Rightarrow> string \<Rightarrow> (goerr + darwin_logger) \<times> darwin_logger" where
  "darwin_newSystemLogger G V tag =
     (let start = (\<lambda>sev errs. case newOSProcess V sev of
              Inl err \<Rightarrow> (None, errs @ [Some (EWrap (MsgQ ''creating logger process'' sev) err)])
            | Inr p \<Rightarrow> (Some p, errs));
          (debug, errs) = start sevDebug [];
          (info, errs) = start sevInfo errs;
          (warning, errs) = start sevWarning errs;
          (error, errs) = start sevError errs;
          sysl = \<lparr>dl_debug = debug, dl_info = info, dl_warning = warning, dl_error = error, dl_tag = tag\<rparr>
      in case errors_join errs of
           Some err \<Rightarrow>
             (case darwin_Close G V sysl of (closeErr, sysl) \<Rightarrow>
                (Inl (case with_deferred G (Some err) closeErr of Some e \<Rightarrow> e | None \<Rightarrow> err), sysl))
         | None \<Rightarrow> (Inr sysl, sysl))"

definition darwin_ops :: "golibs \<Rightarrow> darwin_env \<Rightarrow> darwin_logger system_logger" where
  "darwin_ops G V = \<lparr>sl_Debug = darwin_Debug V, sl_Info = darwin_Info V, sl_Warning = darwin_Warning V,
     sl_Error = darwin_Error V, sl_Close = (\<lambda>l. Some (darwin_Close G V l))\<rparr>"

text \<open>Every process exists and has been given whole lines with the tag.\<close>

definition proc_ok :: "string \<Rightarrow> os_process option \<Rightarrow> bool" where
  "proc_ok tag p = (\<exists>q msgs. p = Some q \<and> p_stdin q = concat (map (\<lambda>msg. tag @ '': '' @ msg @ [newline]) msgs) \<and>
     (\<forall>msg \<in> set msgs. newline \<notin> set msg))"

definition darwin_ok :: "darwin_logger \<Rightarrow> bool" where
  "darwin_ok l = (newline \<notin> set (dl_tag l) \<and>
     (\<forall>p \<in> {dl_debug l, dl_info l, dl_warning l, dl_error l}. proc_ok (dl_tag l) p))"

definition darwin_proc :: "darwin_logger \<Rightarrow> severity \<Rightarrow> os_process option" where
  "darwin_proc l sev = (if sev = sevDebug then dl_debug l else if sev = sevInfo then dl_info l
     else if sev = sevWarning then dl_warning l else if sev = sevError then dl_error l else None)"

text \<open>
  What a process reads: the messages of its lines, without the tag of the logger.  A line that does not
  start with the tag is kept as it is.
\<close>

definition untag :: "string \<Rightarrow> string \<Rightarrow> string" where
  "untag tag line = (if has_prefix line (tag @ '': '') then drop (length tag + 2) line else line)"

lemma untag_line [simp]: "untag tag (tag @ CHR '':'' # CHR '' '' # msg) = msg"
  by (simp add: untag_def has_prefix_def)

definition proc_messages :: "string \<Rightarrow> os_process option \<Rightarrow> string list" where
  "proc_messages tag p = (case p of None \<Rightarrow> [] | Some p \<Rightarrow> map (untag tag) (raw_lines (p_stdin p)))"

definition darwin_messages :: "darwin_logger \<Rightarrow> severity \<Rightarrow> string list" where
  "darwin_messages l sev = proc_messages (dl_tag l) (darwin_proc l sev)"

lemma split_lines:
  assumes "newline \<notin> set tag" "\<forall>msg \<in> set msgs. newline \<notin> set msg"
  shows "split_on newline (concat (map (\<lambda>msg. tag @ '': '' @ msg @ [newline]) msgs)) = map (\<lambda>msg. tag @ '': '' @ msg) msgs @ [[]]"
  using assms(2)
proof (induction msgs)
  case (Cons msg msgs)
  have "newline \<notin> set (tag @ '': '' @ msg)" using assms(1) Cons.prems by (auto simp: newline_def)
  then have "split_on newline ((tag @ '': '' @ msg) @ newline # concat (map (\<lambda>msg. tag @ '': '' @ msg @ [newline]) msgs)) =
      (tag @ '': '' @ msg) # map (\<lambda>msg. tag @ '': '' @ msg) msgs @ [[]]"
    unfolding split_on_append using Cons by (simp add: split_on_notin)
  then show ?case by simp
qed simp

lemma proc_messages_lines:
  assumes "newline \<notin> set tag" "\<forall>msg \<in> set msgs. newline \<notin> set msg"
    "p_stdin q = concat (map (\<lambda>msg. tag @ '': '' @ msg @ [newline]) msgs)"
  shows "proc_messages tag (Some q) = msgs"
  using split_lines [OF assms(1,2)] assms(3) by (simp add: proc_messages_def raw_lines_def comp_def)

text \<open>A process that has been given whole lines has read exactly its messages, each behind the tag.\<close>

lemma proc_ok_stdin:
  assumes "newline \<notin> set tag" "proc_ok tag p"
  shows "\<exists>q. p = Some q \<and> p_stdin q = concat (map (\<lambda>msg. tag @ '': '' @ msg @ [newline]) (proc_messages tag p)) \<and>
    raw_lines (p_stdin q) = map (\<lambda>msg. tag @ '': '' @ msg) (proc_messages tag p)"
proof -
  obtain q msgs where q: "p = Some q" "p_stdin q = concat (map (\<lambda>msg. tag @ '': '' @ msg @ [newline]) msgs)"
      "\<forall>msg \<in> set msgs. newline \<notin> set msg" using assms(2) by (auto simp: proc_ok_def)
  with proc_messages_lines [OF assms(1) q(3,2)] split_lines [OF assms(1) q(3)] show ?thesis
    by (simp add: raw_lines_def)
qed

lemma proc_write_received:
  assumes "newline \<notin> set tag" "newline \<notin> set msg" "proc_ok tag (Some p)" "proc_write V p tag msg = Some (err, p')"
  shows "proc_ok tag (Some p') \<and>
    proc_messages tag (Some p') = (if err = None then proc_messages tag (Some p) @ [msg] else proc_messages tag (Some p))"
proof -
  from assms(3) obtain msgs where m: "p_stdin p = concat (map (\<lambda>msg. tag @ '': '' @ msg @ [newline]) msgs)"
    "\<forall>msg \<in> set msgs. newline \<notin> set msg" by (auto simp: proc_ok_def)
  have t: "trim_suffix msg [newline] = msg"
    using assms(2) by (auto simp: trim_suffix_def has_suffix_def) (metis in_set_dropD list.set_intros(1))
  show ?thesis
  proof (cases "p_closed p")
    case True
    then show ?thesis using assms(3,4) by (auto simp: proc_write_def annotate_write_def Let_def)
  next
    case False
    then have e: "err = None" "p' = p\<lparr>p_stdin := p_stdin p @ tag @ '': '' @ msg @ [newline]\<rparr>"
      using assms(4) t by (auto simp: proc_write_def annotate_write_def Let_def split: if_splits)
    then have m': "p_stdin p' = concat (map (\<lambda>msg. tag @ '': '' @ msg @ [newline]) (msgs @ [msg]))"
      "\<forall>msg \<in> set (msgs @ [msg]). newline \<notin> set msg" using m assms(2) by auto
    then have "proc_ok tag (Some p')" unfolding proc_ok_def by blast
    with e(1) proc_messages_lines [OF assms(1) m(2,1)] proc_messages_lines [OF assms(1) m'(2,1)] show ?thesis by simp
  qed
qed

lemma darwin_update:
  assumes "darwin_ok l" "newline \<notin> set msg" "darwin_proc l sev = Some p" "proc_write V p (dl_tag l) msg = Some (err, p')"
    "darwin_proc l' sev = Some p'" "dl_tag l' = dl_tag l" "\<forall>s. s \<noteq> sev \<longrightarrow> darwin_proc l' s = darwin_proc l s"
  shows "darwin_ok l' \<and> darwin_messages l' = received sev msg err (darwin_messages l)"
proof
  have sevs: "darwin_ok k \<longleftrightarrow> newline \<notin> set (dl_tag k) \<and>
      (\<forall>s \<in> {sevDebug, sevInfo, sevWarning, sevError}. proc_ok (dl_tag k) (darwin_proc k s))" for k
    by (simp add: darwin_ok_def darwin_proc_def sev_defs)
  have known: "sev \<in> {sevDebug, sevInfo, sevWarning, sevError}"
    using assms(3) by (auto simp: darwin_proc_def split: if_splits)
  then have "proc_ok (dl_tag l) (Some p)" "newline \<notin> set (dl_tag l)" using assms(1,3) unfolding sevs by metis+
  note w = proc_write_received [OF this(2) assms(2) this(1) assms(4)]
  show "darwin_ok l'" using w assms(1,5,6,7) unfolding sevs by metis
  show "darwin_messages l' = received sev msg err (darwin_messages l)"
  proof
    fix s
    show "darwin_messages l' s = received sev msg err (darwin_messages l) s"
      using w assms(3,5,6,7) by (cases "s = sev") (simp_all add: darwin_messages_def received_def)
  qed
qed

lemmas darwin_log_defs = darwin_ops_def darwin_Debug_def darwin_Info_def darwin_Warning_def darwin_Error_def

interpretation darwin: system_log "darwin_ops G V" darwin_ok darwin_messages for G V
proof unfold_locales
  fix l msg err l'
  assume l: "darwin_ok l" "newline \<notin> set msg"
  note sd = darwin_proc_def sev_defs
  show "darwin_ok l' \<and> darwin_messages l' = received sevDebug msg err (darwin_messages l)"
    if "sl_Debug (darwin_ops G V) msg l = Some (err, l')"
  proof -
    from that obtain p p' where "dl_debug l = Some p" "proc_write V p (dl_tag l) msg = Some (err, p')" "l' = l\<lparr>dl_debug := Some p'\<rparr>"
      by (auto simp: darwin_log_defs split: option.splits)
    then show ?thesis by (intro darwin_update [OF l, of sevDebug p V err p']) (simp_all add: sd)
  qed
  show "darwin_ok l' \<and> darwin_messages l' = received sevInfo msg err (darwin_messages l)"
    if "sl_Info (darwin_ops G V) msg l = Some (err, l')"
  proof -
    from that obtain p p' where "dl_info l = Some p" "proc_write V p (dl_tag l) msg = Some (err, p')" "l' = l\<lparr>dl_info := Some p'\<rparr>"
      by (auto simp: darwin_log_defs split: option.splits)
    then show ?thesis by (intro darwin_update [OF l, of sevInfo p V err p']) (simp_all add: sd)
  qed
  show "darwin_ok l' \<and> darwin_messages l' = received sevWarning msg err (darwin_messages l)"
    if "sl_Warning (darwin_ops G V) msg l = Some (err, l')"
  proof -
    from that obtain p p' where "dl_warning l = Some p" "proc_write V p (dl_tag l) msg = Some (err, p')" "l' = l\<lparr>dl_warning := Some p'\<rparr>"
      by (auto simp: darwin_log_defs split: option.splits)
    then show ?thesis by (intro darwin_update [OF l, of sevWarning p V err p']) (simp_all add: sd)
  qed
  show "darwin_ok l' \<and> darwin_messages l' = received sevError msg err (darwin_messages l)"
    if "sl_Error (darwin_ops G V) msg l = Some (err, l')"
  proof -
    from that obtain p p' where "dl_error l = Some p" "proc_write V p (dl_tag l) msg = Some (err, p')" "l' = l\<lparr>dl_error := Some p'\<rparr>"
      by (auto simp: darwin_log_defs split: option.splits)
    then show ?thesis by (intro darwin_update [OF l, of sevError p V err p']) (simp_all add: sd)
  qed
qed

lemma darwin_tag:
  "handle_all (darwin_ops G V) rs buf l = Some (errs, buf', l') \<Longrightarrow> dl_tag l' = dl_tag l"
proof (induction rs arbitrary: buf l errs)
  case (Cons r rs)
  obtain h rec where r: "r = (h, rec)" by (metis surj_pair)
  with Cons.prems obtain err buf1 l1 errs1 where
    step: "Handle (darwin_ops G V) h rec buf l = Some (err, buf1, l1)" "handle_all (darwin_ops G V) rs buf1 l1 = Some (errs1, buf', l')"
    by (auto split: option.splits)
  from step(1) have "dl_tag l1 = dl_tag l"
    unfolding Handle_eq by (auto simp: darwin_log_defs split: if_splits option.splits)
  with Cons.IH [OF step(2)] show ?case by simp
qed simp

section \<open>A logger that has just been created\<close>

definition severities :: "severity list" where
  "severities = [sevDebug, sevInfo, sevWarning, sevError]"

text \<open>Each process is the one of its severity, and is running.\<close>

definition darwin_live :: "darwin_logger \<Rightarrow> bool" where
  "darwin_live l = (\<forall>sev \<in> set severities. \<exists>p. darwin_proc l sev = Some p \<and> p_severity p = sev \<and> \<not> p_closed p)"

lemma darwin_live_iff:
  "darwin_live l \<longleftrightarrow>
     (\<exists>p. dl_debug l = Some p \<and> p_severity p = sevDebug \<and> \<not> p_closed p) \<and>
     (\<exists>p. dl_info l = Some p \<and> p_severity p = sevInfo \<and> \<not> p_closed p) \<and>
     (\<exists>p. dl_warning l = Some p \<and> p_severity p = sevWarning \<and> \<not> p_closed p) \<and>
     (\<exists>p. dl_error l = Some p \<and> p_severity p = sevError \<and> \<not> p_closed p)"
  by (simp add: darwin_live_def severities_def darwin_proc_def sev_defs)

lemma proc_write_live:
  assumes "\<not> p_closed p" "\<forall>sev s. dv_reads V sev s"
  shows "\<exists>p'. proc_write V p tag msg = Some (None, p') \<and> p_severity p' = p_severity p \<and> \<not> p_closed p'"
  using assms by (simp add: proc_write_def annotate_write_def Let_def)

lemma darwin_Handle_live:
  assumes "darwin_live l" "\<forall>sev s. dv_reads V sev s"
  shows "\<exists>l'. Handle (darwin_ops G V) h rec buf l = Some (None, tl buf @ [\<lparr>bt_buffer = log_line h rec @ [newline]\<rparr>], l') \<and> darwin_live l'"
proof -
  from assms(1) obtain d i w e where p: "dl_debug l = Some d" "dl_info l = Some i" "dl_warning l = Some w" "dl_error l = Some e"
    "\<not> p_closed d" "\<not> p_closed i" "\<not> p_closed w" "\<not> p_closed e" unfolding darwin_live_iff by blast
  note wr = proc_write_live [OF p(5) assms(2), of "dl_tag l" "log_line h rec"] proc_write_live [OF p(6) assms(2), of "dl_tag l" "log_line h rec"]
    proc_write_live [OF p(7) assms(2), of "dl_tag l" "log_line h rec"] proc_write_live [OF p(8) assms(2), of "dl_tag l" "log_line h rec"]
  show ?thesis
    using wr assms(1) p unfolding Handle_eq darwin_live_iff
    by (auto simp: darwin_log_defs)
qed

lemma darwin_handle_all_live:
  assumes "darwin_live l" "\<forall>sev s. dv_reads V sev s"
  shows "\<exists>buf' l'. handle_all (darwin_ops G V) rs buf l = Some (map (\<lambda>_. None) rs, buf', l') \<and> darwin_live l'"
  using assms(1)
proof (induction rs arbitrary: l buf)
  case (Cons r rs)
  obtain h rec where r: "r = (h, rec)" by (metis surj_pair)
  obtain l1 where l1: "Handle (darwin_ops G V) h rec buf l = Some (None, tl buf @ [\<lparr>bt_buffer = log_line h rec @ [newline]\<rparr>], l1)" "darwin_live l1"
    using darwin_Handle_live [OF Cons.prems assms(2)] by blast
  from Cons.IH [OF this(2), of "tl buf @ [\<lparr>bt_buffer = log_line h rec @ [newline]\<rparr>]"] l1(1) r show ?case by auto
qed simp

lemma handled_all:
  "handled rs (map (\<lambda>_. None) rs) sev = map (\<lambda>(h, rec). log_line h rec) (filter (\<lambda>(h, rec). severity_of (r_level rec) = sev) rs)"
  by (induction rs) (auto simp: handled_def)

definition proc_of :: "darwin_env \<Rightarrow> severity \<Rightarrow> os_process option" where
  "proc_of V sev = (case newOSProcess V sev of Inl err \<Rightarrow> None | Inr p \<Rightarrow> Some p)"

definition new_logger :: "darwin_env \<Rightarrow> string \<Rightarrow> darwin_logger" where
  "new_logger V tag = \<lparr>dl_debug = proc_of V sevDebug, dl_info = proc_of V sevInfo, dl_warning = proc_of V sevWarning,
     dl_error = proc_of V sevError, dl_tag = tag\<rparr>"

lemma proc_of_Some: "proc_of V sev = Some p \<Longrightarrow> p = \<lparr>p_severity = sev, p_stdin = [], p_closed = False\<rparr>"
  by (auto simp: proc_of_def newOSProcess_def split: option.splits)

lemma darwin_new_cases:
  "(\<forall>sev \<in> set severities. proc_of V sev \<noteq> None) \<and> darwin_newSystemLogger G V tag = (Inr (new_logger V tag), new_logger V tag) \<or>
   (\<exists>sev \<in> set severities. proc_of V sev = None) \<and>
     (\<exists>err. darwin_newSystemLogger G V tag = (Inl err, snd (darwin_Close G V (new_logger V tag))))"
proof (cases "\<forall>sev \<in> set severities. proc_of V sev \<noteq> None")
  case True
  then show ?thesis
    by (auto simp: darwin_newSystemLogger_def proc_of_def new_logger_def severities_def Let_def split: sum.splits)
next
  case False
  then have "\<exists>err. darwin_newSystemLogger G V tag = (Inl err, snd (darwin_Close G V (new_logger V tag)))"
    unfolding darwin_newSystemLogger_def Let_def
    by (auto simp: proc_of_def new_logger_def severities_def split: sum.splits option.splits prod.splits)
  moreover from False have "\<exists>sev \<in> set severities. proc_of V sev = None" by simp
  ultimately show ?thesis by (intro disjI2 conjI)
qed

lemma new_logger_procs:
  "sev \<in> set severities \<Longrightarrow> darwin_proc (new_logger V tag) sev = proc_of V sev" "dl_tag (new_logger V tag) = tag"
  by (auto simp: new_logger_def darwin_proc_def severities_def sev_defs)

lemma new_logger_live:
  assumes "\<forall>sev \<in> set severities. proc_of V sev \<noteq> None"
  shows "darwin_live (new_logger V tag)"
  unfolding darwin_live_def
proof
  fix sev assume sev: "sev \<in> set severities"
  with assms obtain p where "proc_of V sev = Some p" by blast
  with proc_of_Some [OF this] show "\<exists>p. darwin_proc (new_logger V tag) sev = Some p \<and> p_severity p = sev \<and> \<not> p_closed p"
    by (simp add: new_logger_procs(1) [OF sev])
qed

lemma new_logger_ok:
  assumes "\<forall>sev \<in> set severities. proc_of V sev \<noteq> None" "newline \<notin> set tag"
  shows "darwin_ok (new_logger V tag)" "darwin_messages (new_logger V tag) sev = []"
proof -
  have e: "proc_ok tag (Some p) \<and> proc_messages tag (Some p) = []" if "proc_of V s = Some p" for s p
    using proc_of_Some [OF that] proc_messages_lines [OF assms(2), of "[]" p]
    by (auto simp: proc_ok_def intro!: exI [of _ "[]"])
  have "proc_ok tag (proc_of V s) \<and> proc_messages tag (proc_of V s) = []" if "s \<in> set severities" for s
    using that assms(1) e by (cases "proc_of V s") auto
  then show "darwin_ok (new_logger V tag)" "darwin_messages (new_logger V tag) sev = []"
    using assms(2)
    by (auto simp: darwin_ok_def new_logger_def severities_def darwin_messages_def darwin_proc_def proc_messages_def)
qed

lemma darwin_Close_closed:
  "darwin_proc (snd (darwin_Close G V l)) sev = map_option (\<lambda>p. p\<lparr>p_closed := True\<rparr>) (darwin_proc l sev)"
proof -
  have "snd (close_procs G V ps errs) = map (map_option (\<lambda>p. p\<lparr>p_closed := True\<rparr>)) ps" for ps errs
    by (induction G V ps errs rule: close_procs.induct) (auto simp: proc_close_def Let_def split: prod.splits)
  from this [of "[dl_debug l, dl_info l, dl_warning l, dl_error l]" "[]"] obtain errs where
    "close_procs G V [dl_debug l, dl_info l, dl_warning l, dl_error l] [] =
       (errs, map (map_option (\<lambda>p. p\<lparr>p_closed := True\<rparr>)) [dl_debug l, dl_info l, dl_warning l, dl_error l])"
    by (metis prod.collapse)
  then show ?thesis by (simp add: darwin_Close_def darwin_proc_def)
qed

section \<open>Properties\<close>

text \<open>
  C35: On macOS every record that a new logger is given is handled, without an error and without
  blocking if its commands keep reading, and the command of each severity has then read one line for each record of its level, in
  order, and nothing else: the tag, a colon and a space, and the level, the message and the attributes
  of the record and of the handler, quoted so that none of them breaks the line.
\<close>

lemma darwin_log_lines:
  assumes "newline \<notin> set tag" "fst (darwin_newSystemLogger G V tag) = Inr l" "\<forall>sev s. dv_reads V sev s"
  shows "\<exists>buf' l'. handle_all (darwin_ops G V) rs buf l = Some (map (\<lambda>_. None) rs, buf', l') \<and>
    (\<forall>sev \<in> set severities. \<exists>p.
       darwin_proc l' sev = Some p \<and> p_severity p = sev \<and>
       p_stdin p = concat (map (\<lambda>(h, rec). tag @ '': '' @ log_line h rec @ [newline])
         (filter (\<lambda>(h, rec). severity_of (r_level rec) = sev) rs)) \<and>
       raw_lines (p_stdin p) = map (\<lambda>(h, rec). tag @ '': '' @ log_line h rec)
         (filter (\<lambda>(h, rec). severity_of (r_level rec) = sev) rs))"
proof -
  have n: "\<forall>sev \<in> set severities. proc_of V sev \<noteq> None" "l = new_logger V tag"
    using darwin_new_cases [of V G tag] assms(2) by auto
  obtain buf' l' where h: "handle_all (darwin_ops G V) rs buf l = Some (map (\<lambda>_. None) rs, buf', l')" "darwin_live l'"
    using darwin_handle_all_live [OF _ assms(3)] new_logger_live [OF n(1)] n(2) by blast
  have tag: "dl_tag l' = tag" using darwin_tag [OF h(1)] n(2) by (simp add: new_logger_def)
  have ok: "darwin_ok l'" and msgs: "\<And>sev. darwin_messages l' sev =
      map (\<lambda>(h, rec). log_line h rec) (filter (\<lambda>(h, rec). severity_of (r_level rec) = sev) rs)"
    using darwin.handle_all_received [OF _ h(1)] new_logger_ok [OF n(1) assms(1)] n(2) by (simp_all add: handled_all)
  have "\<exists>p. darwin_proc l' sev = Some p \<and> p_severity p = sev \<and>
       p_stdin p = concat (map (\<lambda>(h, rec). tag @ '': '' @ log_line h rec @ [newline])
         (filter (\<lambda>(h, rec). severity_of (r_level rec) = sev) rs)) \<and>
       raw_lines (p_stdin p) = map (\<lambda>(h, rec). tag @ '': '' @ log_line h rec)
         (filter (\<lambda>(h, rec). severity_of (r_level rec) = sev) rs)" if sev: "sev \<in> set severities" for sev
  proof -
    have "proc_ok tag (darwin_proc l' sev)" using ok tag sev by (auto simp: darwin_ok_def darwin_proc_def severities_def)
    from proc_ok_stdin [OF assms(1) this] obtain p where p: "darwin_proc l' sev = Some p"
        "p_stdin p = concat (map (\<lambda>msg. tag @ '': '' @ msg @ [newline]) (darwin_messages l' sev))"
        "raw_lines (p_stdin p) = map (\<lambda>msg. tag @ '': '' @ msg) (darwin_messages l' sev)"
      by (auto simp: darwin_messages_def tag)
    moreover have "p_severity p = sev" using h(2) sev p(1) by (auto simp: darwin_live_def)
    ultimately show ?thesis by (simp add: msgs split_def comp_def)
  qed
  with h(1) show ?thesis by blast
qed

definition demo_darwin :: "severity \<Rightarrow> darwin_env" where
  "demo_darwin bad = \<lparr>dv_New = (\<lambda>_. None), dv_Start = (\<lambda>sev. if sev = bad then Some ErrNotExist else None),
     dv_reads = (\<lambda>_ _. True), dv_Wait = (\<lambda>_ _. None), dv_stdout = (\<lambda>_ _. []), dv_stderr = (\<lambda>_ _. [])\<rparr>"

lemma darwin_log_lines_witness:
  "\<exists>l buf' l' p. fst (darwin_newSystemLogger ref_golibs (demo_darwin []) ''dns'') = Inr l \<and>
     handle_all (darwin_ops ref_golibs (demo_darwin []))
       [(WithAttrs (NewSyslogHandler 0) [(''prefix'', ''p'')], \<lparr>r_time = Some ''t'', r_level = 4, r_msg = ''a b'', r_attrs = []\<rparr>)] [] l =
       Some ([None], buf', l') \<and> darwin_proc l' ''warning'' = Some p \<and>
     p_stdin p = ''dns: level=WARN msg='' @ [CHR 0x22] @ ''a b'' @ [CHR 0x22] @ '' prefix=p'' @ [newline]"
proof -
  let ?rs = "[(WithAttrs (NewSyslogHandler 0) [(''prefix'', ''p'')], \<lparr>r_time = Some ''t'', r_level = 4, r_msg = ''a b'', r_attrs = []\<rparr>)]"
  obtain l where l: "fst (darwin_newSystemLogger ref_golibs (demo_darwin []) ''dns'') = Inr l"
    using darwin_new_cases [of "demo_darwin []" ref_golibs "''dns''"]
    by (auto simp: proc_of_def newOSProcess_def demo_darwin_def severities_def sev_defs)
  have "newline \<notin> set ''dns''" "\<forall>sev s. dv_reads (demo_darwin []) sev s" by (simp_all add: newline_def demo_darwin_def)
  from darwin_log_lines [OF this(1) l this(2), of ?rs "[]"] obtain buf' l' p where
    r: "handle_all (darwin_ops ref_golibs (demo_darwin [])) ?rs [] l = Some ([None], buf', l')"
    "darwin_proc l' ''warning'' = Some p"
    "p_stdin p = concat (map (\<lambda>(h, rec). ''dns'' @ '': '' @ log_line h rec @ [newline])
      (filter (\<lambda>(h, rec). severity_of (r_level rec) = ''warning'') ?rs))"
    by (auto simp: severities_def sev_defs)
  have "log_line (fst (hd ?rs)) (snd (hd ?rs)) = ''level=WARN msg='' @ [CHR 0x22] @ ''a b'' @ [CHR 0x22] @ '' prefix=p''"
    by code_simp
  with l r show ?thesis by (simp add: severity_of_def level_defs sev_defs)
qed

text \<open>
  C36: Creating the logger on macOS leaves no process behind: it succeeds exactly if all four processes
  start, and otherwise every process that has started is closed.
\<close>

lemma darwin_new_exact:
  "(\<exists>l. fst (darwin_newSystemLogger G V tag) = Inr l) = (\<forall>sev \<in> set severities. \<exists>p. newOSProcess V sev = Inr p) \<and>
   (\<forall>sev \<in> set severities. case darwin_proc (snd (darwin_newSystemLogger G V tag)) sev of
      None \<Rightarrow> (\<exists>err. newOSProcess V sev = Inl err)
    | Some p \<Rightarrow> p_severity p = sev \<and> p_closed p = (\<exists>err. fst (darwin_newSystemLogger G V tag) = Inl err))"
proof -
  let ?r = "darwin_newSystemLogger G V tag"
  have none: "proc_of V sev = None \<longleftrightarrow> (\<exists>err. newOSProcess V sev = Inl err)"
    "proc_of V sev \<noteq> None \<longleftrightarrow> (\<exists>p. newOSProcess V sev = Inr p)" for sev
    by (auto simp: proc_of_def split: sum.splits)
  have old: "case darwin_proc (new_logger V tag) sev of
       None \<Rightarrow> (\<exists>err. newOSProcess V sev = Inl err) | Some p \<Rightarrow> p_severity p = sev \<and> \<not> p_closed p" if "sev \<in> set severities" for sev
  proof (cases "proc_of V sev")
    case None
    with none(1) [of sev] have "\<exists>err. newOSProcess V sev = Inl err" by (rule iffD1)
    with None show ?thesis using new_logger_procs(1) [OF that, of V tag] by simp
  next
    case (Some p)
    then show ?thesis using new_logger_procs(1) [OF that, of V tag] proc_of_Some [OF Some] by simp
  qed
  show ?thesis
  proof (cases "\<forall>sev \<in> set severities. proc_of V sev \<noteq> None")
    case True
    then have r: "?r = (Inr (new_logger V tag), new_logger V tag)" using darwin_new_cases [of V G tag] by auto
    have "\<forall>sev \<in> set severities. \<exists>p. newOSProcess V sev = Inr p" using True none(2) by blast
    moreover have "case darwin_proc (snd ?r) sev of None \<Rightarrow> (\<exists>err. newOSProcess V sev = Inl err)
        | Some p \<Rightarrow> p_severity p = sev \<and> p_closed p = (\<exists>err. fst ?r = Inl err)" if "sev \<in> set severities" for sev
      using old [OF that] unfolding r by (cases "darwin_proc (new_logger V tag) sev") simp_all
    ultimately show ?thesis using r by simp
  next
    case False
    then obtain err where r: "?r = (Inl err, snd (darwin_Close G V (new_logger V tag)))"
      using darwin_new_cases [of V G tag] by auto
    have "\<not> (\<forall>sev \<in> set severities. \<exists>p. newOSProcess V sev = Inr p)" using False none(2) by blast
    moreover have "case darwin_proc (snd ?r) sev of None \<Rightarrow> (\<exists>err. newOSProcess V sev = Inl err)
        | Some p \<Rightarrow> p_severity p = sev \<and> p_closed p = (\<exists>err. fst ?r = Inl err)" if "sev \<in> set severities" for sev
      using old [OF that] unfolding r by (cases "darwin_proc (new_logger V tag) sev") (simp_all add: darwin_Close_closed)
    ultimately show ?thesis using r by simp
  qed
qed

lemma darwin_new_exact_witness:
  "\<exists>p. darwin_proc (snd (darwin_newSystemLogger ref_golibs (demo_darwin sevInfo) ''dns'')) sevDebug = Some p \<and> p_closed p"
proof -
  have n: "newOSProcess (demo_darwin sevInfo) sevDebug = Inr \<lparr>p_severity = sevDebug, p_stdin = [], p_closed = False\<rparr>"
    "\<nexists>p. newOSProcess (demo_darwin sevInfo) sevInfo = Inr p"
    by (simp_all add: newOSProcess_def demo_darwin_def sev_defs)
  have "sevDebug \<in> set severities" "sevInfo \<in> set severities" by (simp_all add: severities_def)
  with n darwin_new_exact [of ref_golibs "demo_darwin sevInfo" "''dns''"] show ?thesis
    by (cases "fst (darwin_newSystemLogger ref_golibs (demo_darwin sevInfo) ''dns'')") (force split: option.splits)+
qed

text \<open>A write to a closed process fails with an error that does not wrap the cause.\<close>

lemma proc_write_closed:
  "p_closed p \<Longrightarrow> \<exists>e. proc_write V p tag msg = Some (Some e, p) \<and> \<not> err_is ErrClosedPipe e"
  by (simp add: proc_write_def annotate_write_def ErrClosedPipe_def Let_def)

end
