(* ===== verification/Spec2Isabelle.thy ===== *)
theory Spec2Isabelle
  imports StorageFinal StorageSource RdnsConc CmdServe ProgRun MainProg Syslog
begin

text \<open>
  A verification development of AdGuard DNS CLI, a DNS forwarder that runs as a system service.  The
  paths below are relative to \<open>src/internal\<close>.

  \<^bold>\<open>The program.\<close>  \<open>Main\<close> (\<open>cmd/cmd.go\<close>) reads the command line and the environment, opens the log, and
  then installs, controls or runs the service.  A run migrates, decodes and validates the configuration
  file, builds the upstreams of its groups and the storage of clients from it, and starts the DNS
  service, whose requests ask the storage for the upstreams of the client: a static client by prefix and
  domain, or a client that is made on demand for a device, identified by its name in reverse DNS or by
  its address.

  \<^bold>\<open>Theories.\<close>  In the order of their imports:
    \<^item> \<open>Prelude\<close>, \<open>GoStrings\<close>, \<open>Golibs\<close>, \<open>Netip\<close>: errors as values, the strings, addresses and prefixes of the
      standard library, and \<open>golibs\<close> as a record of parameters with its documented behaviour \<open>golibs_ok\<close>;
    \<^item> \<open>HumanId\<close> (\<open>client/humanid.go\<close>), \<open>HumanIdSource\<close> (\<open>client/humanidsource.go\<close>), \<open>RdnsSource\<close>
      (\<open>client/rdnsidsource.go\<close>): identifiers and their sources, with the interface as the locale
      \<open>human_id_source\<close>;
    \<^item> \<open>OpQueue\<close> (\<open>client/queue.go\<close>): the queue of operations as a step relation on its atomic steps;
    \<^item> \<open>DomainOrder\<close>, \<open>Autodevice\<close> (\<open>client/autodevice.go\<close>, \<open>client/client.go\<close>), \<open>Storage\<close>, \<open>StorageProps\<close>
      (\<open>client/defaultstorage.go\<close>): the orders of clients (the locale \<open>cmp_order\<close>), the clients, and the
      storage with its search, its identification, its collector and its shutdown;
    \<^item> \<open>RdnsConc\<close>: the reverse DNS source under concurrent calls and the janitor of its cache;
    \<^item> \<open>StorageConc\<close>, \<open>StorageRuns\<close>, \<open>StorageFinal\<close>: the same storage under any number of concurrent
      callers, with its two queues, the collector and the clock, as a step relation whose steps are the
      critical sections; \<open>StorageSource\<close>: this storage with the source that the program builds;
    \<^item> \<open>DnsSvc\<close> (\<open>dnssvc\<close>, \<open>client/storage.go\<close>): the service over the proxy, and the storage as the locale
      \<open>client_storage\<close>;
    \<^item> \<open>YamlObj\<close>, \<open>Migrate\<close> (\<open>configmigrate\<close>): the migrations (the locale \<open>migration\<close>), their driver and the
      file system operations with their permissions (\<open>agdcos\<close>), and the backup;
    \<^item> \<open>CmdConfig\<close>, \<open>CmdValid\<close>: the structure of the file, \<open>Validate\<close>, and the valid configurations as a
      specification (\<open>valid_conf\<close>);
    \<^item> \<open>CmdUpstreams\<close>, \<open>CmdBuild\<close>, \<open>CmdStorage\<close> (\<open>cmd/upstream.go\<close>, \<open>cmd/bootstrap.go\<close>,
      \<open>cmd/clientstorage.go\<close>): the upstreams, the resolvers and the storage built from a configuration;
    \<^item> \<open>CmdServe\<close>: the requests that are served from such a storage;
    \<^item> \<open>OsService\<close> (\<open>cmd/osservice.go\<close>, \<open>cmd/service_*.go\<close>, \<open>agdcos\<close>): the actions on the system service and
      its status;
    \<^item> \<open>CmdDefault\<close> (\<open>cmd/default.go\<close>, \<open>cmd/config.go\<close>): the default configuration and the handling of the
      file;
    \<^item> \<open>DebugService\<close> (\<open>debugsvc\<close>): the debug HTTP service and its routes;
    \<^item> \<open>Lifecycle\<close> (\<open>cmd/program.go\<close>, \<open>cmd/servicehandler.go\<close>, \<open>cmd/dns.go\<close>): start and stop; \<open>ProgRun\<close>: the
      goroutine of the handler and the caller of \<open>Stop\<close> as a step relation on their channels;
    \<^item> \<open>Slog\<close>, \<open>Syslog\<close> (\<open>agdcslog\<close>): the log handler, with its pool of buffers, over the locale \<open>system_log\<close>, interpreted on the loggers
      of Linux, Windows and macOS;
    \<^item> \<open>LogConf\<close> (\<open>cmd/log.go\<close>, \<open>cmd/env.go\<close>): which log is used and what is open;
    \<^item> \<open>MainProg\<close> (\<open>cmd/cmd.go\<close>, \<open>cmd/options.go\<close>): the command line and \<open>Main\<close>.

  \<^bold>\<open>How the code is modelled.\<close>  A structure is a record, a pointer that may be nil in the configuration an
  option, an error a value of \<open>goerr\<close> (what is wrapped is kept, the formatted text is not), a result with
  an error a sum.  A panic is \<open>None\<close>, and so is a call that never returns.  State is passed explicitly: the
  storage, the queue, the file system, the open logs, the processes.  A map whose order the code observes
  is an association list.  The clock is an argument.  Cache sizes are 64-bit words, times to live 32-bit
  words, IPv4 and IPv6 addresses 32- and 128-bit words.

  \<^bold>\<open>Parameters.\<close>  Code outside the repository is a parameter: \<open>golibs\<close>, \<open>dnsproxy\<close> (\<open>ups_env\<close>, \<open>proxy_env\<close>,
  \<open>boot_env\<close>), \<open>go-cache\<close> (\<open>gocache\<close>, \<open>gocache_ok\<close>), \<open>yaml.v3\<close> and \<open>renameio\<close> (\<open>mig_env\<close>, \<open>default_env\<close>),
  \<open>kardianos/service\<close> (\<open>os_service\<close>, \<open>main_env\<close>), and so are the network, the opening of files, and the parts
  of the standard library that parse URLs and format times.  A property that relies on their documented
  behaviour has it as a hypothesis (a predicate whose name ends in \<open>_ok\<close>), and its witness uses a concrete
  instance (\<open>ref_\<close>, \<open>demo_\<close>).  Of the writing of a file (\<open>write_ok\<close>) only this is assumed: it touches no other
  path, and when it succeeds the file has the data, a new file has the permissions it is given and an
  existing one keeps its own; a failed write may leave anything.  What \<open>dnsproxy\<close> has to accept for the
  program to start (\<open>proxy_accepts\<close>) is asked for the values that the program passes to it.

  \<^bold>\<open>What is proved.\<close>
    \<^item> Composition: \<open>-s install\<close> and a following start agree; a valid configuration starts every service,
      and a stop shuts them down in the reverse order whatever errors they return; a request is
      resolved at any time with the upstreams that the configuration gives to its client, by the criterion
      that matches best, for a device under an identifier of its own (the locale \<open>naming\<close>); no log is left open.
    \<^item> Configuration: \<open>Validate\<close> accepts exactly the valid configurations; the default one is valid; the
      upstreams are built from every valid one; cache sizes do not overflow.
    \<^item> Storage: the search is independent of the order of the configuration and finds the best match; the
      collector is not observable; identifiers are exclusive; invariants hold for every sequence of
      operations, for the storage and for its reverse DNS source.  Overlapping prefixes, which nothing
      rejects, make the broader one hide the narrower.
    \<^item> Concurrency: in every interleaving a queue has one leader for a key and a waiter gets the leader's
      result; a caller of the storage gets the client that its own question asks for, the live clients
      of different addresses have different identifiers (for every source that does not shorten the life
      of a name, which that of the program is shown to be), at most one call creates a client, nothing
      deadlocks, every call ends, and a call that runs alone can do what the sequential model does; each
      client that was stored gets its finalizer exactly once.  The identifiers that the reverse DNS source
      gives to different addresses differ in every interleaving of its calls.  A stop of the program
      ends, with every service down and their errors joined, exactly if the start had succeeded.
    \<^item> Migration: it runs the migrations in between and terminates; a failure never loses the configuration,
      which is in its file or in the backup; a success leaves a backup, and a second run does nothing.
    \<^item> Logs: on macOS each record is one line for the process of its severity; creating the logger leaves no
      process behind; the level and the output are those that the options, the environment and the file ask for.
    \<^item> Formats: domains are ordered by their labels, upstream addresses fit a label, the status is read
      back from the output of \<open>systemctl show\<close>, the options from the command line.

  \<^bold>\<open>Bounds and termination.\<close>  No definition uses fuel: every recursion is structural or has a measure (the
  length of a name, of a list or of the arguments).  A pending call of the storage takes at most twenty
  steps: \<open>rank\<close> counts those that are left, of which the two queues have at most five each.  A stop of
  \<open>n\<close> services takes at most \<open>n + 4\<close>.

  \<^bold>\<open>Not modelled.\<close>  What is printed and logged by the program, except in \<open>Slog\<close>; contexts and timeouts,
  but for a cancelled wait in the queues; the steps inside of a call of the source of identifiers where
  the storage makes it (\<open>RdnsConc\<close> has them alone); the mutexes of the log processes; the HTTP server of
  the debug service and its middlewares, which are parameters, and wildcards in its routes; tests,
  scripts, packaging and the installer.
\<close>

end
